(* ===== verification/Zfs_Prelude.thy ===== *)
theory Zfs_Prelude
  imports "HOL-Library.Word" "HOL-Library.Monad_Syntax"
begin

unbundle bit_operations_syntax

section \<open>Shared vocabulary: machine types, Rust slices and results\<close>

text \<open>
  The types and the small library operations every component of the reader uses. Bytes and the
  fixed-width fields are words of their width; a \<^verbatim>\<open>usize\<close> is a \<^typ>\<open>nat\<close>
  (64-bit target) whose saturating and checked operations are written out below. A slice or a
  \<^verbatim>\<open>Vec<u8>\<close> is a list of bytes; a Rust \<^verbatim>\<open>String\<close> is the list of its UTF-8 bytes; a
  \<^verbatim>\<open>&'static str\<close> inside an error value is an Isabelle string. \<^verbatim>\<open>Result<T, E>\<close> is
  \<open>E + T\<close> with \<^term>\<open>Inl\<close> the error.
\<close>

type_synonym u8 = "8 word"
type_synonym u16 = "16 word"
type_synonym u32 = "32 word"
type_synonym u64 = "64 word"
type_synonym usize = nat
type_synonym bytes = "u8 list"
type_synonym rstr = "u8 list"

named_theorems slice_simps \<open>reading slices of concatenations, prefixes and suffixes\<close>
named_theorems res_simps \<open>case analysis of result and option chains\<close>

subsection \<open>usize arithmetic\<close>

definition usize_max :: usize where
  "usize_max = 2 ^ 64 - 1"

definition sat_add :: "usize \<Rightarrow> usize \<Rightarrow> usize" where
  "sat_add a b = min (a + b) usize_max"

definition sat_mul :: "usize \<Rightarrow> usize \<Rightarrow> usize" where
  "sat_mul a b = min (a * b) usize_max"

definition checked_add :: "usize \<Rightarrow> usize \<Rightarrow> usize option" where
  "checked_add a b = (if a + b \<le> usize_max then Some (a + b) else None)"

definition checked_mul :: "usize \<Rightarrow> usize \<Rightarrow> usize option" where
  "checked_mul a b = (if a * b \<le> usize_max then Some (a * b) else None)"

definition checked_sub :: "usize \<Rightarrow> usize \<Rightarrow> usize option" where
  "checked_sub a b = (if b \<le> a then Some (a - b) else None)"

text \<open>
  \<^verbatim>\<open>u64::saturating_add\<close>, and \<^verbatim>\<open>>>\<close> on a \<open>u64\<close> as a release build computes it: the
  shift amount is taken modulo 64 (a debug build panics when it is 64 or more).
\<close>

definition sat_add64 :: "u64 \<Rightarrow> u64 \<Rightarrow> u64" where
  "sat_add64 a b = (if unat a + unat b < 2 ^ 64 then a + b else - 1)"

definition shr64 :: "u64 \<Rightarrow> nat \<Rightarrow> u64" where
  "shr64 w n = drop_bit (n mod 64) w"

text \<open>\<^verbatim>\<open>usize::trailing_zeros\<close>: 64 for zero.\<close>

fun trailing_zeros :: "usize \<Rightarrow> nat" where
  "trailing_zeros n = (if n = 0 then 64 else if odd n then 0 else Suc (trailing_zeros (n div 2)))"

declare trailing_zeros.simps [simp del]

lemma sat_add_le [simp]: "sat_add a b \<le> a + b"
  by (simp add: sat_add_def)

lemma sat_add_exact: "a + b \<le> usize_max \<Longrightarrow> sat_add a b = a + b"
  by (simp add: sat_add_def)

lemma sat_mul_exact: "a * b \<le> usize_max \<Longrightarrow> sat_mul a b = a * b"
  by (simp add: sat_mul_def)

lemma checked_add_exact: "a + b \<le> usize_max \<Longrightarrow> checked_add a b = Some (a + b)"
  by (simp add: checked_add_def)

lemma checked_sub_Some [simp]: "checked_sub a b = Some c \<longleftrightarrow> b \<le> a \<and> c = a - b"
  by (auto simp: checked_sub_def)

lemma trailing_zeros_pow2: "trailing_zeros (2 ^ k) = k"
proof (induction k)
  case 0
  show ?case by (simp add: trailing_zeros.simps)
next
  case (Suc k)
  have "trailing_zeros (2 ^ Suc k) = Suc (trailing_zeros (2 ^ Suc k div 2))"
    by (subst trailing_zeros.simps) simp
  then show ?case using Suc by simp
qed

text \<open>Widening a word keeps its value.\<close>

lemma unat_ucast_up:
  "LENGTH('a::len) \<le> LENGTH('b::len) \<Longrightarrow> unat (ucast (v :: 'a word) :: 'b word) = unat v"
proof -
  assume le: "LENGTH('a) \<le> LENGTH('b)"
  have "unat v < 2 ^ LENGTH('a)" by (rule unsigned_less)
  also have "(2::nat) ^ LENGTH('a) \<le> 2 ^ LENGTH('b)" using le by (rule power_increasing) simp
  finally show ?thesis by (simp add: unsigned_ucast_eq take_bit_nat_eq_self)
qed

lemma ucast_up_inj:
  "LENGTH('a::len) \<le> LENGTH('b::len) \<Longrightarrow> ucast (v :: 'a word) = (ucast w :: 'b word) \<Longrightarrow> v = w"
  by (metis unat_ucast_up unsigned_word_eqI)

subsection \<open>Results\<close>

text \<open>\<^verbatim>\<open>?\<close> on a \<open>Result\<close>, \<^verbatim>\<open>ok_or\<close>, \<^verbatim>\<open>ok\<close> and \<^verbatim>\<open>map_err\<close>.\<close>

definition rbind :: "'e + 'a \<Rightarrow> ('a \<Rightarrow> 'e + 'b) \<Rightarrow> 'e + 'b" where
  "rbind m f = (case m of Inl e \<Rightarrow> Inl e | Inr x \<Rightarrow> f x)"

definition ok_or :: "'a option \<Rightarrow> 'e \<Rightarrow> 'e + 'a" where
  "ok_or m e = (case m of None \<Rightarrow> Inl e | Some x \<Rightarrow> Inr x)"

definition res_ok :: "'e + 'a \<Rightarrow> 'a option" where
  "res_ok m = (case m of Inl e \<Rightarrow> None | Inr x \<Rightarrow> Some x)"

definition map_err :: "('e \<Rightarrow> 'f) \<Rightarrow> 'e + 'a \<Rightarrow> 'f + 'a" where
  "map_err f m = (case m of Inl e \<Rightarrow> Inl (f e) | Inr x \<Rightarrow> Inr x)"

lemma rbind_simps [simp]:
  "rbind (Inl e) f = Inl e" "rbind (Inr x) f = f x"
  by (simp_all add: rbind_def)

lemma rbind_Inr_iff [res_simps]: "rbind m f = Inr y \<longleftrightarrow> (\<exists>x. m = Inr x \<and> f x = Inr y)"
  by (cases m) auto

lemma rbind_Inl_iff [res_simps]:
  "rbind m f = Inl e \<longleftrightarrow> m = Inl e \<or> (\<exists>x. m = Inr x \<and> f x = Inl e)"
  by (cases m) auto

lemma ok_or_simps [simp]: "ok_or None e = Inl e" "ok_or (Some x) e = Inr x"
  by (simp_all add: ok_or_def)

lemma ok_or_Inr_iff [res_simps]: "ok_or m e = Inr x \<longleftrightarrow> m = Some x"
  by (cases m) auto

lemma ok_or_Inl_iff [res_simps]: "ok_or m e = Inl e' \<longleftrightarrow> m = None \<and> e' = e"
  by (cases m) auto

lemma res_ok_simps [simp]: "res_ok (Inl e) = None" "res_ok (Inr x) = Some x"
  by (simp_all add: res_ok_def)

lemma res_ok_Some_iff [res_simps]: "res_ok m = Some x \<longleftrightarrow> m = Inr x"
  by (cases m) auto

lemma res_ok_None_iff [res_simps]: "res_ok m = None \<longleftrightarrow> (\<exists>e. m = Inl e)"
  by (cases m) auto

lemma map_err_simps [simp]: "map_err f (Inl e) = Inl (f e)" "map_err f (Inr x) = Inr x"
  by (simp_all add: map_err_def)

lemma map_err_Inr_iff [res_simps]: "map_err f m = Inr x \<longleftrightarrow> m = Inr x"
  by (cases m) auto

subsection \<open>Slices\<close>

text \<open>\<^verbatim>\<open>xs.get(a..b)\<close>, \<^verbatim>\<open>xs.get(i)\<close>, \<^verbatim>\<open>xs.get(a..)\<close>, \<^verbatim>\<open>Vec::resize\<close>, \<^verbatim>\<open>chunks_exact\<close>.\<close>

definition slice_get :: "'a list \<Rightarrow> usize \<Rightarrow> usize \<Rightarrow> 'a list option" where
  "slice_get xs a b = (if a \<le> b \<and> b \<le> length xs then Some (take (b - a) (drop a xs)) else None)"

definition nth_get :: "'a list \<Rightarrow> usize \<Rightarrow> 'a option" where
  "nth_get xs i = (if i < length xs then Some (xs ! i) else None)"

definition slice_from :: "'a list \<Rightarrow> usize \<Rightarrow> 'a list option" where
  "slice_from xs a = (if a \<le> length xs then Some (drop a xs) else None)"

definition resize :: "usize \<Rightarrow> 'a \<Rightarrow> 'a list \<Rightarrow> 'a list" where
  "resize n v xs = take n xs @ replicate (n - length xs) v"

fun chunks_exact :: "nat \<Rightarrow> 'a list \<Rightarrow> 'a list list" where
  "chunks_exact n xs =
     (if n = 0 \<or> length xs < n then [] else take n xs # chunks_exact n (drop n xs))"

declare chunks_exact.simps [simp del]

lemma slice_get_Some_iff:
  "slice_get xs a b = Some ys \<longleftrightarrow> a \<le> b \<and> b \<le> length xs \<and> ys = take (b - a) (drop a xs)"
  by (auto simp: slice_get_def)

lemma slice_get_length: "slice_get xs a b = Some ys \<Longrightarrow> length ys = b - a"
  by (auto simp: slice_get_Some_iff)

lemma slice_get_None: "length xs < b \<Longrightarrow> slice_get xs a b = None"
  by (simp add: slice_get_def)

lemma slice_get_append1 [slice_simps]:
  "b \<le> length xs \<Longrightarrow> slice_get (xs @ ys) a b = slice_get xs a b"
  by (auto simp: slice_get_def)

lemma slice_get_append2 [slice_simps]:
  "slice_get (xs @ ys) (length xs + a) (length xs + b) = slice_get ys a b"
  by (auto simp: slice_get_def)

lemma slice_get_prefix [slice_simps]:
  "length ys = n \<Longrightarrow> slice_get (xs @ ys @ zs) (length xs) (length xs + n) = Some ys"
  by (auto simp: slice_get_def)

lemma slice_get_take:
  "b \<le> n \<Longrightarrow> b \<le> length xs \<Longrightarrow> slice_get (take n xs) a b = slice_get xs a b"
  by (auto simp: slice_get_def drop_take min_def)

lemma slice_get_drop:
  "slice_get (drop n xs) a b = (if n \<le> length xs then slice_get xs (n + a) (n + b)
     else slice_get [] a b)"
  by (auto simp: slice_get_def add.commute)

lemma slice_get_slice:
  assumes "slice_get xs a b = Some ys" and "d \<le> length ys"
  shows "slice_get ys c d = slice_get xs (a + c) (a + d)"
proof -
  from assms(1) have "a \<le> b" "b \<le> length xs" and ys: "ys = take (b - a) (drop a xs)"
    by (auto simp: slice_get_Some_iff)
  with assms(2) have d: "a + d \<le> b" by simp
  then have "take (d - c) (drop c ys) = take (d - c) (drop (a + c) xs)"
    by (simp add: ys drop_take min_def add.commute)
  then show ?thesis
    using d \<open>b \<le> length xs\<close> assms(2) by (simp add: slice_get_def)
qed

text \<open>The bytes \<open>bs\<close> stand at offset \<open>off\<close>.\<close>

definition bytes_at :: "'a list \<Rightarrow> usize \<Rightarrow> 'a list \<Rightarrow> bool" where
  "bytes_at data off bs \<longleftrightarrow> off + length bs \<le> length data \<and> take (length bs) (drop off data) = bs"

lemma bytes_at_slice: "bytes_at data off bs \<Longrightarrow> slice_get data off (off + length bs) = Some bs"
  by (simp add: bytes_at_def slice_get_def)

lemma bytes_at_append:
  "bytes_at data off (xs @ ys) \<longleftrightarrow> bytes_at data off xs \<and> bytes_at data (off + length xs) ys"
proof -
  have "take (length xs + length ys) (drop off data) = xs @ ys \<longleftrightarrow>
      take (length xs) (drop off data) = xs \<and> take (length ys) (drop (off + length xs) data) = ys"
    if "off + length xs + length ys \<le> length data"
    using that by (auto simp: take_add add.commute append_eq_append_conv)
  then show ?thesis by (auto simp: bytes_at_def)
qed

lemma bytes_at_0: "bytes_at (xs @ ys) 0 xs"
  by (simp add: bytes_at_def)

lemma bytes_at_Nil: "bytes_at data off [] \<longleftrightarrow> off \<le> length data"
  by (simp add: bytes_at_def)

lemma bytes_at_le: "bytes_at data off bs \<Longrightarrow> off + length bs \<le> length data"
  by (simp add: bytes_at_def)

lemma nth_get_Some_iff: "nth_get xs i = Some x \<longleftrightarrow> i < length xs \<and> x = xs ! i"
  by (auto simp: nth_get_def)

lemma length_resize [simp]: "length (resize n v xs) = n"
  by (simp add: resize_def)

lemma resize_same: "length xs = n \<Longrightarrow> resize n v xs = xs"
  by (simp add: resize_def)

lemma chunks_exact_lengths: "list_all (\<lambda>c. length c = n) (chunks_exact n xs)"
proof (induction n xs rule: chunks_exact.induct)
  case (1 n xs)
  then show ?case by (subst chunks_exact.simps) auto
qed

subsection \<open>Searching association lists\<close>

text \<open>
  \<^verbatim>\<open>iter().find(|(n, _)| n == name).map(|(_, v)| v)\<close>, the one lookup idiom of the reader: the
  first entry with the name wins.
\<close>

definition find_name :: "'k \<Rightarrow> ('k \<times> 'v) list \<Rightarrow> 'v option" where
  "find_name k xs = map_option snd (List.find (\<lambda>p. fst p = k) xs)"

lemma find_name_simps [simp]:
  "find_name k [] = None"
  "find_name k ((n, v) # xs) = (if n = k then Some v else find_name k xs)"
  by (simp_all add: find_name_def)

lemma find_name_map_of: "find_name k xs = map_of xs k"
  by (induction xs) auto

lemma find_name_None_iff: "find_name k xs = None \<longleftrightarrow> k \<notin> fst ` set xs"
  by (simp add: find_name_map_of map_of_eq_None_iff)

lemma find_name_SomeD: "find_name k xs = Some v \<Longrightarrow> (k, v) \<in> set xs"
  by (induction xs) (auto split: if_splits)

lemma find_name_append:
  "find_name k (xs @ ys) = (case find_name k xs of None \<Rightarrow> find_name k ys | Some v \<Rightarrow> Some v)"
  by (induction xs) auto

lemma find_name_map_val:
  "find_name k (map (\<lambda>(n, v). (n, f v)) xs) = map_option f (find_name k xs)"
  by (induction xs) auto

text \<open>
  The contract of a by-name lookup over a decoded table: the first entry of the name is the answer.
\<close>

locale name_table =
  fixes entries :: "'s \<Rightarrow> ('k \<times> 'v) list" and lookup :: "'s \<Rightarrow> 'k \<Rightarrow> 'v option"
  assumes lookup_entries: "lookup s k = find_name k (entries s)"
begin

lemma lookup_None_iff: "lookup s k = None \<longleftrightarrow> k \<notin> fst ` set (entries s)"
  by (simp add: lookup_entries find_name_None_iff)

lemma lookup_entry: "lookup s k = Some v \<Longrightarrow> (k, v) \<in> set (entries s)"
  by (simp add: lookup_entries find_name_SomeD)

lemma lookup_found: "(k, v) \<in> set (entries s) \<Longrightarrow> \<exists>w. lookup s k = Some w"
  using lookup_None_iff [of s k] by (cases "lookup s k") force+

lemma lookup_unique:
  "distinct (map fst (entries s)) \<Longrightarrow> lookup s k = Some v \<longleftrightarrow> (k, v) \<in> set (entries s)"
  by (simp add: lookup_entries find_name_map_of)

lemma lookup_extend:
  "entries t = entries s @ xs \<Longrightarrow> lookup s k = Some v \<Longrightarrow> lookup t k = Some v"
  by (simp add: lookup_entries find_name_append)

end

subsection \<open>String literals\<close>

text \<open>The bytes of a string literal of the source.\<close>

definition lit :: "string \<Rightarrow> rstr" where
  "lit s = map of_char s"

lemma length_lit [simp]: "length (lit s) = length s"
  by (simp add: lit_def)

end
