(* ===== verification/Zfs_Text.thy ===== *)
theory Zfs_Text
  imports Zfs_Prelude
begin

section \<open>The standard library's text functions the reader uses\<close>

text \<open>
  \<^verbatim>\<open>String::from_utf8_lossy\<close>, \<^verbatim>\<open>str::parse::<u64>\<close>, \<^verbatim>\<open>str::split\<close> and the decimal and
  hexadecimal forms of \<^verbatim>\<open>format!\<close>, on strings as their UTF-8 bytes. They are definitions of
  the language's library, not of the repository, so the manifest maps no line to them.
\<close>

subsection \<open>from_utf8_lossy\<close>

text \<open>
  One step of the decoder at a non-empty input: whether the bytes there start a well-formed
  sequence, and how many bytes it (or the maximal ill-formed prefix) takes. A byte past the end
  reads as 0, which continues nothing.
\<close>

definition is_cont :: "u8 \<Rightarrow> bool" where
  "is_cont b = (128 \<le> b \<and> b < 192)"

definition byte_or_0 :: "bytes \<Rightarrow> nat \<Rightarrow> u8" where
  "byte_or_0 xs i = (if i < length xs then xs ! i else 0)"

definition second_ok :: "u8 \<Rightarrow> u8 \<Rightarrow> bool" where
  "second_ok b c =
     (if b = 0xE0 then 0xA0 \<le> c \<and> c < 0xC0
      else if b = 0xED then 0x80 \<le> c \<and> c < 0xA0
      else if b = 0xF0 then 0x90 \<le> c \<and> c < 0xC0
      else if b = 0xF4 then 0x80 \<le> c \<and> c < 0x90
      else is_cont c)"

definition utf8_step :: "bytes \<Rightarrow> bool \<times> nat" where
  "utf8_step xs =
     (let b = byte_or_0 xs 0; c = byte_or_0 xs 1; d = byte_or_0 xs 2; e = byte_or_0 xs 3 in
      if b < 0x80 then (True, 1)
      else if 0xC2 \<le> b \<and> b < 0xE0 then (if is_cont c then (True, 2) else (False, 1))
      else if 0xE0 \<le> b \<and> b < 0xF0 then
        (if \<not> second_ok b c then (False, 1) else if is_cont d then (True, 3) else (False, 2))
      else if 0xF0 \<le> b \<and> b < 0xF5 then
        (if \<not> second_ok b c then (False, 1) else if \<not> is_cont d then (False, 2)
         else if is_cont e then (True, 4) else (False, 3))
      else (False, 1))"

lemma utf8_step_pos: "0 < snd (utf8_step xs)"
  by (simp add: utf8_step_def Let_def)

definition replacement_char :: rstr where
  "replacement_char = [0xEF, 0xBF, 0xBD]"

function from_utf8_lossy :: "bytes \<Rightarrow> rstr" where
  "from_utf8_lossy xs =
     (if xs = [] then []
      else (if fst (utf8_step xs) then take (snd (utf8_step xs)) xs else replacement_char)
           @ from_utf8_lossy (drop (snd (utf8_step xs)) xs))"
  by pat_completeness auto
termination
  by (relation "measure length") (auto simp: utf8_step_pos)

declare from_utf8_lossy.simps [simp del]

text \<open>Well-formed UTF-8: every step of the decoder succeeds.\<close>

function valid_utf8 :: "bytes \<Rightarrow> bool" where
  "valid_utf8 xs =
     (if xs = [] then True
      else fst (utf8_step xs) \<and> valid_utf8 (drop (snd (utf8_step xs)) xs))"
  by pat_completeness auto
termination
  by (relation "measure length") (auto simp: utf8_step_pos)

declare valid_utf8.simps [simp del]

lemma from_utf8_lossy_Nil [simp]: "from_utf8_lossy [] = []"
  by (simp add: from_utf8_lossy.simps)

lemma from_utf8_lossy_valid: "valid_utf8 xs \<Longrightarrow> from_utf8_lossy xs = xs"
proof (induction xs rule: valid_utf8.induct)
  case (1 xs)
  show ?case
  proof (cases "xs = []")
    case False
    with "1.prems" have "fst (utf8_step xs)" "valid_utf8 (drop (snd (utf8_step xs)) xs)"
      by (simp_all add: valid_utf8.simps [of xs])
    with False "1.IH" show ?thesis by (simp add: from_utf8_lossy.simps [of xs])
  qed simp
qed

lemma from_utf8_lossy_eq_Nil [simp]: "from_utf8_lossy xs = [] \<longleftrightarrow> xs = []"
  using utf8_step_pos [of xs]
  by (subst from_utf8_lossy.simps) (auto simp: replacement_char_def)

lemma utf8_step_ascii: "b < 0x80 \<Longrightarrow> utf8_step (b # bs) = (True, 1)"
  by (simp add: utf8_step_def byte_or_0_def)

lemma valid_utf8_ascii: "list_all (\<lambda>b. b < 0x80) xs \<Longrightarrow> valid_utf8 xs"
proof (induction xs)
  case Nil
  show ?case by (simp add: valid_utf8.simps)
next
  case (Cons b bs)
  then show ?case by (simp add: valid_utf8.simps [of "b # bs"] utf8_step_ascii)
qed

text \<open>What the decoder returns is always valid UTF-8, of at most three bytes for each byte read.\<close>

text \<open>The decoder's choice over the outcome of its tests, with the bytes it looked at.\<close>

definition utf8_choice :: "bool \<Rightarrow> bool \<Rightarrow> bool \<Rightarrow> bool \<Rightarrow> bool \<Rightarrow> bool \<Rightarrow> bool \<Rightarrow> bool \<Rightarrow> bool \<times> nat" where
  "utf8_choice ascii two three four c1 c2 d e =
     (if ascii then (True, 1)
      else if two then (if c1 then (True, 2) else (False, 1))
      else if three then (if \<not> c2 then (False, 1) else if d then (True, 3) else (False, 2))
      else if four then
        (if \<not> c2 then (False, 1) else if \<not> d then (False, 2) else if e then (True, 4) else (False, 3))
      else (False, 1))"

lemma utf8_step_choice:
  "utf8_step xs = (let b = byte_or_0 xs 0; c = byte_or_0 xs 1; d = byte_or_0 xs 2; e = byte_or_0 xs 3 in
     utf8_choice (b < 0x80) (0xC2 \<le> b \<and> b < 0xE0) (0xE0 \<le> b \<and> b < 0xF0) (0xF0 \<le> b \<and> b < 0xF5)
       (is_cont c) (second_ok b c) (is_cont d) (is_cont e))"
  by (simp only: utf8_step_def utf8_choice_def Let_def)

lemma utf8_choice_well_formed:
  assumes "fst (utf8_choice A B C D c1 c2 d e)"
  shows "snd (utf8_choice A B C D c1 c2 d e) = 1 \<and> A \<or>
    snd (utf8_choice A B C D c1 c2 d e) = 2 \<and> c1 \<and> \<not> A \<and> B \<or>
    snd (utf8_choice A B C D c1 c2 d e) = 3 \<and> d \<and> c2 \<and> \<not> A \<and> \<not> B \<and> C \<or>
    snd (utf8_choice A B C D c1 c2 d e) = 4 \<and> e \<and> d \<and> c2 \<and> \<not> A \<and> \<not> B \<and> \<not> C \<and> D"
  using assms by (simp add: utf8_choice_def split: if_split_asm)

lemma utf8_choice_prefix:
  assumes "fst (utf8_choice A B C D c1 c2 d e)" and "k = snd (utf8_choice A B C D c1 c2 d e)"
    and "2 \<le> k \<Longrightarrow> c1' = c1 \<and> c2' = c2" and "3 \<le> k \<Longrightarrow> d' = d" and "4 \<le> k \<Longrightarrow> e' = e"
  shows "utf8_choice A B C D c1' c2' d' e' = utf8_choice A B C D c1 c2 d e"
  using utf8_choice_well_formed [OF assms(1)] assms(2-5)
  by (elim disjE) (simp_all add: utf8_choice_def)

lemma utf8_step_well_formed:
  assumes "fst (utf8_step xs)" and "xs \<noteq> []"
  shows "snd (utf8_step xs) \<le> length xs" "utf8_step (take (snd (utf8_step xs)) xs @ ys) = utf8_step xs"
proof -
  have past: "i < length xs" if "is_cont (byte_or_0 xs i)" for i
  proof (rule ccontr)
    assume "\<not> i < length xs"
    then have "byte_or_0 xs i = 0" by (simp add: byte_or_0_def)
    with that show False by (simp add: is_cont_def)
  qed
  have "0 < length xs" using assms(2) by simp
  then show le: "snd (utf8_step xs) \<le> length xs"
    using utf8_choice_well_formed [OF assms(1) [unfolded utf8_step_choice Let_def]] past [of 1] past [of 2] past [of 3]
    unfolding utf8_step_choice Let_def by linarith
  have same: "byte_or_0 (take k xs @ ys) i = byte_or_0 xs i" if "i < k" "k \<le> length xs" for i k
    using that by (simp add: byte_or_0_def nth_append)
  let ?k = "snd (utf8_step xs)"
  let ?zs = "take ?k xs @ ys"
  have at: "byte_or_0 ?zs 0 = byte_or_0 xs 0" using same [OF utf8_step_pos le] .
  have nxt: "2 \<le> ?k \<Longrightarrow> byte_or_0 ?zs 1 = byte_or_0 xs 1" "3 \<le> ?k \<Longrightarrow> byte_or_0 ?zs 2 = byte_or_0 xs 2"
      "4 \<le> ?k \<Longrightarrow> byte_or_0 ?zs 3 = byte_or_0 xs 3"
    using same [of _ ?k] le by simp_all
  show "utf8_step ?zs = utf8_step xs"
    unfolding utf8_step_choice [of ?zs] Let_def at
    by (subst utf8_step_choice [of xs], unfold Let_def,
        rule utf8_choice_prefix [where k = ?k, OF assms(1) [unfolded utf8_step_choice Let_def]])
      (simp_all only: utf8_step_choice [of xs, unfolded Let_def, symmetric] nxt)
qed

lemma valid_utf8_step:
  "fst (utf8_step s) \<Longrightarrow> s \<noteq> [] \<Longrightarrow> valid_utf8 ys \<Longrightarrow> valid_utf8 (take (snd (utf8_step s)) s @ ys)"
  using utf8_step_well_formed(1) [of s] utf8_step_well_formed(2) [of s ys]
  by (subst valid_utf8.simps) simp

lemma from_utf8_lossy_is_valid: "valid_utf8 (from_utf8_lossy xs)"
proof (induction xs rule: from_utf8_lossy.induct)
  case (1 xs)
  let ?k = "snd (utf8_step xs)"
  have repl: "utf8_step replacement_char = (True, 3)" "replacement_char \<noteq> []"
    by (simp_all add: utf8_step_def replacement_char_def byte_or_0_def second_ok_def is_cont_def)
  show ?case
  proof (cases "xs = []")
    case False
    then have ih: "valid_utf8 (from_utf8_lossy (drop ?k xs))" by (rule "1.IH")
    then have "valid_utf8 (replacement_char @ from_utf8_lossy (drop ?k xs))"
      using valid_utf8_step [of replacement_char] repl by (simp add: replacement_char_def)
    moreover have "fst (utf8_step xs) \<Longrightarrow> valid_utf8 (take ?k xs @ from_utf8_lossy (drop ?k xs))"
      using valid_utf8_step ih False by blast
    ultimately show ?thesis using False by (subst from_utf8_lossy.simps) simp
  qed (simp add: valid_utf8.simps)
qed

lemma length_from_utf8_lossy: "length (from_utf8_lossy xs) \<le> 3 * length xs"
proof (induction xs rule: from_utf8_lossy.induct)
  case (1 xs)
  show ?case
  proof (cases "xs = []")
    case False
    then have "length (from_utf8_lossy (drop (snd (utf8_step xs)) xs)) \<le> 3 * (length xs - snd (utf8_step xs))"
      using "1.IH" by simp
    moreover have "1 \<le> length xs" using False by (simp add: Suc_le_eq)
    ultimately show ?thesis
      using utf8_step_pos [of xs] False
      by (subst from_utf8_lossy.simps) (auto simp: replacement_char_def min_def)
  qed simp
qed

subsection \<open>Decimal and hexadecimal numbers\<close>

fun dec_digits :: "nat \<Rightarrow> rstr" where
  "dec_digits n = (if n < 10 then [of_nat (48 + n)] else dec_digits (n div 10) @ [of_nat (48 + n mod 10)])"

declare dec_digits.simps [simp del]

definition hex_digit :: "nat \<Rightarrow> u8" where
  "hex_digit d = (if d < 10 then of_nat (48 + d) else of_nat (87 + d))"

text \<open>Lower-case hexadecimal, zero-padded to \<open>k\<close> digits (\<^verbatim>\<open>{:016x}\<close> is \<open>k = 16\<close>).\<close>

definition hex_fixed :: "nat \<Rightarrow> nat \<Rightarrow> rstr" where
  "hex_fixed k n = map (\<lambda>i. hex_digit (n div 16 ^ i mod 16)) (rev [0..<k])"

text \<open>
  \<^verbatim>\<open>str::parse::<u64>\<close>: an optional \<open>+\<close>, then at least one decimal digit; a value of
  \<open>2 ^ 64\<close> or more is an error.
\<close>

fun parse_digits :: "nat \<Rightarrow> rstr \<Rightarrow> nat option" where
  "parse_digits acc [] = Some acc"
| "parse_digits acc (b # bs) =
     (if 48 \<le> b \<and> b \<le> 57 then
        (let acc' = 10 * acc + (unat b - 48) in
         if acc' < 2 ^ 64 then parse_digits acc' bs else None)
      else None)"

definition parse_u64 :: "rstr \<Rightarrow> u64 option" where
  "parse_u64 s =
     (let ds = (case s of b # bs \<Rightarrow> if b = 43 \<and> bs \<noteq> [] then bs else s | [] \<Rightarrow> s) in
      if ds = [] then None else map_option of_nat (parse_digits 0 ds))"

lemma parse_digits_append:
  "parse_digits acc (xs @ ys) = (case parse_digits acc xs of None \<Rightarrow> None | Some a \<Rightarrow> parse_digits a ys)"
  by (induction xs arbitrary: acc) (auto simp: Let_def)

lemma unat_ascii_digit: "d < 10 \<Longrightarrow> unat (of_nat (48 + d) :: u8) = 48 + d"
  by (subst unat_of_nat) simp

lemma parse_digit:
  assumes "d < 10" and "10 * acc + d < 2 ^ 64"
  shows "parse_digits acc [of_nat (48 + d)] = Some (10 * acc + d)"
proof -
  have "48 \<le> (of_nat (48 + d) :: u8)" "(of_nat (48 + d) :: u8) \<le> 57"
    using assms(1) by (simp_all add: word_le_nat_alt unat_ascii_digit [OF assms(1)] del: of_nat_add)
  then show ?thesis
    using assms by (simp add: unat_ascii_digit Let_def del: of_nat_add)
qed

lemma parse_dec_digits: "n < 2 ^ 64 \<Longrightarrow> parse_digits 0 (dec_digits n) = Some n"
proof (induction n rule: dec_digits.induct)
  case (1 n)
  show ?case
  proof (cases "n < 10")
    case True
    then show ?thesis using parse_digit [of n 0] by (subst dec_digits.simps) simp
  next
    case False
    have "n div 10 < 2 ^ 64" using "1.prems" by simp
    with False "1.IH" have "parse_digits 0 (dec_digits (n div 10)) = Some (n div 10)" by simp
    moreover have "parse_digits (n div 10) [of_nat (48 + n mod 10)] = Some n"
      using parse_digit [of "n mod 10" "n div 10"] "1.prems" by simp
    ultimately show ?thesis
      using False by (subst dec_digits.simps) (simp add: parse_digits_append del: of_nat_add)
  qed
qed

lemma dec_digits_neq_Nil [simp]: "dec_digits n \<noteq> []"
  by (subst dec_digits.simps) simp

lemma hd_dec_digits: "48 \<le> hd (dec_digits n) \<and> hd (dec_digits n) \<le> 57"
proof (induction n rule: dec_digits.induct)
  case (1 n)
  then show ?case
    by (subst (1 2) dec_digits.simps)
      (auto simp: word_le_nat_alt unat_ascii_digit simp del: of_nat_add)
qed

lemma parse_u64_dec: "parse_u64 (dec_digits (unat v)) = Some v"
proof -
  obtain b bs where bs: "dec_digits (unat v) = b # bs" by (cases "dec_digits (unat v)") auto
  with hd_dec_digits [of "unat v"] have "b \<noteq> 43" by auto
  have "unat v < 2 ^ LENGTH(64)" by (rule unsigned_less)
  then have "parse_digits 0 (b # bs) = Some (unat v)"
    using parse_dec_digits [of "unat v"] by (simp add: bs del: parse_digits.simps)
  with \<open>b \<noteq> 43\<close> show ?thesis
    by (simp add: parse_u64_def bs del: parse_digits.simps)
qed

lemma length_hex_fixed [simp]: "length (hex_fixed k n) = k"
  by (simp add: hex_fixed_def)

lemma hex_digit_inj: "a < 16 \<Longrightarrow> b < 16 \<Longrightarrow> hex_digit a = hex_digit b \<Longrightarrow> a = b"
proof -
  assume ab: "a < 16" "b < 16" and eq: "hex_digit a = hex_digit b"
  have val: "unat (hex_digit d) = (if d < 10 then 48 + d else 87 + d)" if "d < 16" for d
    using that by (auto simp: hex_digit_def unat_of_nat simp del: of_nat_add)
  from eq have "unat (hex_digit a) = unat (hex_digit b)" by simp
  with ab show ?thesis by (auto simp: val split: if_splits)
qed

lemma hex_fixed_inj:
  assumes "m < 16 ^ k" and "n < 16 ^ k" and "hex_fixed k m = hex_fixed k n"
  shows "m = n"
  using assms
proof (induction k arbitrary: m n)
  case 0
  then show ?case by simp
next
  case (Suc k)
  have "rev [0..<Suc k] = map Suc (rev [0..<k]) @ [0]"
    by (simp add: rev_map [symmetric] map_Suc_upt upt_conv_Cons del: upt_Suc)
  then have step: "hex_fixed (Suc k) p = hex_fixed k (p div 16) @ [hex_digit (p mod 16)]" for p
    by (simp add: hex_fixed_def div_mult2_eq del: upt_Suc)
  from Suc.prems(3) have "hex_fixed k (m div 16) = hex_fixed k (n div 16)"
    and "hex_digit (m mod 16) = hex_digit (n mod 16)"
    by (simp_all add: step)
  moreover have "m div 16 < 16 ^ k" "n div 16 < 16 ^ k"
    using Suc.prems(1,2) by (simp_all add: less_mult_imp_div_less mult.commute)
  ultimately have "m div 16 = n div 16" "m mod 16 = n mod 16"
    using Suc.IH [of "m div 16" "n div 16"] hex_digit_inj [of "m mod 16" "n mod 16"] by simp_all
  then show ?case by (metis div_mult_mod_eq)
qed

subsection \<open>str::split on one separator byte\<close>

fun split_on :: "u8 \<Rightarrow> rstr \<Rightarrow> rstr list" where
  "split_on sep [] = [[]]"
| "split_on sep (b # bs) =
     (if b = sep then [] # split_on sep bs
      else (case split_on sep bs of [] \<Rightarrow> [[b]] | w # ws \<Rightarrow> (b # w) # ws))"

lemma split_on_neq_Nil [simp]: "split_on sep s \<noteq> []"
  by (induction s) (auto split: list.splits)

lemma split_on_no_sep: "sep \<notin> set s \<Longrightarrow> split_on sep s = [s]"
  by (induction s) auto

lemma split_on_append: "split_on sep (xs @ sep # ys) = split_on sep xs @ split_on sep ys"
  by (induction xs) (auto split: list.splits)

end
