(* ===== verification/Zfs_Bytes.thy ===== *)
theory Zfs_Bytes
  imports Zfs_Prelude
begin

section \<open>Bounds-checked, endian-adaptive readers (core/src/bytes.rs)\<close>

text \<open>
  The readers every parser goes through, one definition per function of \<^verbatim>\<open>bytes.rs\<close>. The
  locale \<open>byte_reader\<close> is their contract (a read depends on the addressed bytes alone and is 0
  when they are not all inside the buffer); \<open>byte_codec\<close> adds an encoder. Both are interpreted
  on all six little- and big-endian readers and on the endian-selected reader.
\<close>

datatype endian = Little | Big

definition endian_default :: endian where
  "endian_default = Little"

instantiation endian :: default
begin

definition default_endian :: endian where
  "default_endian = endian_default"

instance ..

end

subsection \<open>Integers from and to bytes\<close>

text \<open>\<^verbatim>\<open>from_le_bytes\<close>, \<^verbatim>\<open>from_be_bytes\<close>, \<^verbatim>\<open>to_le_bytes\<close>, \<^verbatim>\<open>to_be_bytes\<close> of the standard library.\<close>

fun le_nat :: "bytes \<Rightarrow> nat" where
  "le_nat [] = 0"
| "le_nat (b # bs) = unat b + 256 * le_nat bs"

definition from_le_bytes :: "bytes \<Rightarrow> 'a::len word" where
  "from_le_bytes bs = of_nat (le_nat bs)"

definition from_be_bytes :: "bytes \<Rightarrow> 'a::len word" where
  "from_be_bytes bs = of_nat (le_nat (rev bs))"

definition to_le_bytes :: "nat \<Rightarrow> 'a::len word \<Rightarrow> bytes" where
  "to_le_bytes n w = map (\<lambda>i. of_nat (unat w div 256 ^ i)) [0..<n]"

definition to_be_bytes :: "nat \<Rightarrow> 'a::len word \<Rightarrow> bytes" where
  "to_be_bytes n w = rev (to_le_bytes n w)"

lemma le_nat_append: "le_nat (xs @ ys) = le_nat xs + 256 ^ length xs * le_nat ys"
  by (induction xs) (auto simp: algebra_simps)

lemma le_nat_zeros [simp]: "le_nat (replicate n 0) = 0"
  by (induction n) auto

lemma byte_bound: "unat (b :: u8) < 256"
proof -
  have "unat b < 2 ^ LENGTH(8)" by (rule unsigned_less)
  then show ?thesis by simp
qed

lemma le_nat_bound: "le_nat bs < 256 ^ length bs"
proof (induction bs)
  case Nil
  show ?case by simp
next
  case (Cons b bs)
  have "unat b < 256" by (rule byte_bound)
  then have "unat b + 256 * le_nat bs < 256 * Suc (le_nat bs)" by simp
  also have "\<dots> \<le> 256 * 256 ^ length bs" using Cons by (intro mult_le_mono2) simp
  finally show ?case by simp
qed

lemma length_to_le_bytes [simp]: "length (to_le_bytes n w) = n"
  by (simp add: to_le_bytes_def)

lemma length_to_be_bytes [simp]: "length (to_be_bytes n w) = n"
  by (simp add: to_be_bytes_def)

lemma le_nat_to_le_bytes: "le_nat (to_le_bytes n w) = unat w mod 256 ^ n"
proof (induction n)
  case 0
  show ?case by (simp add: to_le_bytes_def)
next
  case (Suc n)
  have split: "to_le_bytes (Suc n) w = to_le_bytes n w @ [of_nat (unat w div 256 ^ n)]"
    by (simp add: to_le_bytes_def)
  have byte: "unat (of_nat m :: u8) = m mod 256" for m
    by (simp add: unat_of_nat)
  have "unat w mod 256 ^ Suc n = 256 ^ n * (unat w div 256 ^ n mod 256) + unat w mod 256 ^ n"
    by (metis mod_mult2_eq power_Suc2)
  then show ?case
    by (simp add: split le_nat_append byte Suc.IH)
qed

lemma from_le_to_le_bytes:
  "LENGTH('a::len) \<le> 8 * n \<Longrightarrow> from_le_bytes (to_le_bytes n (w :: 'a word)) = w"
proof -
  assume len: "LENGTH('a) \<le> 8 * n"
  have "unat w < 2 ^ LENGTH('a)" by simp
  also have "(2::nat) ^ LENGTH('a) \<le> 2 ^ (8 * n)" using len by (rule power_increasing) simp
  also have "(2::nat) ^ (8 * n) = 256 ^ n" by (simp add: power_mult)
  finally have "unat w mod 256 ^ n = unat w" by simp
  then show ?thesis by (simp add: from_le_bytes_def le_nat_to_le_bytes)
qed

lemma from_be_to_be_bytes:
  "LENGTH('a::len) \<le> 8 * n \<Longrightarrow> from_be_bytes (to_be_bytes n (w :: 'a word)) = w"
  using from_le_to_le_bytes [of n w] by (simp add: from_be_bytes_def from_le_bytes_def to_be_bytes_def)

lemma le_nat_inj: "length xs = length ys \<Longrightarrow> le_nat xs = le_nat ys \<Longrightarrow> xs = ys"
proof (induction xs ys rule: list_induct2)
  case Nil
  show ?case by simp
next
  case (Cons x xs y ys)
  have bounds: "unat x < 256" "unat y < 256" by (rule byte_bound)+
  from Cons.prems have eq: "unat x + 256 * le_nat xs = unat y + 256 * le_nat ys" by simp
  then have "(unat x + 256 * le_nat xs) mod 256 = (unat y + 256 * le_nat ys) mod 256" by simp
  with bounds have "unat x = unat y" by simp
  with eq Cons.IH show ?case by (simp add: unsigned_word_eqI)
qed

lemma to_le_from_le_bytes:
  assumes "LENGTH('a::len) = 8 * n" and "length bs = n"
  shows "to_le_bytes n (from_le_bytes bs :: 'a word) = bs"
proof (rule le_nat_inj)
  have "le_nat bs < 256 ^ n" using le_nat_bound [of bs] assms(2) by simp
  also have "(256::nat) ^ n = 2 ^ LENGTH('a)" by (simp add: assms(1) power_mult)
  finally have "unat (from_le_bytes bs :: 'a word) = le_nat bs"
    by (simp add: from_le_bytes_def unat_of_nat)
  then show "le_nat (to_le_bytes n (from_le_bytes bs :: 'a word)) = le_nat bs"
    using le_nat_bound [of bs] assms(2) by (simp add: le_nat_to_le_bytes)
qed (simp add: assms(2))

lemma to_be_from_be_bytes:
  "LENGTH('a::len) = 8 * n \<Longrightarrow> length bs = n \<Longrightarrow> to_be_bytes n (from_be_bytes bs :: 'a word) = bs"
  using to_le_from_le_bytes [of n "rev bs", where 'a = 'a]
  by (simp add: from_be_bytes_def from_le_bytes_def to_be_bytes_def)

subsection \<open>The readers\<close>

text \<open>
  Each reader copies the addressed range into a zeroed buffer when the whole range is inside the
  data, and decodes that buffer.
\<close>

definition read_buf :: "usize \<Rightarrow> bytes \<Rightarrow> usize \<Rightarrow> bytes" where
  "read_buf n data off =
     (case slice_get data off (off + n) of Some s \<Rightarrow> s | None \<Rightarrow> replicate n 0)"

definition le_u16 :: "bytes \<Rightarrow> usize \<Rightarrow> u16" where
  "le_u16 data off = from_le_bytes (read_buf 2 data off)"

definition le_u32 :: "bytes \<Rightarrow> usize \<Rightarrow> u32" where
  "le_u32 data off = from_le_bytes (read_buf 4 data off)"

definition le_u64 :: "bytes \<Rightarrow> usize \<Rightarrow> u64" where
  "le_u64 data off = from_le_bytes (read_buf 8 data off)"

definition be_u16 :: "bytes \<Rightarrow> usize \<Rightarrow> u16" where
  "be_u16 data off = from_be_bytes (read_buf 2 data off)"

definition be_u32 :: "bytes \<Rightarrow> usize \<Rightarrow> u32" where
  "be_u32 data off = from_be_bytes (read_buf 4 data off)"

definition be_u64 :: "bytes \<Rightarrow> usize \<Rightarrow> u64" where
  "be_u64 data off = from_be_bytes (read_buf 8 data off)"

definition u8_at :: "bytes \<Rightarrow> usize \<Rightarrow> u8" where
  "u8_at data off = (case nth_get data off of Some b \<Rightarrow> b | None \<Rightarrow> 0)"

text \<open>The XDR readers: \<^verbatim>\<open>xdr_i32\<close> reads the word as two's complement.\<close>

definition xdr_i32 :: "bytes \<Rightarrow> usize \<Rightarrow> int" where
  "xdr_i32 data off = sint (be_u32 data off)"

definition xdr_u64 :: "bytes \<Rightarrow> usize \<Rightarrow> u64" where
  "xdr_u64 data off = be_u64 data off"

record reader =
  rd_endian :: endian

definition reader_new :: "endian \<Rightarrow> reader" where
  "reader_new e = \<lparr>rd_endian = e\<rparr>"

definition rd_u16 :: "reader \<Rightarrow> bytes \<Rightarrow> usize \<Rightarrow> u16" where
  "rd_u16 r data off = (case rd_endian r of Little \<Rightarrow> le_u16 data off | Big \<Rightarrow> be_u16 data off)"

definition rd_u32 :: "reader \<Rightarrow> bytes \<Rightarrow> usize \<Rightarrow> u32" where
  "rd_u32 r data off = (case rd_endian r of Little \<Rightarrow> le_u32 data off | Big \<Rightarrow> be_u32 data off)"

definition rd_u64 :: "reader \<Rightarrow> bytes \<Rightarrow> usize \<Rightarrow> u64" where
  "rd_u64 r data off = (case rd_endian r of Little \<Rightarrow> le_u64 data off | Big \<Rightarrow> be_u64 data off)"

lemma length_read_buf [simp]: "length (read_buf n data off) = n"
  by (auto simp: read_buf_def slice_get_Some_iff split: option.splits)

subsection \<open>The contract of a reader\<close>

locale byte_reader =
  fixes rd :: "bytes \<Rightarrow> usize \<Rightarrow> 'a::len word"
    and width :: usize
    and dec :: "bytes \<Rightarrow> 'a word"
  assumes rd_def': "rd data off = dec (read_buf width data off)"
    and dec_zeros: "dec (replicate width 0) = 0"
begin

lemma out_of_range: "length data < off + width \<Longrightarrow> rd data off = 0"
  by (simp add: rd_def' read_buf_def slice_get_None dec_zeros)

lemma in_range:
  "off + width \<le> length data \<Longrightarrow> rd data off = dec (take width (drop off data))"
  by (simp add: rd_def' read_buf_def slice_get_def)

lemma append_left: "off + width \<le> length xs \<Longrightarrow> rd (xs @ ys) off = rd xs off"
  by (simp add: rd_def' read_buf_def slice_simps)

lemma append_right: "rd (xs @ ys) (length xs + off) = rd ys off"
  using slice_get_append2 [of xs ys off "off + width"]
  by (simp add: rd_def' read_buf_def add.assoc)

lemma of_slice:
  assumes "slice_get data a b = Some ys" and "off + width \<le> length ys"
  shows "rd ys off = rd data (a + off)"
  using slice_get_slice [OF assms, of off] by (simp add: rd_def' read_buf_def add.assoc)

lemma of_take: "off + width \<le> n \<Longrightarrow> off + width \<le> length xs \<Longrightarrow> rd (take n xs) off = rd xs off"
  by (simp add: rd_def' read_buf_def slice_get_take)

lemma zeros: "rd (replicate n 0) off = 0"
  by (cases "off + width \<le> n") (simp_all add: in_range dec_zeros out_of_range)

lemma empty: "rd [] off = 0"
  using zeros [of 0] by simp

end

locale byte_codec = byte_reader rd width dec
  for rd :: "bytes \<Rightarrow> usize \<Rightarrow> 'a::len word" and width dec +
  fixes enc :: "'a word \<Rightarrow> bytes"
  assumes dec_enc: "dec (enc w) = w"
    and length_enc: "length (enc w) = width"
    and enc_dec: "length bs = width \<Longrightarrow> enc (dec bs) = bs"
begin

lemma dec_inj: "length xs = width \<Longrightarrow> length ys = width \<Longrightarrow> dec xs = dec ys \<Longrightarrow> xs = ys"
  by (metis enc_dec)

lemma read_enc: "rd (enc w @ ys) 0 = w"
  by (simp add: in_range length_enc dec_enc)

lemma read_enc_at: "rd (xs @ enc w @ ys) (length xs) = w"
  using append_right [of xs "enc w @ ys" 0] read_enc by simp

lemma read_enc_at': "off = length xs \<Longrightarrow> rd (xs @ enc w @ ys) off = w"
  by (simp add: read_enc_at)

lemma enc_inj: "enc v = enc w \<Longrightarrow> v = w"
  by (metis dec_enc)

end

interpretation le16: byte_codec le_u16 2 from_le_bytes "to_le_bytes 2"
  by unfold_locales (simp_all add: le_u16_def from_le_bytes_def [of "replicate _ _"] from_le_to_le_bytes
    to_le_from_le_bytes)

interpretation le32: byte_codec le_u32 4 from_le_bytes "to_le_bytes 4"
  by unfold_locales (simp_all add: le_u32_def from_le_bytes_def [of "replicate _ _"] from_le_to_le_bytes
    to_le_from_le_bytes)

interpretation le64: byte_codec le_u64 8 from_le_bytes "to_le_bytes 8"
  by unfold_locales (simp_all add: le_u64_def from_le_bytes_def [of "replicate _ _"] from_le_to_le_bytes
    to_le_from_le_bytes)

interpretation be16: byte_codec be_u16 2 from_be_bytes "to_be_bytes 2"
  by unfold_locales (simp_all add: be_u16_def from_be_bytes_def [of "replicate _ _"] from_be_to_be_bytes
    to_be_from_be_bytes)

interpretation be32: byte_codec be_u32 4 from_be_bytes "to_be_bytes 4"
  by unfold_locales (simp_all add: be_u32_def from_be_bytes_def [of "replicate _ _"] from_be_to_be_bytes
    to_be_from_be_bytes)

interpretation be64: byte_codec be_u64 8 from_be_bytes "to_be_bytes 8"
  by unfold_locales (simp_all add: be_u64_def from_be_bytes_def [of "replicate _ _"] from_be_to_be_bytes
    to_be_from_be_bytes)

text \<open>The endian-selected decoder and encoder of a \<^typ>\<open>reader\<close>.\<close>

definition dec_bytes :: "endian \<Rightarrow> bytes \<Rightarrow> 'a::len word" where
  "dec_bytes e bs = (case e of Little \<Rightarrow> from_le_bytes bs | Big \<Rightarrow> from_be_bytes bs)"

definition enc_bytes :: "endian \<Rightarrow> nat \<Rightarrow> 'a::len word \<Rightarrow> bytes" where
  "enc_bytes e n w = (case e of Little \<Rightarrow> to_le_bytes n w | Big \<Rightarrow> to_be_bytes n w)"

lemma length_enc_bytes [simp]: "length (enc_bytes e n w) = n"
  by (cases e) (simp_all add: enc_bytes_def)

interpretation rd16: byte_codec "rd_u16 r" 2 "dec_bytes (rd_endian r)" "enc_bytes (rd_endian r) 2" for r
  by unfold_locales (simp_all add: rd_u16_def dec_bytes_def enc_bytes_def le16.rd_def' be16.rd_def'
    le16.dec_zeros be16.dec_zeros le16.dec_enc be16.dec_enc le16.enc_dec be16.enc_dec split: endian.splits)

interpretation rd32: byte_codec "rd_u32 r" 4 "dec_bytes (rd_endian r)" "enc_bytes (rd_endian r) 4" for r
  by unfold_locales (simp_all add: rd_u32_def dec_bytes_def enc_bytes_def le32.rd_def' be32.rd_def'
    le32.dec_zeros be32.dec_zeros le32.dec_enc be32.dec_enc le32.enc_dec be32.enc_dec split: endian.splits)

interpretation rd64: byte_codec "rd_u64 r" 8 "dec_bytes (rd_endian r)" "enc_bytes (rd_endian r) 8" for r
  by unfold_locales (simp_all add: rd_u64_def dec_bytes_def enc_bytes_def le64.rd_def' be64.rd_def'
    le64.dec_zeros be64.dec_zeros le64.dec_enc be64.dec_enc le64.enc_dec be64.enc_dec split: endian.splits)

lemma reader_new_endian [simp]: "rd_endian (reader_new e) = e"
  by (simp add: reader_new_def)

lemma u8_at_out: "length data \<le> off \<Longrightarrow> u8_at data off = 0"
  by (simp add: u8_at_def nth_get_def)

lemma u8_at_in: "off < length data \<Longrightarrow> u8_at data off = data ! off"
  by (simp add: u8_at_def nth_get_def)

lemma u8_at_append [simp]:
  "u8_at (xs @ ys) off = (if off < length xs then xs ! off else u8_at ys (off - length xs))"
  by (auto simp: u8_at_def nth_get_def nth_append)

lemma u8_at_Nil [simp]: "u8_at [] off = 0"
  by (simp add: u8_at_out)

lemma be32_at: "bytes_at data off (to_be_bytes 4 w) \<Longrightarrow> be_u32 data off = w"
  by (auto simp: bytes_at_def be32.in_range be32.dec_enc)

lemma be64_at: "bytes_at data off (to_be_bytes 8 w) \<Longrightarrow> be_u64 data off = w"
  by (auto simp: bytes_at_def be64.in_range be64.dec_enc)

lemma le16_at: "bytes_at data off (to_le_bytes 2 w) \<Longrightarrow> le_u16 data off = w"
  by (auto simp: bytes_at_def le16.in_range le16.dec_enc)

lemma le32_at: "bytes_at data off (to_le_bytes 4 w) \<Longrightarrow> le_u32 data off = w"
  by (auto simp: bytes_at_def le32.in_range le32.dec_enc)

lemma le64_at: "bytes_at data off (to_le_bytes 8 w) \<Longrightarrow> le_u64 data off = w"
  by (auto simp: bytes_at_def le64.in_range le64.dec_enc)

lemma u8_at_at: "bytes_at data off (b # bs) \<Longrightarrow> u8_at data off = b"
  by (auto simp: bytes_at_def u8_at_def nth_get_def hd_drop_conv_nth [symmetric] take_Suc)

end
