(* ===== verification/Zfs_Error.thy ===== *)
theory Zfs_Error
  imports Zfs_Text
begin

section \<open>Reader errors (core/src/error.rs) and third-party code\<close>

text \<open>
  The error enum with its \<^verbatim>\<open>Display\<close> text, and the record of the third-party functions the
  readers call, which are parameters of the model: their code is not in the repository.
\<close>

datatype zfs_error =
    Truncated string usize usize
  | NoUberblock usize
  | BadNvlistEncoding u8 usize
  | NvlistBomb string u64 u64
  | AllocationBomb string u64 u64
  | Decompress string string
  | UnsupportedCompression u8
  | EmbeddedBlkptr u64
  | OutOfRange string u64 u64

text \<open>The \<^verbatim>\<open>#[error("...")]\<close> texts that \<^verbatim>\<open>to_string\<close> yields.\<close>

fun zfs_error_display :: "zfs_error \<Rightarrow> rstr" where
  "zfs_error_display (Truncated structure need have_len) =
     lit ''buffer too small for '' @ lit structure @ lit '': need '' @ dec_digits need @
     lit '' bytes, have '' @ dec_digits have_len"
| "zfs_error_display (NoUberblock scanned) =
     lit ''no valid uberblock found in '' @ dec_digits scanned @
     lit '' array slots (neither little- nor big-endian magic 0x00bab10c matched)''"
| "zfs_error_display (BadNvlistEncoding encoding off) =
     lit ''unsupported nvlist encoding 0x'' @ hex_fixed 2 (unat encoding) @ lit '' at offset '' @
     dec_digits off @ lit '' (expected 0x01 = XDR)''"
| "zfs_error_display (NvlistBomb fld value cap) =
     lit ''nvlist '' @ lit fld @ lit '' value '' @ dec_digits (unat value) @ lit '' exceeds cap '' @
     dec_digits (unat cap) @ lit '' (allocation-bomb guard)''"
| "zfs_error_display (AllocationBomb fld value cap) =
     lit ''block '' @ lit fld @ lit '' value '' @ dec_digits (unat value) @ lit '' exceeds cap '' @
     dec_digits (unat cap) @ lit '' (allocation-bomb guard)''"
| "zfs_error_display (Decompress codec reason) =
     lit codec @ lit '' decompression failed: '' @ lit reason"
| "zfs_error_display (UnsupportedCompression value) =
     lit ''unsupported compression function '' @ dec_digits (unat value) @
     lit '' (no decoder implemented)''"
| "zfs_error_display (EmbeddedBlkptr lsize) =
     lit ''embedded block pointer with inline '' @ dec_digits (unat lsize) @
     lit ''-byte payload (inline extraction not yet implemented)''"
| "zfs_error_display (OutOfRange what value max_val) =
     lit what @ lit '' value '' @ dec_digits (unat value) @ lit '' out of range (max '' @
     dec_digits (unat max_val) @ lit '')''"

subsection \<open>Third-party codecs\<close>

text \<open>
  \<open>sha256_digest\<close> is \<^verbatim>\<open>sha2::Sha256::digest\<close>; \<open>lz4_block src n\<close> is
  \<^verbatim>\<open>lz4_flex::block::decompress(src, n)\<close> (\<^term>\<open>None\<close> for its error);
  \<open>zlib_read src n\<close> is what \<^verbatim>\<open>read_to_end\<close> yields on \<^verbatim>\<open>flate2::read::ZlibDecoder\<close>
  limited to \<open>n\<close> bytes; \<open>zstd_read src n\<close> is \<^term>\<open>None\<close> when
  \<^verbatim>\<open>ruzstd::decoding::StreamingDecoder::new\<close> rejects the frame header, and otherwise what
  \<^verbatim>\<open>read_to_end\<close> on it limited to \<open>n\<close> bytes yields.
\<close>

record ext =
  sha256_digest :: "bytes \<Rightarrow> bytes"
  lz4_block :: "bytes \<Rightarrow> usize \<Rightarrow> bytes option"
  zlib_read :: "bytes \<Rightarrow> usize \<Rightarrow> bytes option"
  zstd_read :: "bytes \<Rightarrow> usize \<Rightarrow> bytes option option"

text \<open>
  What the reader relies on: a digest is 32 bytes, a reader limited to \<open>n\<close> bytes yields at most
  \<open>n\<close>, and the LZ4 block decoder never writes past the output size it is given.
\<close>

definition codecs_bounded :: "ext \<Rightarrow> bool" where
  "codecs_bounded x \<longleftrightarrow>
     (\<forall>d. length (sha256_digest x d) = 32) \<and>
     (\<forall>src n out. lz4_block x src n = Some out \<longrightarrow> length out \<le> n) \<and>
     (\<forall>src n out. zlib_read x src n = Some out \<longrightarrow> length out \<le> n) \<and>
     (\<forall>src n out. zstd_read x src n = Some (Some out) \<longrightarrow> length out \<le> n)"

text \<open>A concrete instance for evaluation: codecs that reject everything, a constant digest.\<close>

definition no_codecs :: ext where
  "no_codecs = \<lparr>sha256_digest = (\<lambda>_. replicate 32 0), lz4_block = (\<lambda>_ _. None),
     zlib_read = (\<lambda>_ _. None), zstd_read = (\<lambda>_ _. None)\<rparr>"

lemma no_codecs_bounded [simp]: "codecs_bounded no_codecs"
  by (simp add: codecs_bounded_def no_codecs_def)

subsection \<open>Raw enum values\<close>

text \<open>
  The on-disk enums (\<^verbatim>\<open>ChecksumType\<close>, \<^verbatim>\<open>CompressType\<close>, \<^verbatim>\<open>DmuType\<close>) all promise that
  decoding a raw value loses nothing: \<open>raw\<close> gives the value back.
\<close>

locale raw_enum =
  fixes from_raw :: "u8 \<Rightarrow> 'e" and raw :: "'e \<Rightarrow> u8"
  assumes raw_from_raw: "raw (from_raw v) = v"
begin

lemma from_raw_eq_iff: "from_raw v = from_raw w \<longleftrightarrow> v = w"
  by (metis raw_from_raw)

lemma inj_from_raw: "inj from_raw"
  by (rule injI) (simp add: from_raw_eq_iff)

lemma from_raw_raw_iff: "from_raw (raw e) = e \<longleftrightarrow> e \<in> range from_raw"
  by (metis rangeE rangeI raw_from_raw)

end

end
