(* ===== verification/Zfs_Checksum.thy ===== *)
theory Zfs_Checksum
  imports Zfs_Bytes Zfs_Error
begin

section \<open>Block checksums (core/src/checksum.rs)\<close>

text \<open>
  The checksum enum, the fletcher loops as the code runs them (a fold over the word indices),
  \<^verbatim>\<open>sha256\<close> over the digest parameter, and \<^verbatim>\<open>verify\<close>. The lemmas give the closed form of
  the four fletcher4 sums and what corruption they detect.
\<close>

datatype checksum_type =
    CkInherit | CkOn | CkOff | CkLabel | CkGangHeader | CkZilog
  | CkFletcher2 | CkFletcher4 | CkSha256 | CkOther u8

definition checksum_from_raw :: "u8 \<Rightarrow> checksum_type" where
  "checksum_from_raw v =
     (if v = 0 then CkInherit else if v = 1 then CkOn else if v = 2 then CkOff
      else if v = 3 then CkLabel else if v = 4 then CkGangHeader else if v = 5 then CkZilog
      else if v = 6 then CkFletcher2 else if v = 7 then CkFletcher4
      else if v = 8 then CkSha256 else CkOther v)"

fun checksum_raw :: "checksum_type \<Rightarrow> u8" where
  "checksum_raw CkInherit = 0"
| "checksum_raw CkOn = 1"
| "checksum_raw CkOff = 2"
| "checksum_raw CkLabel = 3"
| "checksum_raw CkGangHeader = 4"
| "checksum_raw CkZilog = 5"
| "checksum_raw CkFletcher2 = 6"
| "checksum_raw CkFletcher4 = 7"
| "checksum_raw CkSha256 = 8"
| "checksum_raw (CkOther v) = v"

interpretation checksum_enum: raw_enum checksum_from_raw checksum_raw
  by unfold_locales (simp add: checksum_from_raw_def)

definition word32_at :: "endian \<Rightarrow> bytes \<Rightarrow> usize \<Rightarrow> u64" where
  "word32_at endian data off =
     ucast (case endian of Little \<Rightarrow> le_u32 data off | Big \<Rightarrow> be_u32 data off)"

definition fletcher4_step :: "endian \<Rightarrow> bytes \<Rightarrow> u64 \<times> u64 \<times> u64 \<times> u64 \<Rightarrow> nat \<Rightarrow> u64 \<times> u64 \<times> u64 \<times> u64" where
  "fletcher4_step endian data s i =
     (case s of (a, b, c, d) \<Rightarrow>
        let w = word32_at endian data (i * 4);
            a' = a + w; b' = b + a'; c' = c + b'; d' = d + c'
        in (a', b', c', d'))"

definition fletcher4 :: "bytes \<Rightarrow> endian \<Rightarrow> u64 list" where
  "fletcher4 data endian =
     (case foldl (fletcher4_step endian data) (0, 0, 0, 0) [0..<length data div 4] of
        (a, b, c, d) \<Rightarrow> [a, b, c, d])"

definition word64_at :: "endian \<Rightarrow> bytes \<Rightarrow> usize \<Rightarrow> u64" where
  "word64_at endian data off =
     (case endian of Little \<Rightarrow> le_u64 data off | Big \<Rightarrow> be_u64 data off)"

definition fletcher2_step :: "endian \<Rightarrow> bytes \<Rightarrow> u64 \<times> u64 \<times> u64 \<times> u64 \<Rightarrow> nat \<Rightarrow> u64 \<times> u64 \<times> u64 \<times> u64" where
  "fletcher2_step endian data s i =
     (case s of (a0, a1, b0, b1) \<Rightarrow>
        let off = i * 16; w0 = word64_at endian data off; w1 = word64_at endian data (off + 8);
            a0' = a0 + w0; a1' = a1 + w1; b0' = b0 + a0'; b1' = b1 + a1'
        in (a0', a1', b0', b1'))"

definition fletcher2 :: "bytes \<Rightarrow> endian \<Rightarrow> u64 list" where
  "fletcher2 data endian =
     (case foldl (fletcher2_step endian data) (0, 0, 0, 0) [0..<length data div 16] of
        (a0, a1, b0, b1) \<Rightarrow> [a0, a1, b0, b1])"

definition sha256 :: "ext \<Rightarrow> bytes \<Rightarrow> u64 list" where
  "sha256 x data =
     (let digest = sha256_digest x data in
      map (\<lambda>i. from_be_bytes (take 8 (drop (i * 8) digest))) [0..<4])"

definition verify :: "ext \<Rightarrow> checksum_type \<Rightarrow> endian \<Rightarrow> bytes \<Rightarrow> u64 list \<Rightarrow> bool option" where
  "verify x kind endian data expected =
     (case kind of
        CkFletcher4 \<Rightarrow> Some (fletcher4 data endian = expected)
      | CkFletcher2 \<Rightarrow> Some (fletcher2 data endian = expected)
      | CkSha256 \<Rightarrow> Some (sha256 x data = expected)
      | _ \<Rightarrow> None)"

subsection \<open>The fletcher sums in closed form\<close>

text \<open>
  \<open>iter_sum k w n\<close> is the \<open>k\<close>-fold running sum of the words \<open>w 0, \<dots>, w (n - 1)\<close>: the word at
  \<open>i\<close> is counted once for every way to choose \<open>k\<close> of the later positions with repetition.
\<close>

definition iter_sum :: "nat \<Rightarrow> (nat \<Rightarrow> u64) \<Rightarrow> nat \<Rightarrow> u64" where
  "iter_sum k w n = (\<Sum>i<n. of_nat ((n - 1 - i + k) choose k) * w i)"

lemma iter_sum_0: "iter_sum k w 0 = 0"
  by (simp add: iter_sum_def)

lemma iter_sum_first: "iter_sum 0 w (Suc n) = iter_sum 0 w n + w n"
  by (simp add: iter_sum_def)

lemma iter_sum_Suc: "iter_sum (Suc k) w (Suc n) = iter_sum (Suc k) w n + iter_sum k w (Suc n)"
proof -
  have coeff: "of_nat ((Suc n - 1 - i + Suc k) choose Suc k) * w i =
      of_nat ((n - 1 - i + Suc k) choose Suc k) * w i + of_nat ((Suc n - 1 - i + k) choose k) * w i"
    if "i < n" for i
  proof -
    from that obtain m where m: "n = i + Suc m" using less_iff_Suc_add by auto
    show ?thesis by (simp add: m algebra_simps)
  qed
  have "iter_sum (Suc k) w (Suc n) =
      (\<Sum>i<n. of_nat ((Suc n - 1 - i + Suc k) choose Suc k) * w i) + w n"
    by (simp add: iter_sum_def binomial_eq_0)
  also have "\<dots> = (\<Sum>i<n. of_nat ((n - 1 - i + Suc k) choose Suc k) * w i +
      of_nat ((Suc n - 1 - i + k) choose k) * w i) + w n"
    by (intro arg_cong2 [where f = "(+)"] sum.cong refl) (rule coeff, simp)
  also have "\<dots> = iter_sum (Suc k) w n + iter_sum k w (Suc n)"
    by (simp add: iter_sum_def sum.distrib)
  finally show ?thesis .
qed

lemma fletcher4_fold:
  "foldl (fletcher4_step e data) (0, 0, 0, 0) [0..<n] =
     (let w = (\<lambda>i. word32_at e data (i * 4)) in
      (iter_sum 0 w n, iter_sum 1 w n, iter_sum 2 w n, iter_sum 3 w n))"
proof (induction n)
  case 0
  show ?case by (simp add: iter_sum_0)
next
  case (Suc n)
  then show ?case
    by (simp add: fletcher4_step_def Let_def iter_sum_first numeral_2_eq_2 numeral_3_eq_3 iter_sum_Suc)
qed

text \<open>Words of fewer bits than the accumulator cannot wrap a single difference away.\<close>

lemma word32_at_bound: "unat (word32_at e data off) < 2 ^ 32"
proof -
  have "unat (v :: u32) < 2 ^ LENGTH(32)" for v by (rule unsigned_less)
  then show ?thesis by (simp add: word32_at_def unat_ucast_up)
qed

subsection \<open>Corruption the fletcher4 sums detect\<close>

lemma iter_sum_diff: "iter_sum k v n - iter_sum k w n = iter_sum k (\<lambda>i. v i - w i) n"
  by (simp add: iter_sum_def sum_subtractf [symmetric] right_diff_distrib)

lemma iter_sum_support:
  assumes "A \<subseteq> {..<n}" and "\<And>i. i < n \<Longrightarrow> i \<notin> A \<Longrightarrow> w i = 0"
  shows "iter_sum k w n = (\<Sum>i\<in>A. of_nat ((n - 1 - i + k) choose k) * w i)"
  unfolding iter_sum_def using assms by (intro sum.mono_neutral_right) auto

lemma word32_at_append:
  "word32_at e (xs @ ys) off =
     (if off + 4 \<le> length xs then word32_at e xs off
      else if length xs \<le> off then word32_at e ys (off - length xs) else word32_at e (xs @ ys) off)"
  using le32.append_right [of xs ys "off - length xs"] be32.append_right [of xs ys "off - length xs"]
  by (auto simp: word32_at_def le32.append_left be32.append_left split: endian.splits)

lemma word32_at_inj:
  assumes "length xs = 4" "length ys = 4" "word32_at e xs 0 = word32_at e ys 0"
  shows "xs = ys"
proof -
  have "take 4 xs = xs" "take 4 ys = ys" using assms(1,2) by simp_all
  with assms show ?thesis
    by (cases e) (auto simp: word32_at_def le32.in_range be32.in_range dest!: ucast_up_inj [rotated]
      intro: le32.dec_inj be32.dec_inj)
qed

lemma fletcher4_sums:
  "fletcher4 data e = map (\<lambda>k. iter_sum k (\<lambda>i. word32_at e data (i * 4)) (length data div 4)) [0, 1, 2, 3]"
  by (simp add: fletcher4_def fletcher4_fold Let_def)

text \<open>
  Two buffers that differ inside one aligned block only: the \<open>k\<close>-th sums differ by the weighted
  differences of the words of that block.
\<close>

lemma iter_sum_block_diff:
  assumes "length u = 4 * m" "length v = 4 * m" "length pre = 4 * p"
    and n_def: "n = length (pre @ u @ post) div 4"
  shows "iter_sum k (\<lambda>i. word32_at e (pre @ u @ post) (i * 4)) n -
      iter_sum k (\<lambda>i. word32_at e (pre @ v @ post) (i * 4)) n =
    (\<Sum>i\<in>{p..<p + m}. of_nat ((n - 1 - i + k) choose k) *
      (word32_at e u ((i - p) * 4) - word32_at e v ((i - p) * 4)))"
proof -
  have n: "p + m \<le> n" using assms(1,3) by (simp add: n_def)
  have same: "word32_at e (pre @ u @ post) (i * 4) = word32_at e (pre @ v @ post) (i * 4)"
    if "i \<notin> {p..<p + m}" for i
  proof (cases "i < p")
    case True
    then show ?thesis using assms(3) by (simp add: word32_at_append [of e pre])
  next
    case False
    with that have "p + m \<le> i" by simp
    moreover have "word32_at e (pre @ w @ post) (i * 4) = word32_at e post (i * 4 - 4 * (p + m))"
      if "length w = 4 * m" "p + m \<le> i" for w
    proof -
      have "word32_at e ((pre @ w) @ post) (i * 4) = word32_at e post (i * 4 - length (pre @ w))"
        using that assms(3) by (subst word32_at_append) (auto simp: word32_at_append)
      then show ?thesis using that assms(3) by simp
    qed
    ultimately show ?thesis using assms(1,2) by simp
  qed
  have block: "word32_at e (pre @ w @ post) (i * 4) = word32_at e w ((i - p) * 4)"
    if "length w = 4 * m" "i \<in> {p..<p + m}" for w i
  proof -
    have "word32_at e (pre @ w @ post) (i * 4) = word32_at e (w @ post) (i * 4 - length pre)"
      using that assms(3) by (subst word32_at_append) auto
    also have "\<dots> = word32_at e w (i * 4 - length pre)"
      using that assms(3) by (subst word32_at_append) auto
    finally show ?thesis using assms(3) by (simp add: algebra_simps)
  qed
  show ?thesis
    unfolding iter_sum_diff
    by (subst iter_sum_support [where A = "{p..<p + m}"])
      (use n in \<open>auto simp: same block assms(1,2) intro!: sum.cong\<close>)
qed

lemma verify_cases:
  "verify x kind e data expected =
     (if kind = CkFletcher4 then Some (fletcher4 data e = expected)
      else if kind = CkFletcher2 then Some (fletcher2 data e = expected)
      else if kind = CkSha256 then Some (sha256 x data = expected) else None)"
  by (cases kind) (simp_all add: verify_def)

lemma verify_None_iff:
  "verify x kind e data expected = None \<longleftrightarrow> kind \<notin> {CkFletcher4, CkFletcher2, CkSha256}"
  by (simp add: verify_cases)

lemma fletcher4_altered:
  assumes "length u = 4" "length v = 4" "length pre = 4 * p" "u \<noteq> v"
  shows "verify x CkFletcher4 e (pre @ v @ post) (fletcher4 (pre @ u @ post) e) = Some False"
proof -
  let ?s = "\<lambda>w. iter_sum 0 (\<lambda>i. word32_at e (pre @ w @ post) (i * 4)) (length (pre @ u @ post) div 4)"
  have "?s u - ?s v = word32_at e u 0 - word32_at e v 0"
    using iter_sum_block_diff [OF _ _ _ refl, of u 1 v pre p 0 e post] assms by simp
  moreover have "word32_at e u 0 \<noteq> word32_at e v 0"
    using word32_at_inj [of u v e] assms by blast
  ultimately have "?s u \<noteq> ?s v" by auto
  then show ?thesis
    using assms(1,2) by (auto simp: verify_def fletcher4_sums)
qed

subsection \<open>Properties\<close>

text \<open>
  C37. fletcher4 computes the iterated running sums of the block's 32-bit words, each modulo
  \<open>2 ^ 64\<close>: the four results weigh the word at position \<open>i\<close> of \<open>n\<close> by the binomial coefficients
  \<open>1\<close>, \<open>n - i\<close>, and so on.
\<close>

theorem fletcher4_closed_form:
  "fletcher4 data e =
     map (\<lambda>k. iter_sum k (\<lambda>i. word32_at e data (i * 4)) (length data div 4)) [0, 1, 2, 3]"
  by (rule fletcher4_sums)

text \<open>
  Exchanging two different adjacent 4-byte words, which a plain sum would not notice, is
  detected: the exchanged block does not verify against the original's checksum.
\<close>

lemma fletcher4_detects_swapped_words:
  assumes "length u = 4" "length v = 4" "length pre = 4 * p" "u \<noteq> v"
  shows "verify x CkFletcher4 e (pre @ v @ u @ post) (fletcher4 (pre @ u @ v @ post) e) = Some False"
proof -
  let ?n = "length (pre @ u @ v @ post) div 4"
  let ?s = "\<lambda>w. iter_sum 1 (\<lambda>i. word32_at e (pre @ w @ post) (i * 4)) ?n"
  let ?d = "word32_at e u 0 - word32_at e v 0"
  define r where "r = length post div 4"
  have r: "?n = p + 2 + r" using assms by (simp add: r_def)
  have at: "word32_at e (u @ v) 0 = word32_at e u 0" "word32_at e (u @ v) 4 = word32_at e v 0"
    "word32_at e (v @ u) 0 = word32_at e v 0" "word32_at e (v @ u) 4 = word32_at e u 0"
    using assms by (simp_all add: word32_at_append)
  have "{p..<p + 2} = {p, Suc p}" by auto
  then have "?s (u @ v) - ?s (v @ u) = of_nat (Suc (Suc r)) * ?d - of_nat (Suc r) * ?d"
    using iter_sum_block_diff [OF _ _ _ refl, of "u @ v" 2 "v @ u" pre p 1 e post] assms r
    by (simp add: at algebra_simps)
  also have "\<dots> = ?d" by (simp add: algebra_simps)
  finally have "?s (u @ v) - ?s (v @ u) = ?d" .
  moreover have "?d \<noteq> 0"
    using word32_at_inj [of u v e] assms by auto
  ultimately have "?s (u @ v) \<noteq> ?s (v @ u)" by auto
  then show ?thesis
    using assms(1,2) by (auto simp: verify_def fletcher4_sums add.commute)
qed


end
