(* ===== verification/Zfs_Compress.thy ===== *)
theory Zfs_Compress
  imports Zfs_Bytes Zfs_Error
begin

section \<open>Block decompression (core/src/compress.rs)\<close>

text \<open>
  The compression enum, the two codecs implemented in the repository (LZJB and ZLE, as the loops
  of the source), the framing around the third-party codecs, and \<^verbatim>\<open>decompress\<close>. The lemmas give
  the exact output length and, for LZJB and ZLE, that decoding inverts an encoding of the
  format's items.
\<close>

datatype compress_type =
    CzInherit | CzOn | CzOff | CzLzjb | CzEmpty | CzGzip u8 | CzZle | CzLz4 | CzZstd | CzOther u8

definition compress_from_raw :: "u8 \<Rightarrow> compress_type" where
  "compress_from_raw v =
     (if v = 0 then CzInherit else if v = 1 then CzOn else if v = 2 then CzOff
      else if v = 3 then CzLzjb else if v = 4 then CzEmpty
      else if 5 \<le> v \<and> v \<le> 13 then CzGzip v
      else if v = 14 then CzZle else if v = 15 then CzLz4 else if v = 16 then CzZstd
      else CzOther v)"

fun compress_raw :: "compress_type \<Rightarrow> u8" where
  "compress_raw CzInherit = 0"
| "compress_raw CzOn = 1"
| "compress_raw CzOff = 2"
| "compress_raw CzLzjb = 3"
| "compress_raw CzEmpty = 4"
| "compress_raw CzZle = 14"
| "compress_raw CzLz4 = 15"
| "compress_raw CzZstd = 16"
| "compress_raw (CzGzip v) = v"
| "compress_raw (CzOther v) = v"

interpretation compress_enum: raw_enum compress_from_raw compress_raw
  by unfold_locales (simp add: compress_from_raw_def)

subsection \<open>off, lz4, gzip, zstd\<close>

definition decompress_off :: "bytes \<Rightarrow> usize \<Rightarrow> bytes" where
  "decompress_off src lsize =
     (let n = min (length src) lsize in take n src @ drop n (replicate lsize 0))"

definition decompress_lz4 :: "ext \<Rightarrow> bytes \<Rightarrow> usize \<Rightarrow> zfs_error + bytes" where
  "decompress_lz4 x src lsize =
     (if length src < 4 then Inl (Decompress ''lz4'' ''input shorter than the 4-byte length prefix'')
      else
        rbind (ok_or (slice_get src 4 (sat_add 4 (unat (be_u32 src 0))))
                 (Decompress ''lz4'' ''declared compressed length exceeds the input''))
          (\<lambda>block. ok_or (lz4_block x block lsize)
             (Decompress ''lz4'' ''malformed LZ4 stream or output overrun'')))"

definition decompress_gzip :: "ext \<Rightarrow> bytes \<Rightarrow> usize \<Rightarrow> zfs_error + bytes" where
  "decompress_gzip x src lsize =
     rbind (ok_or (zlib_read x src lsize) (Decompress ''gzip'' ''malformed zlib/DEFLATE stream''))
       (\<lambda>out. Inr (resize lsize 0 out))"

definition decompress_zstd :: "ext \<Rightarrow> bytes \<Rightarrow> usize \<Rightarrow> zfs_error + bytes" where
  "decompress_zstd x src lsize =
     rbind (ok_or (slice_from src 8)
              (Decompress ''zstd'' ''input shorter than the 8-byte zfs_zstd header''))
       (\<lambda>frame. rbind (ok_or (zstd_read x frame lsize) (Decompress ''zstd'' ''bad zstd frame header''))
          (\<lambda>r. rbind (ok_or r (Decompress ''zstd'' ''malformed zstd frame''))
             (\<lambda>out. Inr (resize lsize 0 out))))"

subsection \<open>LZJB\<close>

text \<open>The copy loop of one back-reference: \<open>pos\<close> is \<^verbatim>\<open>start + k\<close>, \<open>m\<close> what is left of \<^verbatim>\<open>mlen\<close>.\<close>

fun lzjb_copy :: "usize \<Rightarrow> nat \<Rightarrow> usize \<Rightarrow> bytes \<Rightarrow> zfs_error + bytes" where
  "lzjb_copy lsize 0 pos out = Inr out"
| "lzjb_copy lsize (Suc m) pos out =
     (if lsize \<le> length out then Inr out
      else rbind (ok_or (nth_get out pos)
                   (Decompress ''lzjb'' ''back-reference reads past written output''))
             (\<lambda>byte. lzjb_copy lsize m (Suc pos) (out @ [byte])))"

lemma lzjb_copy_grows:
  "lzjb_copy lsize m pos out = Inr out' \<Longrightarrow> length out \<le> lsize \<Longrightarrow>
     length out \<le> length out' \<and> length out' \<le> lsize \<and>
     (0 < m \<and> length out < lsize \<longrightarrow> length out < length out')"
proof (induction lsize m pos out rule: lzjb_copy.induct)
  case (2 lsize m pos out)
  then show ?case by (fastforce simp: res_simps split: if_splits)
qed simp

definition lzjb_mlen :: "u8 \<Rightarrow> nat" where
  "lzjb_mlen b0 = unat b0 div 2 ^ (8 - 6) + 3"

definition lzjb_offset :: "u8 \<Rightarrow> u8 \<Rightarrow> nat" where
  "lzjb_offset b0 b1 = (unat b0 * 2 ^ 8 + unat b1) mod 2 ^ (16 - 6)"

text \<open>
  One item of the main loop, after the copymap bookkeeping: the new source index and output.
\<close>

definition lzjb_item :: "bytes \<Rightarrow> usize \<Rightarrow> bool \<Rightarrow> usize \<Rightarrow> bytes \<Rightarrow> zfs_error + (usize \<times> bytes)" where
  "lzjb_item src lsize is_match si out =
     (if is_match then
        rbind (ok_or (nth_get src si) (Decompress ''lzjb'' ''truncated match control byte 0''))
          (\<lambda>b0. rbind (ok_or (nth_get src (si + 1)) (Decompress ''lzjb'' ''truncated match control byte 1''))
          (\<lambda>b1. rbind (ok_or (checked_sub (length out) (lzjb_offset b0 b1))
                         (Decompress ''lzjb'' ''back-reference before start of output''))
          (\<lambda>start. rbind (lzjb_copy lsize (lzjb_mlen b0) start out) (\<lambda>out'. Inr (si + 2, out')))))
      else
        rbind (ok_or (nth_get src si) (Decompress ''lzjb'' ''truncated literal byte''))
          (\<lambda>byte. Inr (si + 1, out @ [byte])))"

lemma lzjb_item_grows:
  assumes "lzjb_item src lsize is_match si out = Inr (si', out')" and "length out < lsize"
  shows "length out < length out' \<and> length out' \<le> lsize"
proof (cases is_match)
  case False
  with assms show ?thesis by (auto simp: lzjb_item_def res_simps)
next
  case True
  with assms(1) obtain b0 start where "lzjb_copy lsize (lzjb_mlen b0) start out = Inr out'"
    by (auto simp: lzjb_item_def res_simps)
  moreover have "0 < lzjb_mlen b0" by (simp add: lzjb_mlen_def)
  ultimately show ?thesis using lzjb_copy_grows [of lsize "lzjb_mlen b0" start out out'] assms(2) by simp
qed

text \<open>
  The copymap bookkeeping at the head of an iteration: shift the mask, and load the next copymap
  byte when it has passed bit 7. The result is the source index, the copymap and the mask.
\<close>

definition lzjb_map :: "bytes \<Rightarrow> usize \<Rightarrow> u8 \<Rightarrow> u32 \<Rightarrow> zfs_error + (usize \<times> u8 \<times> u32)" where
  "lzjb_map src si copymap copymask =
     (let cmask = push_bit 1 copymask in
      if cmask = 256 then
        rbind (ok_or (nth_get src si) (Decompress ''lzjb'' ''truncated copymap byte''))
          (\<lambda>b. Inr (si + 1, b, 1))
      else Inr (si, copymap, cmask))"

function (sequential) lzjb_loop ::
    "bytes \<Rightarrow> usize \<Rightarrow> usize \<Rightarrow> u8 \<Rightarrow> u32 \<Rightarrow> bytes \<Rightarrow> zfs_error + bytes" where
  "lzjb_loop src lsize si copymap copymask out =
     (if lsize \<le> length out then Inr out
      else case lzjb_map src si copymap copymask of
        Inl e \<Rightarrow> Inl e
      | Inr (si1, map1, mask1) \<Rightarrow>
          (case lzjb_item src lsize (ucast map1 AND mask1 \<noteq> 0) si1 out of
             Inl e \<Rightarrow> Inl e
           | Inr (si2, out2) \<Rightarrow> lzjb_loop src lsize si2 map1 mask1 out2))"
  by pat_completeness auto
termination
  by (relation "measure (\<lambda>(src, lsize, si, cm, cmask, out). lsize - length out)")
    (auto dest!: lzjb_item_grows)

declare lzjb_loop.simps [simp del]

definition decompress_lzjb :: "bytes \<Rightarrow> usize \<Rightarrow> zfs_error + bytes" where
  "decompress_lzjb src lsize = lzjb_loop src lsize 0 0 (push_bit 7 1) []"

subsection \<open>ZLE\<close>

text \<open>The two push loops stop at \<open>lsize\<close> bytes.\<close>

definition push_capped :: "usize \<Rightarrow> bytes \<Rightarrow> bytes \<Rightarrow> bytes" where
  "push_capped lsize out bs = out @ take (lsize - length out) bs"

function (sequential) zle_loop :: "bytes \<Rightarrow> usize \<Rightarrow> usize \<Rightarrow> bytes \<Rightarrow> zfs_error + bytes" where
  "zle_loop src lsize si out =
     (if lsize \<le> length out then Inr out
      else case nth_get src si of
        None \<Rightarrow> Inl (Decompress ''zle'' ''truncated control byte'')
      | Some ctrl \<Rightarrow>
          (if ctrl AND 0x80 = 0 then
             (let run = unat ctrl + 1 in
              case slice_get src (si + 1) (si + 1 + run) of
                None \<Rightarrow> Inl (Decompress ''zle'' ''literal run exceeds input'')
              | Some bs \<Rightarrow> zle_loop src lsize (si + 1 + run) (push_capped lsize out bs))
           else
             (let run = unat (ctrl - 0x80) + 1 + 63 in
              zle_loop src lsize (si + 1) (push_capped lsize out (replicate run 0)))))"
  by pat_completeness auto
termination
  by (relation "measure (\<lambda>(src, lsize, si, out). lsize - length out)")
    (auto simp: push_capped_def slice_get_Some_iff)

declare zle_loop.simps [simp del]

definition decompress_zle :: "bytes \<Rightarrow> usize \<Rightarrow> zfs_error + bytes" where
  "decompress_zle src lsize = zle_loop src lsize 0 []"

subsection \<open>Dispatch\<close>

definition decompress :: "ext \<Rightarrow> compress_type \<Rightarrow> bytes \<Rightarrow> usize \<Rightarrow> zfs_error + bytes" where
  "decompress x kind src lsize =
     (case kind of
        CzOff \<Rightarrow> Inr (decompress_off src lsize)
      | CzLzjb \<Rightarrow> decompress_lzjb src lsize
      | CzLz4 \<Rightarrow> decompress_lz4 x src lsize
      | CzGzip _ \<Rightarrow> decompress_gzip x src lsize
      | CzOn \<Rightarrow> decompress_gzip x src lsize
      | CzZle \<Rightarrow> decompress_zle src lsize
      | CzZstd \<Rightarrow> decompress_zstd x src lsize
      | CzEmpty \<Rightarrow> Inr (replicate lsize 0)
      | CzInherit \<Rightarrow> Inl (UnsupportedCompression 0)
      | CzOther v \<Rightarrow> Inl (UnsupportedCompression v))"

subsection \<open>Output length\<close>

lemma length_decompress_off [simp]: "length (decompress_off src lsize) = lsize"
  by (simp add: decompress_off_def Let_def)

lemma lzjb_loop_length:
  "lzjb_loop src lsize si cm cmask out = Inr r \<Longrightarrow> length out \<le> lsize \<Longrightarrow> length r = lsize"
proof (induction src lsize si cm cmask out rule: lzjb_loop.induct)
  case (1 src lsize si cm cmask out)
  show ?case
  proof (cases "lsize \<le> length out")
    case True
    with "1.prems" show ?thesis by (simp add: lzjb_loop.simps)
  next
    case False
    then have less: "length out < lsize" by simp
    with "1.prems" obtain si1 map1 mask1 si2 out2
      where m: "lzjb_map src si cm cmask = Inr (si1, map1, mask1)"
        and it: "lzjb_item src lsize (ucast map1 AND mask1 \<noteq> 0) si1 out = Inr (si2, out2)"
        and rec: "lzjb_loop src lsize si2 map1 mask1 out2 = Inr r"
      by (subst (asm) lzjb_loop.simps) (auto split: sum.splits)
    show ?thesis
      using "1.IH" [OF False m refl refl it refl rec] lzjb_item_grows [OF it less] by simp
  qed
qed

lemma zle_loop_length:
  "zle_loop src lsize si out = Inr r \<Longrightarrow> length out \<le> lsize \<Longrightarrow> length r = lsize"
proof (induction src lsize si out rule: zle_loop.induct)
  case (1 src lsize si out)
  have capped: "length out \<le> lsize \<Longrightarrow> length (push_capped lsize out bs) \<le> lsize" for bs
    by (simp add: push_capped_def)
  show ?case
    using "1.prems" "1.IH"
    by (subst (asm) zle_loop.simps) (auto simp: Let_def capped split: if_splits option.splits)
qed

lemma decompress_length:
  assumes "decompress x kind src lsize = Inr out" and "kind \<noteq> CzLz4"
  shows "length out = lsize"
  using assms
  by (cases kind)
    (auto simp: decompress_def decompress_gzip_def decompress_zstd_def decompress_lzjb_def
      decompress_zle_def res_simps dest: lzjb_loop_length zle_loop_length)

lemma decompress_lz4_length:
  "codecs_bounded x \<Longrightarrow> decompress_lz4 x src lsize = Inr out \<Longrightarrow> length out \<le> lsize"
  by (auto simp: decompress_lz4_def codecs_bounded_def res_simps split: if_splits)

lemma decompress_length_le:
  assumes "codecs_bounded x" and "decompress x kind src lsize = Inr out"
  shows "length out \<le> lsize"
  using decompress_length [OF assms(2)] decompress_lz4_length [OF assms(1), of src lsize out] assms(2)
  by (cases "kind = CzLz4") (auto simp: decompress_def)

subsection \<open>Errors of the codecs\<close>

definition decode_error :: "zfs_error \<Rightarrow> bool" where
  "decode_error e =
     (case e of Decompress _ _ \<Rightarrow> True | UnsupportedCompression _ \<Rightarrow> True | _ \<Rightarrow> False)"

lemma decode_error_simps [simp]:
  "decode_error (Decompress c r)" "decode_error (UnsupportedCompression v)"
  by (simp_all add: decode_error_def)

lemma lzjb_copy_error: "lzjb_copy lsize m pos out = Inl e \<Longrightarrow> decode_error e"
  by (induction lsize m pos out rule: lzjb_copy.induct) (auto simp: res_simps split: if_splits)

lemma lzjb_item_error: "lzjb_item src lsize is_match si out = Inl e \<Longrightarrow> decode_error e"
  by (auto simp: lzjb_item_def res_simps dest: lzjb_copy_error split: if_splits)

lemma lzjb_map_error: "lzjb_map src si cm cmask = Inl e \<Longrightarrow> decode_error e"
  by (auto simp: lzjb_map_def Let_def res_simps split: if_splits)

lemma lzjb_loop_error: "lzjb_loop src lsize si cm cmask out = Inl e \<Longrightarrow> decode_error e"
proof (induction src lsize si cm cmask out rule: lzjb_loop.induct)
  case (1 src lsize si cm cmask out)
  then show ?case
    by (subst (asm) (2) lzjb_loop.simps)
      (auto dest: lzjb_item_error lzjb_map_error split: if_splits sum.splits)
qed

lemma zle_loop_error: "zle_loop src lsize si out = Inl e \<Longrightarrow> decode_error e"
proof (induction src lsize si out rule: zle_loop.induct)
  case (1 src lsize si out)
  from "1.prems" show ?case
    by (subst (asm) zle_loop.simps)
      (auto simp: Let_def intro: "1.IH" split: if_splits option.splits)
qed

lemma decompress_error: "decompress x kind src lsize = Inl e \<Longrightarrow> decode_error e"
  by (cases kind)
    (auto simp: decompress_def decompress_lz4_def decompress_gzip_def decompress_zstd_def
      decompress_lzjb_def decompress_zle_def res_simps dest: lzjb_loop_error zle_loop_error split: if_splits)

subsection \<open>LZJB items and their encoding\<close>

text \<open>
  The format's own view: a stream of literals and back-references, what each appends to the
  output, and the bytes that encode a stream (a copymap byte before every eight items).
\<close>

datatype lz_item = LzLit u8 | LzCopy nat nat

fun lz_is_copy :: "lz_item \<Rightarrow> bool" where
  "lz_is_copy (LzLit _) = False"
| "lz_is_copy (LzCopy _ _) = True"

fun lz_apply :: "bytes \<Rightarrow> lz_item \<Rightarrow> bytes" where
  "lz_apply out (LzLit b) = out @ [b]"
| "lz_apply out (LzCopy len off) =
     out @ map (\<lambda>k. out ! (length out - off + k mod off)) [0..<len]"

definition lz_expand :: "bytes \<Rightarrow> lz_item list \<Rightarrow> bytes" where
  "lz_expand out items = foldl lz_apply out items"

fun lz_valid :: "bytes \<Rightarrow> lz_item list \<Rightarrow> bool" where
  "lz_valid out [] = True"
| "lz_valid out (LzLit b # items) = lz_valid (lz_apply out (LzLit b)) items"
| "lz_valid out (LzCopy len off # items) =
     (3 \<le> len \<and> len \<le> 66 \<and> 1 \<le> off \<and> off \<le> length out \<and> off < 1024 \<and>
      lz_valid (lz_apply out (LzCopy len off)) items)"

fun lz_item_bytes :: "lz_item \<Rightarrow> bytes" where
  "lz_item_bytes (LzLit b) = [b]"
| "lz_item_bytes (LzCopy len off) = [of_nat ((len - 3) * 4 + off div 256), of_nat (off mod 256)]"

fun lz_map_nat :: "lz_item list \<Rightarrow> nat" where
  "lz_map_nat [] = 0"
| "lz_map_nat (i # items) = of_bool (lz_is_copy i) + 2 * lz_map_nat items"

text \<open>\<open>j\<close> is the copymap bit of the next item; at 8 a new copymap byte is due.\<close>

fun lz_encode_from :: "nat \<Rightarrow> lz_item list \<Rightarrow> bytes" where
  "lz_encode_from j [] = []"
| "lz_encode_from j (i # items) =
     (if j = 8 then of_nat (lz_map_nat (take 8 (i # items))) # lz_item_bytes i @ lz_encode_from 1 items
      else lz_item_bytes i @ lz_encode_from (Suc j) items)"

definition lzjb_encode :: "lz_item list \<Rightarrow> bytes" where
  "lzjb_encode items = lz_encode_from 8 items"

lemma lz_expand_Cons: "lz_expand out (i # items) = lz_expand (lz_apply out i) items"
  by (simp add: lz_expand_def)

lemma lz_apply_longer: "lz_valid out (i # items) \<Longrightarrow> length out < length (lz_apply out i)"
  by (cases i) auto

lemma lz_valid_tl: "lz_valid out (i # items) \<Longrightarrow> lz_valid (lz_apply out i) items"
  by (cases i) auto

lemma length_lz_expand: "length out \<le> length (lz_expand out items)"
proof (induction items arbitrary: out)
  case Nil
  show ?case by (simp add: lz_expand_def)
next
  case (Cons i items)
  have "length out \<le> length (lz_apply out i)" by (cases i) simp_all
  also have "\<dots> \<le> length (lz_expand out (i # items))" by (simp add: lz_expand_Cons Cons)
  finally show ?case .
qed

lemma lz_map_bit:
  "bit (lz_map_nat items) k \<longleftrightarrow> k < length items \<and> lz_is_copy (items ! k)"
proof (induction items arbitrary: k)
  case (Cons i items)
  have "bit (of_bool b + 2 * m :: nat) k = (if k = 0 then b else bit m (k - 1))" for b m
    by (cases k) (auto simp: bit_0 bit_Suc)
  then show ?case by (cases k) (simp_all add: Cons)
qed simp

lemma lzjb_copy_expands:
  assumes "1 \<le> off" "off \<le> length out" "length out + k + m \<le> lsize"
  defines "cyc \<equiv> (\<lambda>k. out ! (length out - off + k mod off))"
  shows "lzjb_copy lsize m (length out - off + k) (out @ map cyc [0..<k]) = Inr (out @ map cyc [0..<k + m])"
  using assms(3)
proof (induction m arbitrary: k)
  case 0
  then show ?case by simp
next
  case (Suc m)
  have "nth_get (out @ map cyc [0..<k]) (length out - off + k) = Some (cyc k)"
  proof (cases "k < off")
    case True
    then show ?thesis
      using assms(1,2) by (simp add: nth_get_def nth_append cyc_def) arith
  next
    case False
    then have "(k - off) mod off = k mod off" by (simp add: le_mod_geq)
    then show ?thesis
      using False assms(1,2) by (auto simp: nth_get_def nth_append cyc_def)
  qed
  then show ?case using Suc.IH [of "Suc k"] Suc.prems by simp
qed

lemma lzjb_copy_lz:
  assumes "1 \<le> off" "off \<le> length out" "length (lz_apply out (LzCopy len off)) \<le> lsize"
  shows "lzjb_copy lsize len (length out - off) out = Inr (lz_apply out (LzCopy len off))"
  using lzjb_copy_expands [OF assms(1,2), of 0 len lsize] assms(3) by simp

lemma lzjb_control_bytes:
  assumes "3 \<le> len" "len \<le> 66" "off < 1024"
  defines "b0 \<equiv> of_nat ((len - 3) * 4 + off div 256)" and "b1 \<equiv> of_nat (off mod 256)"
  shows "lzjb_mlen b0 = len" and "lzjb_offset b0 b1 = off"
proof -
  have lt: "(len - 3) * 4 + off div 256 < 256" using assms(1-3) by simp
  then have b0: "unat b0 = (len - 3) * 4 + off div 256"
    by (simp add: b0_def unat_of_nat del: of_nat_add of_nat_mult)
  have b1: "unat b1 = off mod 256" by (simp add: b1_def unat_of_nat)
  have "off div 256 < 4" using assms(3) by simp
  then show "lzjb_mlen b0 = len" using assms(1) by (simp add: lzjb_mlen_def b0)
  have "unat b0 * 256 + unat b1 = (len - 3) * 1024 + off"
    by (simp add: b0 b1 algebra_simps)
  then show "lzjb_offset b0 b1 = off" using assms(3) by (simp add: lzjb_offset_def)
qed

lemma lzjb_item_decodes:
  assumes "lz_valid out (i # items)" "length (lz_apply out i) \<le> lsize"
  shows "lzjb_item (pre @ lz_item_bytes i @ post) lsize (lz_is_copy i) (length pre) out =
    Inr (length pre + length (lz_item_bytes i), lz_apply out i)"
proof (cases i)
  case (LzLit b)
  then show ?thesis by (simp add: lzjb_item_def nth_get_def)
next
  case (LzCopy len off)
  with assms(1) have ok: "3 \<le> len" "len \<le> 66" "1 \<le> off" "off \<le> length out" "off < 1024" by auto
  show ?thesis
    using ok assms(2)
    by (simp add: LzCopy lzjb_item_def nth_get_def nth_append checked_sub_def
      lzjb_control_bytes [OF ok(1,2,5)] lzjb_copy_lz [OF ok(3,4)] del: of_nat_add of_nat_mult lz_apply.simps)
qed

lemma bit_byte_of_nat: "bit (of_nat m :: u8) k \<longleftrightarrow> k < 8 \<and> bit m k"
  by transfer (simp add: bit_take_bit_iff bit_of_nat_iff_bit)

lemma lzjb_bit_test: "ucast (w :: u8) AND (push_bit j 1 :: u32) \<noteq> 0 \<longleftrightarrow> j < 8 \<and> bit w j"
proof -
  have "push_bit j (1 :: u32) = 2 ^ j" by (simp add: push_bit_eq_mult)
  moreover have "ucast w AND (2 ^ j :: u32) = 0 \<longleftrightarrow> \<not> bit (ucast w :: u32) j"
    by (rule and_exp_eq_0_iff_not_bit)
  moreover have "bit (ucast w :: u32) j \<longleftrightarrow> j < 8 \<and> bit w j"
    using bit_imp_le_length [of w j] by (auto simp: bit_unsigned_iff)
  ultimately show ?thesis by simp
qed

lemma lzjb_mask_wraps: "j \<le> 8 \<Longrightarrow> push_bit j (1 :: u32) = 256 \<longleftrightarrow> j = 8"
proof -
  assume "j \<le> 8"
  then have "j \<in> {0, 1, 2, 3, 4, 5, 6, 7, 8}" by auto
  then show ?thesis by (elim insertE) simp_all
qed

lemma lzjb_map_step:
  assumes "1 \<le> j" "j \<le> 8"
  shows "lzjb_map src si cm (push_bit (j - 1) 1) =
    (if j = 8 then rbind (ok_or (nth_get src si) (Decompress ''lzjb'' ''truncated copymap byte''))
       (\<lambda>b. Inr (si + 1, b, 1)) else Inr (si, cm, push_bit j 1))"
proof -
  have "push_bit 1 (push_bit (j - 1) 1) = (push_bit j 1 :: u32)"
    using assms(1) by (simp del: push_bit_of_1)
  then show ?thesis
    using lzjb_mask_wraps [OF assms(2)] by (simp add: lzjb_map_def Let_def del: push_bit_of_1)
qed

text \<open>One turn of the loop on the encoding of an item.\<close>

lemma lzjb_loop_item:
  assumes "lz_valid out (i # items)" and "length (lz_apply out i) \<le> n" and "src = pre @ lz_item_bytes i @ post"
    and "lzjb_map src si cm mk = Inr (length pre, cm', push_bit k 1)" and "k < 8" and "bit cm' k \<longleftrightarrow> lz_is_copy i"
  shows "lzjb_loop src n si cm mk out = lzjb_loop src n (length (pre @ lz_item_bytes i)) cm' (push_bit k 1) (lz_apply out i)"
proof -
  have "\<not> n \<le> length out" using assms(2) lz_apply_longer [OF assms(1)] by simp
  moreover have "lzjb_item src n (lz_is_copy i) (length pre) out = Inr (length (pre @ lz_item_bytes i), lz_apply out i)"
    using lzjb_item_decodes [OF assms(1,2), of pre post] by (simp add: assms(3))
  moreover have "(ucast cm' AND push_bit k (1 :: u32) \<noteq> 0) = lz_is_copy i" using lzjb_bit_test assms(5,6) by simp
  ultimately show ?thesis using assms(4) by (subst lzjb_loop.simps) (simp del: push_bit_of_1)
qed

lemma lzjb_loop_decodes:
  assumes "lz_valid out items" "1 \<le> j" "j \<le> 8" "src = pre @ lz_encode_from j items"
    and "\<And>i. i < length items \<Longrightarrow> i + j < 8 \<Longrightarrow> bit cm (j + i) \<longleftrightarrow> lz_is_copy (items ! i)"
  shows "lzjb_loop src (length (lz_expand out items)) (length pre) cm (push_bit (j - 1) 1) out =
    Inr (lz_expand out items)"
  using assms
proof (induction items arbitrary: out j cm pre)
  case Nil
  then show ?case by (subst lzjb_loop.simps) (simp add: lz_expand_def)
next
  case (Cons i items)
  let ?n = "length (lz_expand out (i # items))" and ?out = "lz_apply out i"
  have n: "length ?out \<le> ?n" by (simp add: lz_expand_Cons length_lz_expand)
  have valid: "lz_valid ?out items" using Cons.prems(1) by (rule lz_valid_tl)
  show ?case
  proof (cases "j = 8")
    case True
    let ?m = "of_nat (lz_map_nat (take 8 (i # items))) :: u8"
    have src: "src = (pre @ [?m]) @ lz_item_bytes i @ lz_encode_from 1 items"
      using Cons.prems(4) True by simp
    have bits: "bit ?m k \<longleftrightarrow> k < 8 \<and> k < Suc (length items) \<and> lz_is_copy ((i # items) ! k)" for k
      by (auto simp: bit_byte_of_nat lz_map_bit min_def nth_Cons' simp del: lz_map_nat.simps)
    have map: "lzjb_map src (length pre) cm (push_bit (j - 1) 1) = Inr (length (pre @ [?m]), ?m, push_bit 0 1)"
      using lzjb_map_step [OF Cons.prems(2,3)] True by (simp add: src nth_get_def nth_append)
    have "lzjb_loop src ?n (length ((pre @ [?m]) @ lz_item_bytes i)) ?m (push_bit (1 - 1) 1) ?out = Inr (lz_expand ?out items)"
      unfolding lz_expand_Cons using valid bits by (intro Cons.IH) (auto simp: src)
    then show ?thesis
      using lzjb_loop_item [OF Cons.prems(1) n src map] bits [of 0] by (simp add: lz_expand_Cons del: lz_map_nat.simps)
  next
    case False
    have src: "src = pre @ lz_item_bytes i @ lz_encode_from (Suc j) items"
      using Cons.prems(4) False by simp
    have j8: "j < 8" using False Cons.prems(3) by simp
    have map: "lzjb_map src (length pre) cm (push_bit (j - 1) 1) = Inr (length pre, cm, push_bit j 1)"
      using lzjb_map_step [OF Cons.prems(2,3)] False by simp
    have bits: "bit cm (Suc j + k) \<longleftrightarrow> lz_is_copy (items ! k)" if "k < length items" "k + Suc j < 8" for k
      using Cons.prems(5) [of "Suc k"] that by simp
    have "lzjb_loop src ?n (length (pre @ lz_item_bytes i)) cm (push_bit (Suc j - 1) 1) ?out = Inr (lz_expand ?out items)"
      unfolding lz_expand_Cons using valid j8 bits by (intro Cons.IH) (auto simp: src)
    then show ?thesis
      using lzjb_loop_item [OF Cons.prems(1) n src map j8] Cons.prems(5) [of 0] j8
      by (simp add: lz_expand_Cons del: push_bit_of_1)
  qed
qed

subsection \<open>ZLE runs and their encoding\<close>

datatype zle_run = ZleLits bytes | ZleZeros nat

fun zle_run_ok :: "zle_run \<Rightarrow> bool" where
  "zle_run_ok (ZleLits bs) = (1 \<le> length bs \<and> length bs \<le> 128)"
| "zle_run_ok (ZleZeros n) = (64 \<le> n \<and> n \<le> 191)"

fun zle_run_data :: "zle_run \<Rightarrow> bytes" where
  "zle_run_data (ZleLits bs) = bs"
| "zle_run_data (ZleZeros n) = replicate n 0"

fun zle_run_bytes :: "zle_run \<Rightarrow> bytes" where
  "zle_run_bytes (ZleLits bs) = of_nat (length bs - 1) # bs"
| "zle_run_bytes (ZleZeros n) = [of_nat (128 + (n - 64))]"

definition zle_encode :: "zle_run list \<Rightarrow> bytes" where
  "zle_encode runs = concat (map zle_run_bytes runs)"

definition zle_expand :: "zle_run list \<Rightarrow> bytes" where
  "zle_expand runs = concat (map zle_run_data runs)"

lemma and_0x80: "(of_nat n :: u8) AND 0x80 = 0 \<longleftrightarrow> \<not> bit n 7"
proof -
  have "(0x80 :: u8) = 2 ^ 7" by simp
  then show ?thesis by (simp only: and_exp_eq_0_iff_not_bit bit_byte_of_nat) simp
qed

lemma zle_loop_run:
  assumes "zle_run_ok r" "length out < lsize" "length (out @ zle_run_data r) \<le> lsize"
  shows "zle_loop (pre @ zle_run_bytes r @ post) lsize (length pre) out =
    zle_loop (pre @ zle_run_bytes r @ post) lsize (length (pre @ zle_run_bytes r)) (out @ zle_run_data r)"
proof (cases r)
  case (ZleLits bs)
  let ?c = "of_nat (length bs - 1) :: u8"
  have len: "1 \<le> length bs" "length bs \<le> 128" using assms(1) ZleLits by simp_all
  then have c: "unat ?c = length bs - 1" by (subst unat_of_nat) simp
  have bit: "?c AND 0x80 = 0" using len by (subst and_0x80) (simp add: bit_iff_odd)
  have end_eq: "length pre + 1 + (unat ?c + 1) = length pre + 1 + length bs" using len c by simp
  have "slice_get (pre @ [?c] @ bs @ post) (length (pre @ [?c])) (length (pre @ [?c]) + length bs) = Some bs"
    using slice_get_prefix [of bs "length bs" "pre @ [?c]" post] by simp
  then show ?thesis
    using assms(2,3) bit
    by (subst zle_loop.simps)
      (simp add: ZleLits nth_get_def nth_append Let_def push_capped_def end_eq [simplified] del: of_nat_diff)
next
  case (ZleZeros n)
  let ?c = "of_nat (128 + (n - 64)) :: u8"
  have n: "64 \<le> n" "n \<le> 191" using assms(1) ZleZeros by simp_all
  then have "(128 + (n - 64)) div 128 = 1" by (intro div_nat_eqI) auto
  then have bit: "?c AND 0x80 \<noteq> 0" by (subst and_0x80) (simp add: bit_iff_odd)
  have "?c - 0x80 = of_nat (n - 64)" by simp
  moreover have "unat (of_nat (n - 64) :: u8) = n - 64" using n by (subst unat_of_nat) simp
  ultimately have "unat (?c - 0x80) = n - 64" by simp
  then have run: "64 + unat (?c - 0x80) = n" using n by simp
  have "nth_get (pre @ [?c] @ post) (length pre) = Some ?c" by (simp add: nth_get_def nth_append)
  then show ?thesis
    using assms(2,3) bit
    by (subst zle_loop.simps)
      (simp add: ZleZeros run Let_def push_capped_def del: of_nat_add of_nat_diff)
qed

lemma zle_loop_decodes:
  assumes "list_all zle_run_ok runs" "src = pre @ zle_encode runs"
  shows "zle_loop src (length (out @ zle_expand runs)) (length pre) out = Inr (out @ zle_expand runs)"
  using assms
proof (induction runs arbitrary: pre out)
  case Nil
  then show ?case by (subst zle_loop.simps) (simp add: zle_expand_def)
next
  case (Cons r runs)
  have pos: "0 < length (zle_run_data r)" using Cons.prems(1) by (cases r) auto
  have src: "src = pre @ zle_run_bytes r @ zle_encode runs"
    using Cons.prems(2) by (simp add: zle_encode_def)
  have "zle_loop src (length (out @ zle_expand (r # runs))) (length pre) out =
      zle_loop src (length (out @ zle_expand (r # runs))) (length (pre @ zle_run_bytes r)) (out @ zle_run_data r)"
    unfolding src using Cons.prems(1) pos by (intro zle_loop_run) (auto simp: zle_expand_def)
  also have "\<dots> = Inr (out @ zle_expand (r # runs))"
    using Cons.IH [of "pre @ zle_run_bytes r" "out @ zle_run_data r"] Cons.prems
    by (simp add: src zle_expand_def)
  finally show ?case .
qed

subsection \<open>Properties\<close>

text \<open>
  Every codec but LZ4 yields exactly \<open>lsize\<close> bytes when it succeeds, and LZ4 at most
  \<open>lsize\<close> (its framing does not check that the stream fills the block).
\<close>

lemma decompress_output_size:
  assumes "codecs_bounded x" and "decompress x kind src lsize = Inr out"
  shows "length out \<le> lsize \<and> (kind \<noteq> CzLz4 \<longrightarrow> length out = lsize)"
  using assms decompress_length decompress_length_le by blast


text \<open>
  C34. LZJB decoding inverts the format's encoding: for every valid stream of literals and
  back-references (overlapping ones included), decoding its bytes to the length of its expansion
  succeeds with that expansion.
\<close>

theorem lzjb_round_trip:
  assumes "lz_valid [] items"
  shows "decompress_lzjb (lzjb_encode items) (length (lz_expand [] items)) = Inr (lz_expand [] items)"
  using lzjb_loop_decodes [OF assms, of 8 "lzjb_encode items" "[]" 0]
  by (simp add: decompress_lzjb_def lzjb_encode_def)

theorem lzjb_round_trip_witness:
  "decompress_lzjb [2, 65, 4, 1] 5 = Inr [65, 65, 65, 65, 65]"
proof -
  let ?items = "[LzLit 65, LzCopy 4 1]"
  have "lz_valid [] ?items" by simp
  then have "decompress_lzjb (lzjb_encode ?items) (length (lz_expand [] ?items)) = Inr (lz_expand [] ?items)"
    by (rule lzjb_round_trip)
  moreover have "lz_expand [] ?items = [65, 65, 65, 65, 65]"
    by (simp add: lz_expand_def upt_conv_Cons)
  moreover have "lzjb_encode ?items = [2, 65, 4, 1]" by (simp add: lzjb_encode_def)
  moreover have "length [65, 65, 65, 65, 65 :: u8] = 5" by simp
  ultimately show ?thesis by (simp only:)
qed

text \<open>
  ZLE decoding, as the code reads control bytes, inverts the encoding of literal runs of 1 to
  128 bytes and zero runs of 64 to 191 bytes.
\<close>

lemma zle_round_trip:
  assumes "list_all zle_run_ok runs"
  shows "decompress_zle (zle_encode runs) (length (zle_expand runs)) = Inr (zle_expand runs)"
  using zle_loop_decodes [OF assms, of "zle_encode runs" "[]" "[]"] by (simp add: decompress_zle_def)


end
