(* ===== verification/Zfs_Blkptr.thy ===== *)
theory Zfs_Blkptr
  imports Zfs_Bytes
begin

section \<open>Block pointers (core/src/blkptr.rs)\<close>

text \<open>
  The DVA and the 128-byte block pointer with their decoders and size accessors. The lemmas give
  the bounds the decoded sizes satisfy, the inversion of an encoder of the documented layout, and
  how the byteorder bit relates to \<^verbatim>\<open>detect_blkptr_endian\<close>.
\<close>

subsection \<open>Bit fields\<close>

text \<open>\<^verbatim>\<open>(w >> k) & 1 == 1\<close>; and what masking with the low \<open>n\<close> bits computes.\<close>

definition flag_bit :: "u64 \<Rightarrow> nat \<Rightarrow> bool" where
  "flag_bit w k = (drop_bit k w AND 1 = 1)"

lemma unat_and_mask: "m = mask n \<Longrightarrow> unat ((w :: 'a::len word) AND m) = unat w mod 2 ^ n"
  by (simp only: take_bit_eq_mask [symmetric] unsigned_take_bit_eq) (simp only: take_bit_eq_mod)

lemma unat_drop_bit: "unat (drop_bit k (w :: 'a::len word)) = unat w div 2 ^ k"
proof -
  have "take_bit LENGTH('a) (unat w) = unat w" by (rule take_bit_nat_eq_self) (rule unsigned_less)
  then show ?thesis by (simp only: unsigned_drop_bit_eq) (simp only: drop_bit_eq_div)
qed

lemma flag_bit_iff: "flag_bit w k \<longleftrightarrow> odd (unat w div 2 ^ k)"
proof -
  have "unat (drop_bit k w AND 1) = unat w div 2 ^ k mod 2"
    using unat_and_mask [of 1 1 "drop_bit k w"] by (simp add: unat_drop_bit)
  moreover have "drop_bit k w AND 1 = 1 \<longleftrightarrow> unat (drop_bit k w AND 1) = 1"
    by (metis unat_1 unsigned_word_eqI)
  ultimately show ?thesis by (simp add: flag_bit_def odd_iff_mod_2_eq_one)
qed

definition sat_inc32 :: "u32 \<Rightarrow> u32" where
  "sat_inc32 w = (if w = - 1 then w else w + 1)"

lemma unat_sat_inc32: "unat w < 2 ^ 32 - 1 \<Longrightarrow> unat (sat_inc32 w) = unat w + 1"
proof -
  assume lt: "unat w < 2 ^ 32 - 1"
  have "unat (- 1 :: u32) = 2 ^ 32 - 1" by (simp add: unsigned_minus_1_eq_mask mask_eq_exp_minus_1)
  with lt have "w \<noteq> - 1" by auto
  then show ?thesis using lt by (simp add: sat_inc32_def unat_word_ariths(1))
qed

subsection \<open>Data virtual addresses\<close>

record dva =
  dva_vdev :: u32
  dva_asize_sectors :: u32
  dva_offset_sectors :: u64
  dva_gang :: bool

definition dva_default :: dva where
  "dva_default = \<lparr>dva_vdev = 0, dva_asize_sectors = 0, dva_offset_sectors = 0, dva_gang = False\<rparr>"

definition BOOT_SKEW :: u64 where
  "BOOT_SKEW = 0x00400000"

definition BPE_PAYLOAD_SIZE :: usize where
  "BPE_PAYLOAD_SIZE = 112"

definition physical_byte_offset :: "dva \<Rightarrow> u64" where
  "physical_byte_offset d = sat_add64 (push_bit 9 (dva_offset_sectors d)) BOOT_SKEW"

definition dva_is_empty :: "dva \<Rightarrow> bool" where
  "dva_is_empty d = (dva_vdev d = 0 \<and> dva_asize_sectors d = 0 \<and> dva_offset_sectors d = 0)"

definition dva_parse :: "reader \<Rightarrow> bytes \<Rightarrow> usize \<Rightarrow> dva" where
  "dva_parse rd bp off =
     (let w0 = rd_u64 rd bp off; w1 = rd_u64 rd bp (off + 8) in
      \<lparr>dva_vdev = ucast (drop_bit 32 w0 AND 0x00ffffff),
       dva_asize_sectors = ucast (w0 AND 0x00ffffff),
       dva_offset_sectors = w1 AND 0x7fffffffffffffff,
       dva_gang = flag_bit w1 63\<rparr>)"

subsection \<open>The 128-byte block pointer\<close>

record blkptr =
  bp_dvas :: "dva list"
  bp_lsize_raw :: u32
  bp_psize_raw :: u32
  bp_compression :: u8
  bp_embedded :: bool
  bp_checksum :: u8
  bp_object_type :: u8
  bp_level :: u8
  bp_dedup :: bool
  bp_byteorder :: endian
  bp_logical_birth :: u64
  bp_fill :: u64
  bp_checksum_words :: "u64 list"
  bp_embedded_lsize :: u32
  bp_embedded_psize :: u32
  bp_embedded_payload :: bytes

definition blkptr_default :: blkptr where
  "blkptr_default = \<lparr>bp_dvas = replicate 3 dva_default, bp_lsize_raw = 0, bp_psize_raw = 0,
     bp_compression = 0, bp_embedded = False, bp_checksum = 0, bp_object_type = 0, bp_level = 0,
     bp_dedup = False, bp_byteorder = default, bp_logical_birth = 0, bp_fill = 0,
     bp_checksum_words = replicate 4 0, bp_embedded_lsize = 0, bp_embedded_psize = 0,
     bp_embedded_payload = replicate BPE_PAYLOAD_SIZE 0\<rparr>"

definition embedded_data :: "blkptr \<Rightarrow> bytes" where
  "embedded_data bp =
     (if bp_embedded bp then take (min (unat (bp_embedded_psize bp)) BPE_PAYLOAD_SIZE) (bp_embedded_payload bp)
      else [])"

definition lsize_bytes :: "blkptr \<Rightarrow> usize" where
  "lsize_bytes bp =
     (if bp_embedded bp then unat (bp_embedded_lsize bp)
      else sat_add (unat (bp_lsize_raw bp)) 1 * 2 ^ 9)"

definition psize_bytes :: "blkptr \<Rightarrow> usize" where
  "psize_bytes bp =
     (if bp_embedded bp then unat (bp_embedded_psize bp)
      else sat_add (unat (bp_psize_raw bp)) 1 * 2 ^ 9)"

definition is_hole :: "blkptr \<Rightarrow> bool" where
  "is_hole bp = (\<not> bp_embedded bp \<and> list_all dva_is_empty (bp_dvas bp))"

text \<open>
  One region of the embedded payload: copied over \<open>out\<close> at \<open>dst\<close> when the pointer holds it all.
\<close>

definition gather_region :: "bytes \<Rightarrow> bytes \<Rightarrow> usize \<times> usize \<times> usize \<Rightarrow> bytes" where
  "gather_region bp out region =
     (case region of (start, stop, dst) \<Rightarrow>
        (case slice_get bp start stop of
           None \<Rightarrow> out
         | Some seg \<Rightarrow> take dst out @ seg @ drop (dst + (stop - start)) out))"

definition gather_bpe_payload :: "bytes \<Rightarrow> bytes \<Rightarrow> bytes" where
  "gather_bpe_payload bp out = foldl (gather_region bp) out [(0, 48, 0), (56, 88, 48), (96, 128, 80)]"

definition blkptr_parse :: "bytes \<Rightarrow> endian \<Rightarrow> blkptr" where
  "blkptr_parse bp endian =
     (let rd = reader_new endian;
          prop = rd_u64 rd bp 48;
          embedded = flag_bit prop 39;
          byteorder = (if flag_bit prop 63 then Little else Big)
      in \<lparr>bp_dvas = (if embedded then replicate 3 dva_default
                     else map (\<lambda>i. dva_parse rd bp (i * 16)) [0..<3]),
          bp_lsize_raw = ucast (prop AND 0xffff),
          bp_psize_raw = ucast (drop_bit 16 prop AND 0xffff),
          bp_compression = ucast (drop_bit 32 prop AND 0x7f),
          bp_embedded = embedded,
          bp_checksum = ucast (drop_bit 40 prop AND 0xff),
          bp_object_type = ucast (drop_bit 48 prop AND 0xff),
          bp_level = ucast (drop_bit 56 prop AND 0x1f),
          bp_dedup = flag_bit prop 62,
          bp_byteorder = byteorder,
          bp_logical_birth = (if embedded then 0 else rd_u64 rd bp 80),
          bp_fill = (if embedded then 0 else rd_u64 rd bp 88),
          bp_checksum_words = (if embedded then replicate 4 0
                               else map (\<lambda>i. rd_u64 rd bp (96 + i * 8)) [0..<4]),
          bp_embedded_lsize =
            (if embedded then sat_inc32 (ucast (prop AND 0x01ffffff)) else 0),
          bp_embedded_psize =
            (if embedded then sat_inc32 (ucast (drop_bit 25 prop AND 0x7f)) else 0),
          bp_embedded_payload =
            (if embedded then gather_bpe_payload bp (replicate BPE_PAYLOAD_SIZE 0)
             else replicate BPE_PAYLOAD_SIZE 0)\<rparr>)"

definition detect_blkptr_endian :: "bytes \<Rightarrow> endian" where
  "detect_blkptr_endian bp =
     (let le_top = u8_at bp 55 in
      if le_top AND 0x80 \<noteq> 0 then Little
      else (let be_top = u8_at bp 48 in if be_top AND 0x80 \<noteq> 0 then Big else Little))"

subsection \<open>Bounds of decoded pointers\<close>

lemma unat_ucast_masked:
  "m = mask n \<Longrightarrow> n \<le> LENGTH('b::len) \<Longrightarrow> unat (ucast ((w :: 'a::len word) AND m) :: 'b word) = unat w mod 2 ^ n"
proof -
  assume m: "m = mask n" and n: "n \<le> LENGTH('b)"
  have "unat (w AND m) < 2 ^ n" using m by (simp add: unat_and_mask)
  also have "(2::nat) ^ n \<le> 2 ^ LENGTH('b)" using n by (rule power_increasing) simp
  finally show ?thesis
    using m by (simp add: unsigned_ucast_eq take_bit_nat_eq_self unat_and_mask)
qed

lemma mask_numerals:
  "(0xffff :: u64) = mask 16" "(0x7f :: u64) = mask 7" "(0xff :: u64) = mask 8"
  "(0x1f :: u64) = mask 5" "(0x01ffffff :: u64) = mask 25" "(0x00ffffff :: u64) = mask 24"
  "(0x7fffffffffffffff :: u64) = mask 63"
  by (simp_all add: mask_eq_exp_minus_1)

lemmas field_simps_bp = unat_ucast_masked [OF mask_numerals(1)] unat_ucast_masked [OF mask_numerals(2)]
  unat_ucast_masked [OF mask_numerals(3)] unat_ucast_masked [OF mask_numerals(4)]
  unat_ucast_masked [OF mask_numerals(5)] unat_ucast_masked [OF mask_numerals(6)] unat_drop_bit

lemma sat_add_word_1: "sat_add (unat (w :: u32)) (Suc 0) = unat w + 1"
proof -
  have "unat w < 2 ^ LENGTH(32)" by (rule unsigned_less)
  then show ?thesis by (simp add: sat_add_def usize_max_def)
qed

lemma lsize_bytes_parse: "1 \<le> lsize_bytes (blkptr_parse bp e)" "lsize_bytes (blkptr_parse bp e) \<le> 2 ^ 25"
proof -
  let ?p = "rd_u64 (reader_new e) bp 48"
  have raw: "unat (ucast (?p AND 0xffff) :: u32) < 2 ^ 16" by (simp add: field_simps_bp)
  have emb: "unat (ucast (?p AND 0x01ffffff) :: u32) < 2 ^ 25" by (simp add: field_simps_bp)
  then have "unat (sat_inc32 (ucast (?p AND 0x01ffffff))) = unat (ucast (?p AND 0x01ffffff) :: u32) + 1"
    by (intro unat_sat_inc32) simp
  with raw emb show "1 \<le> lsize_bytes (blkptr_parse bp e)" "lsize_bytes (blkptr_parse bp e) \<le> 2 ^ 25"
    by (simp_all add: lsize_bytes_def blkptr_parse_def Let_def sat_add_word_1)
qed

lemma psize_bytes_parse: "1 \<le> psize_bytes (blkptr_parse bp e)" "psize_bytes (blkptr_parse bp e) \<le> 2 ^ 25"
proof -
  let ?p = "rd_u64 (reader_new e) bp 48"
  have raw: "unat (ucast (drop_bit 16 ?p AND 0xffff) :: u32) < 2 ^ 16" by (simp add: field_simps_bp)
  have emb: "unat (ucast (drop_bit 25 ?p AND 0x7f) :: u32) < 2 ^ 7" by (simp add: field_simps_bp)
  then have "unat (sat_inc32 (ucast (drop_bit 25 ?p AND 0x7f))) = unat (ucast (drop_bit 25 ?p AND 0x7f) :: u32) + 1"
    by (intro unat_sat_inc32) simp
  with raw emb show "1 \<le> psize_bytes (blkptr_parse bp e)" "psize_bytes (blkptr_parse bp e) \<le> 2 ^ 25"
    by (simp_all add: psize_bytes_def blkptr_parse_def Let_def sat_add_word_1)
qed

lemma length_bp_dvas_parse [simp]: "length (bp_dvas (blkptr_parse bp e)) = 3"
  by (simp add: blkptr_parse_def Let_def)

lemma length_gather_region:
  "length out = 112 \<Longrightarrow> dst + (stop - start) \<le> 112 \<Longrightarrow>
     length (gather_region bp out (start, stop, dst)) = 112"
  by (auto simp: gather_region_def dest: slice_get_length split: option.splits)

lemma length_gather_bpe_payload: "length out = 112 \<Longrightarrow> length (gather_bpe_payload bp out) = 112"
  by (simp add: gather_bpe_payload_def length_gather_region)

lemma length_payload_parse [simp]: "length (bp_embedded_payload (blkptr_parse bp e)) = 112"
  by (simp add: blkptr_parse_def Let_def length_gather_bpe_payload BPE_PAYLOAD_SIZE_def)

text \<open>An all-zero or absent pointer decodes to a hole of one sector.\<close>

lemma rd_u64_zeros: "rd_u64 r (replicate n 0) off = 0"
  by (rule rd64.zeros)

lemma dva_parse_zeros: "dva_is_empty (dva_parse r (replicate n 0) off)"
  by (simp add: dva_parse_def dva_is_empty_def rd_u64_zeros Let_def)

lemma blkptr_parse_zeros:
  "is_hole (blkptr_parse (replicate n 0) e)" "lsize_bytes (blkptr_parse (replicate n 0) e) = 512"
  by (simp_all add: blkptr_parse_def Let_def is_hole_def lsize_bytes_def rd_u64_zeros flag_bit_iff
    dva_parse_zeros numeral_3_eq_3 sat_add_def usize_max_def)

text \<open>The physical byte of a DVA: the shift keeps 64 bits, the addition saturates.\<close>

lemma unat_sat_add64: "unat (sat_add64 a b) = min (unat a + unat b) (2 ^ 64 - 1)"
proof -
  have "unat (- 1 :: u64) = 2 ^ 64 - 1" by (simp add: unsigned_minus_1_eq_mask mask_eq_exp_minus_1)
  then show ?thesis by (simp add: sat_add64_def unat_word_ariths(1))
qed

lemma unat_push_bit: "unat (push_bit k (w :: 'a::len word)) = unat w * 2 ^ k mod 2 ^ LENGTH('a)"
  by (simp only: unsigned_push_bit_eq) (simp only: push_bit_eq_mult take_bit_eq_mod)

lemma unat_physical_byte_offset:
  "unat (physical_byte_offset d) =
     min (unat (dva_offset_sectors d) * 512 mod 2 ^ 64 + 0x400000) (2 ^ 64 - 1)"
  by (simp add: physical_byte_offset_def unat_sat_add64 unat_push_bit BOOT_SKEW_def)

subsection \<open>Packed fields\<close>

text \<open>
  \<open>bits k n x\<close> is the \<open>n\<close>-bit field of \<open>x\<close> at bit \<open>k\<close>; \<open>pack\<close> lays fields out from the low bit
  up, each given with its width.
\<close>

definition bits :: "nat \<Rightarrow> nat \<Rightarrow> nat \<Rightarrow> nat" where
  "bits k n x = x div 2 ^ k mod 2 ^ n"

fun pack :: "(nat \<times> nat) list \<Rightarrow> nat" where
  "pack [] = 0"
| "pack ((n, v) # fs) = v + 2 ^ n * pack fs"

definition packable :: "(nat \<times> nat) list \<Rightarrow> bool" where
  "packable fs = list_all (\<lambda>(n, v). v < 2 ^ n) fs"

lemma packable_simps [simp]:
  "packable []" "packable ((n, v) # fs) \<longleftrightarrow> v < 2 ^ n \<and> packable fs"
  by (simp_all add: packable_def)

lemma pack_bound: "packable fs \<Longrightarrow> pack fs < 2 ^ sum_list (map fst fs)"
proof (induction fs rule: pack.induct)
  case 1
  show ?case by simp
next
  case (2 n v fs)
  then have "v < 2 ^ n" and "Suc (pack fs) \<le> 2 ^ sum_list (map fst fs)" by auto
  then have "v + 2 ^ n * pack fs < 2 ^ n * Suc (pack fs)" by simp
  also have "\<dots> \<le> 2 ^ n * 2 ^ sum_list (map fst fs)"
    using \<open>Suc (pack fs) \<le> _\<close> by (rule mult_le_mono2)
  finally show ?case by (simp add: power_add)
qed

lemma bits_pack_here: "v < 2 ^ n \<Longrightarrow> bits 0 n (pack ((n, v) # fs)) = v"
  by (simp add: bits_def)

lemma bits_pack_skip: "v < 2 ^ n \<Longrightarrow> n \<le> k \<Longrightarrow> bits k m (pack ((n, v) # fs)) = bits (k - n) m (pack fs)"
proof -
  assume v: "v < 2 ^ n" and "n \<le> k"
  then have k: "(2::nat) ^ k = 2 ^ n * 2 ^ (k - n)" by (simp add: power_add [symmetric])
  have "(v + 2 ^ n * pack fs) div 2 ^ k = (v + 2 ^ n * pack fs) div 2 ^ n div 2 ^ (k - n)"
    by (simp only: k div_mult2_eq)
  also have "(v + 2 ^ n * pack fs) div 2 ^ n = pack fs" using v by simp
  finally show ?thesis by (simp add: bits_def)
qed

lemmas bits_pack = bits_pack_here bits_pack_skip
lemma bits_field:
  "m = mask n \<Longrightarrow> n \<le> LENGTH('b::len) \<Longrightarrow>
     unat (ucast ((w :: 'a::len word) AND m) :: 'b word) = bits 0 n (unat w)"
  by (simp add: unat_ucast_masked bits_def)

lemma bits_drop: "bits i n (unat (drop_bit k (w :: 'a::len word))) = bits (k + i) n (unat w)"
  by (simp add: unat_drop_bit bits_def div_mult2_eq power_add)

lemma bits_offset: "unat ((w :: u64) AND 0x7fffffffffffffff) = bits 0 63 (unat w)"
  using unat_and_mask [OF mask_numerals(7), of w] by (simp add: bits_def)

lemmas bits_fields = mask_numerals(1-6) [THEN bits_field] bits_offset bits_drop

lemma flag_bit_bits: "flag_bit w k \<longleftrightarrow> bits k 1 (unat w) = 1"
  by (simp add: flag_bit_iff bits_def odd_iff_mod_2_eq_one)

lemma word_of_pack: "packable fs \<Longrightarrow> sum_list (map fst fs) \<le> 64 \<Longrightarrow> unat (of_nat (pack fs) :: u64) = pack fs"
proof -
  assume "packable fs" "sum_list (map fst fs) \<le> 64"
  then have "pack fs < 2 ^ 64"
    using pack_bound [of fs] power_increasing [of "sum_list (map fst fs)" 64 "2::nat"] by linarith
  then show ?thesis by (simp add: unat_of_nat)
qed

subsection \<open>Encoding a pointer\<close>

text \<open>
  The encoder of the documented layout, as sixteen 64-bit words; \<open>pad\<close> are the three words (unused
  and physical birth) the decoder does not read.
\<close>

definition enc_words :: "endian \<Rightarrow> u64 list \<Rightarrow> bytes" where
  "enc_words e ws = concat (map (enc_bytes e 8) ws)"

lemma length_enc_words [simp]: "length (enc_words e ws) = 8 * length ws"
  by (induction ws) (simp_all add: enc_words_def)

lemma rd_enc_words:
  assumes "k < length ws"
  shows "rd_u64 (reader_new e) (enc_words e ws @ rest) (8 * k) = ws ! k"
proof -
  have "ws = take k ws @ ws ! k # drop (Suc k) ws" using assms by (rule id_take_nth_drop)
  then have "enc_words e ws = enc_words e (take k ws) @ enc_bytes e 8 (ws ! k) @ enc_words e (drop (Suc k) ws)"
    by (metis (no_types, lifting) concat.simps(2) concat_append enc_words_def list.simps(9) map_append)
  then show ?thesis
    using rd64.read_enc_at' [of "8 * k" "enc_words e (take k ws)" "reader_new e" "ws ! k"
      "enc_words e (drop (Suc k) ws) @ rest"] assms
    by simp
qed

definition dva_words :: "dva \<Rightarrow> u64 list" where
  "dva_words d =
     [of_nat (pack [(24, unat (dva_asize_sectors d)), (8, 0), (24, unat (dva_vdev d)), (8, 0)]),
      of_nat (pack [(63, unat (dva_offset_sectors d)), (1, of_bool (dva_gang d))])]"

definition wf_dva :: "dva \<Rightarrow> bool" where
  "wf_dva d \<longleftrightarrow> unat (dva_vdev d) < 2 ^ 24 \<and> unat (dva_asize_sectors d) < 2 ^ 24 \<and>
     unat (dva_offset_sectors d) < 2 ^ 63"

lemma dva_parse_words:
  assumes "wf_dva d" and "rd_u64 r s off = dva_words d ! 0" and "rd_u64 r s (off + 8) = dva_words d ! 1"
  shows "dva_parse r s off = d"
proof -
  let ?d = "dva_parse r s off"
  let ?f0 = "[(24, unat (dva_asize_sectors d)), (8, 0), (24, unat (dva_vdev d)), (8, 0)]"
  let ?f1 = "[(63, unat (dva_offset_sectors d)), (1, of_bool (dva_gang d))]"
  have p: "packable ?f0" "packable ?f1" using assms(1) by (simp_all add: wf_dva_def)
  have w: "unat (rd_u64 r s off) = pack ?f0" "unat (rd_u64 r s (off + 8)) = pack ?f1"
    using p by (simp_all add: assms(2,3) dva_words_def word_of_pack del: pack.simps)
  have wf: "unat (dva_vdev d) < 2 ^ 24" "unat (dva_asize_sectors d) < 2 ^ 24"
      "unat (dva_offset_sectors d) < 2 ^ 63"
    using assms(1) by (simp_all add: wf_dva_def)
  have "unat (dva_vdev ?d) = unat (dva_vdev d)" "unat (dva_asize_sectors ?d) = unat (dva_asize_sectors d)"
    "unat (dva_offset_sectors ?d) = unat (dva_offset_sectors d)" "dva_gang ?d = dva_gang d"
    using wf by (simp_all only: dva_parse_def Let_def dva.simps)
      (simp_all add: bits_fields flag_bit_bits w bits_pack del: pack.simps)
  then show ?thesis by (intro dva.equality unsigned_word_eqI) auto
qed

definition prop_fields :: "blkptr \<Rightarrow> (nat \<times> nat) list" where
  "prop_fields bp =
     [(16, unat (bp_lsize_raw bp)), (16, unat (bp_psize_raw bp)), (7, unat (bp_compression bp)), (1, 0),
      (8, unat (bp_checksum bp)), (8, unat (bp_object_type bp)), (5, unat (bp_level bp)), (1, 0),
      (1, of_bool (bp_dedup bp)), (1, of_bool (bp_byteorder bp = Little))]"

definition blkptr_words :: "u64 list \<Rightarrow> blkptr \<Rightarrow> u64 list" where
  "blkptr_words pad bp =
     concat (map dva_words (bp_dvas bp)) @ [of_nat (pack (prop_fields bp))] @ pad @
     [bp_logical_birth bp, bp_fill bp] @ bp_checksum_words bp"

definition blkptr_encode :: "endian \<Rightarrow> u64 list \<Rightarrow> blkptr \<Rightarrow> bytes" where
  "blkptr_encode e pad bp = enc_words e (blkptr_words pad bp)"

definition wf_blkptr :: "blkptr \<Rightarrow> bool" where
  "wf_blkptr bp \<longleftrightarrow> length (bp_dvas bp) = 3 \<and> list_all wf_dva (bp_dvas bp) \<and>
     unat (bp_lsize_raw bp) < 2 ^ 16 \<and> unat (bp_psize_raw bp) < 2 ^ 16 \<and>
     unat (bp_compression bp) < 2 ^ 7 \<and> unat (bp_level bp) < 2 ^ 5 \<and>
     length (bp_checksum_words bp) = 4 \<and> \<not> bp_embedded bp \<and> bp_embedded_lsize bp = 0 \<and>
     bp_embedded_psize bp = 0 \<and> bp_embedded_payload bp = replicate BPE_PAYLOAD_SIZE 0"

lemma word_eq_unatI: "unat v = unat w \<Longrightarrow> v = w"
  by (rule unsigned_word_eqI)

lemma packable_prop_fields: "wf_blkptr bp \<Longrightarrow> packable (prop_fields bp)"
  using byte_bound [of "bp_checksum bp"] byte_bound [of "bp_object_type bp"]
  by (simp add: prop_fields_def wf_blkptr_def)

lemma prop_word_fields:
  assumes "wf_blkptr bp" and "prop = of_nat (pack (prop_fields bp))"
  shows "ucast (prop AND 0xffff) = bp_lsize_raw bp"
    "ucast (drop_bit 16 prop AND 0xffff) = bp_psize_raw bp"
    "ucast (drop_bit 32 prop AND 0x7f) = bp_compression bp"
    "ucast (drop_bit 40 prop AND 0xff) = bp_checksum bp"
    "ucast (drop_bit 48 prop AND 0xff) = bp_object_type bp"
    "ucast (drop_bit 56 prop AND 0x1f) = bp_level bp"
    "flag_bit prop 39 = bp_embedded bp" "flag_bit prop 62 = bp_dedup bp"
    "flag_bit prop 63 \<longleftrightarrow> bp_byteorder bp = Little"
proof -
  have u: "unat prop = pack (prop_fields bp)"
    using packable_prop_fields [OF assms(1)] by (simp add: assms(2) word_of_pack prop_fields_def del: pack.simps)
  have wf: "unat (bp_lsize_raw bp) < 2 ^ 16" "unat (bp_psize_raw bp) < 2 ^ 16"
     "unat (bp_compression bp) < 2 ^ 7" "unat (bp_level bp) < 2 ^ 5"
     "unat (bp_checksum bp) < 2 ^ 8" "unat (bp_object_type bp) < 2 ^ 8" "\<not> bp_embedded bp"
    using assms(1) byte_bound [of "bp_checksum bp"] byte_bound [of "bp_object_type bp"]
    by (simp_all add: wf_blkptr_def)
  note unpack = bits_fields flag_bit_bits u prop_fields_def bits_pack
  show "ucast (prop AND 0xffff) = bp_lsize_raw bp"
    "ucast (drop_bit 16 prop AND 0xffff) = bp_psize_raw bp"
    "ucast (drop_bit 32 prop AND 0x7f) = bp_compression bp"
    "ucast (drop_bit 40 prop AND 0xff) = bp_checksum bp"
    "ucast (drop_bit 48 prop AND 0xff) = bp_object_type bp"
    "ucast (drop_bit 56 prop AND 0x1f) = bp_level bp"
    by (rule word_eq_unatI, use wf in \<open>simp add: unpack del: pack.simps\<close>)+
  show "flag_bit prop 39 = bp_embedded bp" "flag_bit prop 62 = bp_dedup bp"
    "flag_bit prop 63 \<longleftrightarrow> bp_byteorder bp = Little"
    by (use wf in \<open>simp add: unpack del: pack.simps\<close>)+
qed

lemma endian_if: "(if e = Little then Little else Big) = e"
  by (cases e) simp_all

lemma list_of_3: "length xs = 3 \<Longrightarrow> \<exists>a b c. xs = [a, b, c]"
  by (auto simp: length_Suc_conv numeral_3_eq_3)

lemma list_of_4: "length xs = 4 \<Longrightarrow> \<exists>a b c d. xs = [a, b, c, d]"
  by (auto simp: length_Suc_conv eval_nat_numeral)

lemma blkptr_parse_encode:
  assumes wf: "wf_blkptr bp" and pad: "length pad = 3"
  shows "blkptr_parse (blkptr_encode e pad bp @ rest) e = bp"
proof -
  let ?r = "reader_new e" and ?s = "blkptr_encode e pad bp @ rest" and ?w = "blkptr_words pad bp"
  obtain d0 d1 d2 where d: "bp_dvas bp = [d0, d1, d2]"
    using wf by (auto simp: wf_blkptr_def dest: list_of_3)
  then have wfd: "wf_dva d0" "wf_dva d1" "wf_dva d2" using wf by (simp_all add: wf_blkptr_def)
  obtain c0 c1 c2 c3 where c: "bp_checksum_words bp = [c0, c1, c2, c3]"
    using wf by (auto simp: wf_blkptr_def dest: list_of_4)
  obtain p0 p1 p2 where q: "pad = [p0, p1, p2]" using pad by (auto dest: list_of_3)
  have len: "length ?w = 16" by (simp add: blkptr_words_def d c q dva_words_def)
  have at: "rd_u64 ?r ?s (8 * k) = ?w ! k" if "k < 16" for k
    using that len by (simp add: blkptr_encode_def rd_enc_words)
  have w: "?w = dva_words d0 @ dva_words d1 @ dva_words d2 @ [of_nat (pack (prop_fields bp)), p0, p1, p2,
      bp_logical_birth bp, bp_fill bp, c0, c1, c2, c3]"
    by (simp add: blkptr_words_def d c q)
  have dvas: "dva_parse ?r ?s 0 = d0" "dva_parse ?r ?s 16 = d1" "dva_parse ?r ?s 32 = d2"
    using at [of 0] at [of 1] at [of 2] at [of 3] at [of 4] at [of 5] 
    by (auto intro!: dva_parse_words simp: wfd w dva_words_def)
  have words: "rd_u64 ?r ?s 48 = of_nat (pack (prop_fields bp))" "rd_u64 ?r ?s 80 = bp_logical_birth bp"
    "rd_u64 ?r ?s 88 = bp_fill bp" "rd_u64 ?r ?s 96 = c0" "rd_u64 ?r ?s 104 = c1" 
    "rd_u64 ?r ?s 112 = c2" "rd_u64 ?r ?s 120 = c3"
    using at [of 6] at [of 10] at [of 11] at [of 12] at [of 13] at [of 14] at [of 15]
    by (simp_all add: w dva_words_def)
  note f = prop_word_fields [OF wf refl]
  show ?thesis 
    using wf
    by (intro blkptr.equality)
      (simp_all add: blkptr_parse_def Let_def f wf_blkptr_def endian_if dvas words d c upt_rec split: endian.splits)
qed

definition sample_blkptr :: blkptr where
  "sample_blkptr = blkptr_default\<lparr>bp_lsize_raw := 7, bp_compression := 15, bp_object_type := 11,
     bp_level := 1, bp_byteorder := Big, bp_dvas := [dva_default\<lparr>dva_offset_sectors := 4096\<rparr>,
       dva_default, dva_default]\<rparr>"

lemma wf_sample_blkptr: "wf_blkptr sample_blkptr"
  by (simp add: sample_blkptr_def wf_blkptr_def blkptr_default_def wf_dva_def dva_default_def)

text \<open>
  C19. Decoding a block pointer inverts the encoder of the on-disk layout: every field of a
  non-embedded pointer whose values fit their bit fields comes back, in both byte orders, from 128
  bytes wherever they are followed by more.
\<close>

theorem blkptr_round_trip:
  "wf_blkptr bp \<Longrightarrow> length pad = 3 \<Longrightarrow> blkptr_parse (blkptr_encode e pad bp @ rest) e = bp"
  by (rule blkptr_parse_encode)

lemma blkptr_round_trip_witness:
  "wf_blkptr sample_blkptr \<and>
   blkptr_parse (blkptr_encode Little [1, 2, 3] sample_blkptr @ [0xff]) Little = sample_blkptr"
  using blkptr_round_trip [OF wf_sample_blkptr, of "[1, 2, 3]" Little "[0xff]"] wf_sample_blkptr by simp

subsection \<open>The byteorder probe\<close>

lemma high_bit_u8: "(b :: u8) AND 0x80 \<noteq> 0 \<longleftrightarrow> 128 \<le> unat b"
proof -
  have "b AND 0x80 = 0 \<longleftrightarrow> \<not> bit b 7"
  proof -
    have "(0x80 :: u8) = push_bit 7 1" by simp
    then show ?thesis
      by (metis and_exp_eq_0_iff_not_bit push_bit_of_1)
  qed
  also have "bit b 7 \<longleftrightarrow> odd (unat b div 2 ^ 7)"
    using bit_iff_odd [of "unat b" 7] by (simp add: bit_unsigned_iff del: bit_iff_odd)
  finally show ?thesis using byte_bound [of b] by (auto simp: odd_iff_mod_2_eq_one)
qed

lemma flag_63_last_byte:
  assumes "length bs = 8"
  shows "flag_bit (from_le_bytes bs) 63 \<longleftrightarrow> bs ! 7 AND 0x80 \<noteq> 0"
proof -
  have "bs = take 7 bs @ [bs ! 7]" using assms id_take_nth_drop [of 7 bs] by simp
  then have split7: "le_nat bs = le_nat (take 7 bs) + 256 ^ 7 * unat (bs ! 7)"
    using assms le_nat_append [of "take 7 bs" "[bs ! 7]"] by simp
  have lo: "le_nat (take 7 bs) < 256 ^ 7" using le_nat_bound [of "take 7 bs"] assms by simp
  have "le_nat bs div 2 ^ 63 = le_nat bs div 256 ^ 7 div 128" by (simp add: div_mult2_eq [symmetric])
  also have "le_nat bs div 256 ^ 7 = unat (bs ! 7)" using lo by (simp add: split7)
  finally have "unat (from_le_bytes bs :: u64) div 2 ^ 63 = unat (bs ! 7) div 128"
    using le_nat_bound [of bs] assms by (simp add: from_le_bytes_def unat_of_nat)
  then show ?thesis using byte_bound [of "bs ! 7"]
    by (auto simp: flag_bit_iff high_bit_u8 odd_iff_mod_2_eq_one)
qed

lemma u8_at_high_bit:
  assumes "off + 8 \<le> length raw"
  shows "u8_at raw (off + 7) AND 0x80 \<noteq> 0 \<longleftrightarrow> flag_bit (le_u64 raw off) 63"
    and "u8_at raw off AND 0x80 \<noteq> 0 \<longleftrightarrow> flag_bit (be_u64 raw off) 63"
proof -
  let ?b = "take 8 (drop off raw)"
  have len: "length ?b = 8" using assms by simp
  have le: "le_u64 raw off = from_le_bytes ?b" and be: "be_u64 raw off = from_le_bytes (rev ?b)"
    using assms by (simp_all add: le64.in_range be64.in_range from_le_bytes_def from_be_bytes_def)
  have b7: "?b ! 7 = u8_at raw (off + 7)" and b0: "rev ?b ! 7 = u8_at raw off"
    using assms by (simp_all add: u8_at_in rev_nth)
  show "u8_at raw (off + 7) AND 0x80 \<noteq> 0 \<longleftrightarrow> flag_bit (le_u64 raw off) 63"
    using flag_63_last_byte [OF len] by (simp only: le b7)
  show "u8_at raw off AND 0x80 \<noteq> 0 \<longleftrightarrow> flag_bit (be_u64 raw off) 63"
    using flag_63_last_byte [of "rev ?b"] len by (simp only: be b0 length_rev)
qed

text \<open>
  The probe answers \<^term>\<open>Big\<close> exactly when the property word read big-endian has the
  little-endian bit set and, read little-endian, has it clear.
\<close>

lemma detect_blkptr_endian_iff:
  "56 \<le> length raw \<Longrightarrow> detect_blkptr_endian raw = Big \<longleftrightarrow>
     bp_byteorder (blkptr_parse raw Little) = Big \<and> bp_byteorder (blkptr_parse raw Big) = Little"
  using u8_at_high_bit [of 48 raw]
  by (auto simp: detect_blkptr_endian_def blkptr_parse_def Let_def rd_u64_def reader_new_def)

lemma length_blkptr_encode:
  assumes "wf_blkptr bp" and "length pad = 3"
  shows "length (blkptr_encode e pad bp) = 128"
proof -
  have "length (concat (map dva_words ds)) = 2 * length ds" for ds
    by (induction ds) (simp_all add: dva_words_def)
  then show ?thesis using assms by (simp add: blkptr_encode_def blkptr_words_def wf_blkptr_def)
qed

text \<open>
  A pointer written in the order its own byteorder bit names is always probed as
  little-endian, big-endian pointers included: \<^term>\<open>Big\<close> needs a pointer whose bit
  contradicts its bytes.
\<close>

lemma detect_native_pointer:
  assumes "wf_blkptr bp" "length pad = 3" "bp_byteorder bp = e"
  shows "detect_blkptr_endian (blkptr_encode e pad bp @ rest) = Little"
proof -
  have len: "56 \<le> length (blkptr_encode e pad bp @ rest)"
    using assms by (simp add: length_blkptr_encode)
  show ?thesis
  proof (rule ccontr)
    assume "\<not> ?thesis"
    then have "detect_blkptr_endian (blkptr_encode e pad bp @ rest) = Big" 
      using endian.exhaust by blast
    then show False
      using blkptr_parse_encode [OF assms(1,2), of e rest] assms(3) len
      by (cases e) (simp_all add: detect_blkptr_endian_iff)
  qed
qed

lemma detect_native_pointer_witness:
  "wf_blkptr sample_blkptr \<and> detect_blkptr_endian (blkptr_encode Big [0, 0, 0] sample_blkptr @ []) = Little"
  using detect_native_pointer [of sample_blkptr "[0, 0, 0]" Big "[]"] wf_sample_blkptr
  by (simp add: sample_blkptr_def)

subsection \<open>Embedded payloads\<close>

lemma gather_region_exact:
  "length xs = dst \<Longrightarrow> length seg = n \<Longrightarrow> length pre = start \<Longrightarrow> n \<le> length ys \<Longrightarrow>
     gather_region (pre @ seg @ post) (xs @ ys) (start, start + n, dst) = xs @ seg @ drop n ys"
  using slice_get_prefix [of seg n pre post] by (simp add: gather_region_def)

lemma gather_bpe_payload_eq:
  assumes "length a = 48" "length p = 8" "length b = 32" "length q = 8" "length c = 32" "length z = 112"
  shows "gather_bpe_payload (a @ p @ b @ q @ c) z = a @ b @ c"
proof -
  let ?raw = "a @ p @ b @ q @ c"
  have r1: "gather_region ?raw z (0, 48, 0) = a @ drop 48 z"
    using gather_region_exact [of "[]" 0 a 48 "[]" 0 z "p @ b @ q @ c"] assms by simp
  have r2: "gather_region ?raw (a @ drop 48 z) (56, 88, 48) = (a @ b) @ drop 80 z"
    using gather_region_exact [of a 48 b 32 "a @ p" 56 "drop 48 z" "q @ c"] assms by simp
  have r3: "gather_region ?raw ((a @ b) @ drop 80 z) (96, 128, 80) = a @ b @ c"
    using gather_region_exact [of "a @ b" 80 c 32 "a @ p @ b @ q" 96 "drop 80 z" "[]"] assms by simp
  show ?thesis by (simp only: gather_bpe_payload_def foldl.simps r1 r2 r3)
qed

lemma embedded_data_parse:
  assumes "length a = 48" "length p = 8" "length b = 32" "length q = 8" "length c = 32"
    and "flag_bit (dec_bytes e p) 39"
  shows "embedded_data (blkptr_parse (a @ p @ b @ q @ c) e) =
     take (bits 25 7 (unat (dec_bytes e p :: u64)) + 1) (a @ b @ c)"
    and "lsize_bytes (blkptr_parse (a @ p @ b @ q @ c) e) = bits 0 25 (unat (dec_bytes e p :: u64)) + 1"
proof -
  let ?raw = "a @ p @ b @ q @ c"
  have wd: "rd_u64 (reader_new e) ?raw 48 = dec_bytes e p"
    using rd64.in_range [of 48 ?raw "reader_new e"] assms by simp
  have ps: "unat (ucast (drop_bit 25 (dec_bytes e p :: u64) AND 0x7f) :: u32) = bits 25 7 (unat (dec_bytes e p :: u64))"
    and ls: "unat (ucast ((dec_bytes e p :: u64) AND 0x01ffffff) :: u32) = bits 0 25 (unat (dec_bytes e p :: u64))"
    by (simp_all add: bits_fields)
  have bd: "bits 25 7 n < 2 ^ 7" "bits 0 25 n < 2 ^ 25" for n by (simp_all add: bits_def)
  have inc: "unat (sat_inc32 (ucast (drop_bit 25 (dec_bytes e p :: u64) AND 0x7f))) =
      bits 25 7 (unat (dec_bytes e p :: u64)) + 1"
    "unat (sat_inc32 (ucast ((dec_bytes e p :: u64) AND 0x01ffffff))) = bits 0 25 (unat (dec_bytes e p :: u64)) + 1"
    using bd [of "unat (dec_bytes e p :: u64)"] ps ls
      unat_sat_inc32 [of "ucast (drop_bit 25 (dec_bytes e p :: u64) AND 0x7f)"]
      unat_sat_inc32 [of "ucast ((dec_bytes e p :: u64) AND 0x01ffffff)"]
    by simp_all
  show "lsize_bytes (blkptr_parse ?raw e) = bits 0 25 (unat (dec_bytes e p :: u64)) + 1"
    using assms(6) inc by (simp add: lsize_bytes_def blkptr_parse_def Let_def wd)
  show "embedded_data (blkptr_parse ?raw e) = take (bits 25 7 (unat (dec_bytes e p :: u64)) + 1) (a @ b @ c)"
    using assms inc
    by (simp add: embedded_data_def blkptr_parse_def Let_def wd BPE_PAYLOAD_SIZE_def
      gather_bpe_payload_eq min_def)
qed

text \<open>
  The inline payload of an embedded pointer is gathered from its three regions around the
  property and birth words, cut to its physical size, and its logical size is read from the wide
  25-bit field.
\<close>

lemma embedded_payload_gathered:
  assumes "length a = 48" "length p = 8" "length b = 32" "length q = 8" "length c = 32"
    and "flag_bit (dec_bytes e p) 39"
  shows "embedded_data (blkptr_parse (a @ p @ b @ q @ c) e) =
       take (bits 25 7 (unat (dec_bytes e p :: u64)) + 1) (a @ b @ c) \<and>
     lsize_bytes (blkptr_parse (a @ p @ b @ q @ c) e) = bits 0 25 (unat (dec_bytes e p :: u64)) + 1"
  using embedded_data_parse [OF assms] by simp

end
