(* ===== verification/Zfs_Dmu.thy ===== *)
theory Zfs_Dmu
  imports Zfs_Error
begin

section \<open>DMU object types (core/src/dmu.rs)\<close>

text \<open>
  The object-type enum with its two conversions; it satisfies the \<open>raw_enum\<close> contract the on-disk
  enums share, so an unknown value is never lost.
\<close>

datatype dmu_type =
    OtNone
  | OtObjectDirectory
  | OtObjectArray
  | OtPackedNvlist
  | OtBpobj
  | OtSpaceMap
  | OtDnode
  | OtObjset
  | OtDslDir
  | OtDslDirChildMap
  | OtDslDataset
  | OtZnode
  | OtPlainFileContents
  | OtDirectoryContents
  | OtMasterNode
  | OtSa
  | OtOther u8

definition dmu_from_raw :: "u8 \<Rightarrow> dmu_type" where
  "dmu_from_raw v =
     (if v = 0 then OtNone
      else if v = 1 then OtObjectDirectory
      else if v = 2 then OtObjectArray
      else if v = 3 then OtPackedNvlist
      else if v = 5 then OtBpobj
      else if v = 8 then OtSpaceMap
      else if v = 10 then OtDnode
      else if v = 11 then OtObjset
      else if v = 12 then OtDslDir
      else if v = 13 then OtDslDirChildMap
      else if v = 16 then OtDslDataset
      else if v = 17 then OtZnode
      else if v = 19 then OtPlainFileContents
      else if v = 20 then OtDirectoryContents
      else if v = 21 then OtMasterNode
      else if v = 44 then OtSa
      else OtOther v)"

fun dmu_raw :: "dmu_type \<Rightarrow> u8" where
  "dmu_raw OtNone = 0"
| "dmu_raw OtObjectDirectory = 1"
| "dmu_raw OtObjectArray = 2"
| "dmu_raw OtPackedNvlist = 3"
| "dmu_raw OtBpobj = 5"
| "dmu_raw OtSpaceMap = 8"
| "dmu_raw OtDnode = 10"
| "dmu_raw OtObjset = 11"
| "dmu_raw OtDslDir = 12"
| "dmu_raw OtDslDirChildMap = 13"
| "dmu_raw OtDslDataset = 16"
| "dmu_raw OtZnode = 17"
| "dmu_raw OtPlainFileContents = 19"
| "dmu_raw OtDirectoryContents = 20"
| "dmu_raw OtMasterNode = 21"
| "dmu_raw OtSa = 44"
| "dmu_raw (OtOther v) = v"

interpretation dmu_enum: raw_enum dmu_from_raw dmu_raw
  by unfold_locales (simp add: dmu_from_raw_def)

end
