(* ===== verification/Zfs_Dnode.thy ===== *)
theory Zfs_Dnode
  imports Zfs_Blkptr
begin

section \<open>Dnodes (core/src/dnode.rs)\<close>

text \<open>
  The DMU object descriptor and its decoder. The lemmas show that a lying block-pointer count or
  bonus length never makes the decoder leave the dnode's slots, and that a dnode laid out as
  documented decodes to its pointers and bonus.
\<close>

definition DNODE_SIZE :: usize where "DNODE_SIZE = 512"
definition DNODE_CORE_SIZE :: usize where "DNODE_CORE_SIZE = 64"
definition BLKPTR_SIZE :: usize where "BLKPTR_SIZE = 128"

lemmas dnode_sizes = DNODE_SIZE_def DNODE_CORE_SIZE_def BLKPTR_SIZE_def

record dnode =
  dn_type :: u8
  dn_indblkshift :: u8
  dn_nlevels :: u8
  dn_nblkptr :: u8
  dn_bonustype :: u8
  dn_checksum :: u8
  dn_compress :: u8
  dn_flags :: u8
  dn_datablkszsec :: u16
  dn_bonuslen :: u16
  dn_extra_slots :: u8
  dn_maxblkid :: u64
  dn_used :: u64
  dn_endian :: endian
  dn_blkptrs :: "blkptr list"
  dn_bonus :: bytes

definition data_block_size :: "dnode \<Rightarrow> usize" where
  "data_block_size dn = unat (dn_datablkszsec dn) * 2 ^ 9"

definition indirect_block_size :: "dnode \<Rightarrow> usize" where
  "indirect_block_size dn = 2 ^ min (unat (dn_indblkshift dn)) 24"

definition dnode_blkptr :: "dnode \<Rightarrow> usize \<Rightarrow> blkptr option" where
  "dnode_blkptr dn i = nth_get (dn_blkptrs dn) i"

text \<open>The pointer loop, with its \<^verbatim>\<open>break\<close> at the first pointer outside the buffer.\<close>

fun dnode_blkptr_loop :: "bytes \<Rightarrow> endian \<Rightarrow> usize list \<Rightarrow> blkptr list" where
  "dnode_blkptr_loop raw e [] = []"
| "dnode_blkptr_loop raw e (i # is) =
     (let off = DNODE_CORE_SIZE + i * BLKPTR_SIZE in
      case slice_get raw off (off + BLKPTR_SIZE) of
        Some bp \<Rightarrow> blkptr_parse bp e # dnode_blkptr_loop raw e is
      | None \<Rightarrow> [])"

text \<open>The intermediate sizes of the decoder, each as it is computed there.\<close>

definition dnode_total_bytes :: "bytes \<Rightarrow> usize" where
  "dnode_total_bytes raw = sat_add (unat (u8_at raw 12)) 1 * DNODE_SIZE"

definition dnode_nblkptr :: "bytes \<Rightarrow> usize" where
  "dnode_nblkptr raw =
     (let tail_bytes = dnode_total_bytes raw - DNODE_CORE_SIZE;
          max_blkptrs = tail_bytes div BLKPTR_SIZE
      in min (unat (u8_at raw 3)) max_blkptrs)"

definition dnode_bonus_bytes :: "bytes \<Rightarrow> endian \<Rightarrow> bytes" where
  "dnode_bonus_bytes raw e =
     (let bonus_off = DNODE_CORE_SIZE + dnode_nblkptr raw * BLKPTR_SIZE;
          bonus_avail = dnode_total_bytes raw - bonus_off;
          bonus_len = min (unat (rd_u16 (reader_new e) raw 10)) bonus_avail
      in case slice_get raw bonus_off (bonus_off + bonus_len) of None \<Rightarrow> [] | Some b \<Rightarrow> b)"

definition dnode_parse :: "bytes \<Rightarrow> endian \<Rightarrow> dnode option" where
  "dnode_parse raw e =
     (if length raw < DNODE_CORE_SIZE then None
      else let rd = reader_new e
      in Some \<lparr>dn_type = u8_at raw 0, dn_indblkshift = u8_at raw 1, dn_nlevels = u8_at raw 2,
           dn_nblkptr = u8_at raw 3, dn_bonustype = u8_at raw 4, dn_checksum = u8_at raw 5,
           dn_compress = u8_at raw 6, dn_flags = u8_at raw 7, dn_datablkszsec = rd_u16 rd raw 8,
           dn_bonuslen = rd_u16 rd raw 10, dn_extra_slots = u8_at raw 12, dn_maxblkid = rd_u64 rd raw 16,
           dn_used = rd_u64 rd raw 24, dn_endian = e,
           dn_blkptrs = dnode_blkptr_loop raw e [0..<dnode_nblkptr raw],
           dn_bonus = dnode_bonus_bytes raw e\<rparr>)"

lemma data_block_size_bound: "data_block_size dn < 2 ^ 25"
proof -
  have "unat (dn_datablkszsec dn) < 2 ^ LENGTH(16)" by (rule unsigned_less)
  then show ?thesis by (simp add: data_block_size_def)
qed

lemma indirect_block_size_bound: "indirect_block_size dn \<le> 2 ^ 24" "1 \<le> indirect_block_size dn"
proof -
  have "(2::nat) ^ min (unat (dn_indblkshift dn)) 24 \<le> 2 ^ 24" by (rule power_increasing) simp_all
  then show "indirect_block_size dn \<le> 2 ^ 24" by (simp add: indirect_block_size_def)
qed (simp add: indirect_block_size_def)

lemma length_dnode_blkptr_loop: "length (dnode_blkptr_loop raw e is) \<le> length is"
  by (induction "is") (auto simp: Let_def split: option.splits)

lemma dnode_blkptr_loop_parsed:
  "list_all (\<lambda>bp. \<exists>b. bp = blkptr_parse b e) (dnode_blkptr_loop raw e is)"
  by (induction "is") (auto simp: Let_def split: option.splits)

lemma sat_add_byte_1: "sat_add (unat (w :: u8)) (Suc 0) = unat w + 1"
  using byte_bound [of w] by (simp add: sat_add_def usize_max_def)

lemma dnode_parse_None_iff: "dnode_parse raw e = None \<longleftrightarrow> length raw < 64"
  by (simp add: dnode_parse_def Let_def dnode_sizes)

text \<open>The decoded part never leaves the dnode's slots.\<close>

definition dnode_fits :: "dnode \<Rightarrow> bool" where
  "dnode_fits dn \<longleftrightarrow>
     length (dn_blkptrs dn) \<le> unat (dn_nblkptr dn) \<and>
     length (dn_bonus dn) \<le> unat (dn_bonuslen dn) \<and>
     64 + 128 * length (dn_blkptrs dn) + length (dn_bonus dn) \<le> 512 * (unat (dn_extra_slots dn) + 1)"

lemma dnode_total_bytes_eq: "dnode_total_bytes raw = 512 * (unat (u8_at raw 12) + 1)"
  by (simp add: dnode_total_bytes_def dnode_sizes sat_add_byte_1)

lemma dnode_nblkptr_bounds:
  "dnode_nblkptr raw \<le> unat (u8_at raw 3)" "64 + 128 * dnode_nblkptr raw \<le> dnode_total_bytes raw"
proof -
  show "dnode_nblkptr raw \<le> unat (u8_at raw 3)" by (simp add: dnode_nblkptr_def Let_def)
  have "dnode_nblkptr raw \<le> (dnode_total_bytes raw - 64) div 128"
    by (simp add: dnode_nblkptr_def Let_def dnode_sizes)
  then have "128 * dnode_nblkptr raw \<le> dnode_total_bytes raw - 64" by linarith
  moreover have "64 \<le> dnode_total_bytes raw" by (simp add: dnode_total_bytes_eq)
  ultimately show "64 + 128 * dnode_nblkptr raw \<le> dnode_total_bytes raw" by linarith
qed

lemma length_dnode_bonus_bytes:
  "length (dnode_bonus_bytes raw e) \<le>
     min (unat (rd_u16 (reader_new e) raw 10)) (dnode_total_bytes raw - (64 + 128 * dnode_nblkptr raw))"
  by (auto simp: dnode_bonus_bytes_def Let_def dnode_sizes mult.commute
    dest: slice_get_length split: option.splits)

lemma dnode_parse_fields:
  assumes "dnode_parse raw e = Some dn"
  shows "dn_blkptrs dn = dnode_blkptr_loop raw e [0..<dnode_nblkptr raw]"
    "dn_bonus dn = dnode_bonus_bytes raw e" "dn_nblkptr dn = u8_at raw 3"
    "dn_bonuslen dn = rd_u16 (reader_new e) raw 10" "dn_extra_slots dn = u8_at raw 12" "dn_endian dn = e"
  using assms by (auto simp: dnode_parse_def Let_def split: if_splits)

lemma dnode_parse_fits:
  assumes "dnode_parse raw e = Some dn"
  shows "dnode_fits dn"
proof -
  have "length (dnode_blkptr_loop raw e [0..<dnode_nblkptr raw]) \<le> dnode_nblkptr raw"
    using length_dnode_blkptr_loop [of raw e "[0..<dnode_nblkptr raw]"] by simp
  with dnode_nblkptr_bounds [of raw] length_dnode_bonus_bytes [of raw e] show ?thesis
    unfolding dnode_fits_def dnode_parse_fields [OF assms] dnode_total_bytes_eq by linarith
qed

text \<open>
  A dnode laid out as documented: the 64-byte core, the encoded pointers (each with its padding
  words), then the bonus buffer and whatever follows.
\<close>

fun encode_ptrs :: "endian \<Rightarrow> (u64 list \<times> blkptr) list \<Rightarrow> bytes" where
  "encode_ptrs e [] = []"
| "encode_ptrs e ((pad, bp) # ptrs) = blkptr_encode e pad bp @ encode_ptrs e ptrs"

definition dnode_layout :: "endian \<Rightarrow> bytes \<Rightarrow> (u64 list \<times> blkptr) list \<Rightarrow> bytes \<Rightarrow> bytes" where
  "dnode_layout e core ptrs tail = core @ encode_ptrs e ptrs @ tail"

definition wf_ptrs :: "(u64 list \<times> blkptr) list \<Rightarrow> bool" where
  "wf_ptrs ptrs = list_all (\<lambda>(pad, bp). length pad = 3 \<and> wf_blkptr bp) ptrs"

lemma length_encoded_ptrs:
  "wf_ptrs ptrs \<Longrightarrow> length (encode_ptrs e ptrs) = 128 * length ptrs"
  by (induction ptrs) (auto simp: wf_ptrs_def length_blkptr_encode)

lemma dnode_blkptr_loop_layout:
  assumes "wf_ptrs ptrs" and "length pre = 64 + 128 * k"
  shows "dnode_blkptr_loop (pre @ encode_ptrs e ptrs @ tail) e
    [k..<k + length ptrs] = map snd ptrs"
  using assms
proof (induction ptrs arbitrary: pre k)
  case Nil
  then show ?case by simp
next
  case (Cons p ptrs)
  obtain pad bp where p: "p = (pad, bp)" by (cases p)
  with Cons.prems have wf: "length pad = 3" "wf_blkptr bp" "wf_ptrs ptrs" by (simp_all add: wf_ptrs_def)
  let ?b = "blkptr_encode e pad bp"
  let ?rest = "encode_ptrs e ptrs @ tail"
  have len: "length ?b = 128" using wf by (simp add: length_blkptr_encode)
  have here: "slice_get (pre @ ?b @ ?rest) (64 + k * 128) (64 + k * 128 + 128) = Some ?b"
    using slice_get_prefix [OF len, of pre ?rest] Cons.prems(2) by (simp add: mult.commute)
  have parsed: "blkptr_parse ?b e = bp" using blkptr_parse_encode [OF wf(2,1), of e "[]"] by simp
  have "dnode_blkptr_loop ((pre @ ?b) @ ?rest) e [Suc k..<Suc k + length ptrs] = map snd ptrs"
    using Cons.IH [OF wf(3), of "pre @ ?b" "Suc k"] len Cons.prems(2) by simp
  then show ?case
    using here parsed by (simp add: p upt_conv_Cons Let_def dnode_sizes del: upt_Suc)
qed

lemma dnode_parse_layout:
  assumes "length core = 64" and "wf_ptrs ptrs" and "unat (core ! 3) = length ptrs"
    and "bl = unat (rd_u16 (reader_new e) core 10)"
    and "64 + 128 * length ptrs + bl \<le> 512 * (unat (core ! 12) + 1)" and "length bonus = bl"
  shows "map_option dn_blkptrs (dnode_parse (dnode_layout e core ptrs (bonus @ rest)) e) = Some (map snd ptrs)"
    and "map_option dn_bonus (dnode_parse (dnode_layout e core ptrs (bonus @ rest)) e) = Some bonus"
proof -
  let ?raw = "dnode_layout e core ptrs (bonus @ rest)"
  let ?ps = "encode_ptrs e ptrs"
  have raw: "?raw = core @ ?ps @ bonus @ rest" by (simp add: dnode_layout_def)
  have b: "u8_at ?raw 3 = core ! 3" "u8_at ?raw 12 = core ! 12" "rd_u16 (reader_new e) ?raw 10 = rd_u16 (reader_new e) core 10"
    using assms(1) by (simp_all add: raw rd16.append_left)
  have total: "dnode_total_bytes ?raw = 512 * (unat (core ! 12) + 1)" by (simp add: dnode_total_bytes_eq b)
  have "length ptrs \<le> (dnode_total_bytes ?raw - 64) div 128" using assms(5) unfolding total by linarith
  then have n: "dnode_nblkptr ?raw = length ptrs"
    by (simp add: dnode_nblkptr_def Let_def dnode_sizes b assms(3))
  have "length (core @ ?ps) = 64 + 128 * length ptrs" using assms by (simp add: length_encoded_ptrs)
  then have "slice_get ?raw (64 + 128 * length ptrs) (64 + 128 * length ptrs + bl) = Some bonus"
    using slice_get_prefix [OF assms(6), of "core @ ?ps" rest] by (simp add: raw)
  moreover have "min bl (dnode_total_bytes ?raw - (64 + 128 * length ptrs)) = bl"
    using assms(5) unfolding total by linarith
  ultimately have "dnode_bonus_bytes ?raw e = bonus"
    by (simp add: dnode_bonus_bytes_def Let_def dnode_sizes n b assms(4) mult.commute)
  moreover have "dnode_blkptr_loop ?raw e [0..<dnode_nblkptr ?raw] = map snd ptrs"
    using dnode_blkptr_loop_layout [OF assms(2), of core 0 e "bonus @ rest"] assms(1) by (simp add: n) (simp add: raw)
  ultimately show "map_option dn_blkptrs (dnode_parse ?raw e) = Some (map snd ptrs)"
    and "map_option dn_bonus (dnode_parse ?raw e) = Some bonus"
    using assms(1) by (auto simp: dnode_parse_def Let_def dnode_sizes raw)
qed

definition sample_core :: bytes where
  "sample_core = [10, 14, 1, 2, 0, 0, 0, 0, 32, 0, 3, 0, 0] @ replicate 51 0"

text \<open>
  A dnode laid out as documented, with its pointers and bonus inside its slots, decodes to
  exactly those pointers and that bonus, whatever follows it in the block.
\<close>

lemma dnode_parse_layout_exact:
  assumes "length core = 64" and "wf_ptrs ptrs" and "unat (core ! 3) = length ptrs"
    and "length bonus = unat (rd_u16 (reader_new e) core 10)"
    and "64 + 128 * length ptrs + length bonus \<le> 512 * (unat (core ! 12) + 1)"
  shows "\<exists>dn. dnode_parse (dnode_layout e core ptrs (bonus @ rest)) e = Some dn \<and>
    dn_blkptrs dn = map snd ptrs \<and> dn_bonus dn = bonus"
  using dnode_parse_layout [OF assms(1-3) assms(4), of bonus rest] assms(5) by auto

lemma dnode_parse_layout_exact_witness:
  "\<exists>dn. dnode_parse (dnode_layout Little sample_core
      [([0, 0, 0], sample_blkptr), ([1, 1, 1], sample_blkptr)] ([5, 6, 7] @ [])) Little = Some dn \<and>
    dn_blkptrs dn = [sample_blkptr, sample_blkptr] \<and> dn_bonus dn = [5, 6, 7]"
proof -
  have "rd_u16 (reader_new Little) sample_core 10 = 3"
    by (simp add: sample_core_def rd16.in_range dec_bytes_def from_le_bytes_def)
  then show ?thesis
    using dnode_parse_layout_exact [of sample_core "[([0, 0, 0], sample_blkptr), ([1, 1, 1], sample_blkptr)]"
        "[5, 6, 7]" Little "[]"] wf_sample_blkptr
    by (simp add: wf_ptrs_def sample_core_def)
qed

subsection \<open>Encoding\<close>

definition dnode_core :: "dnode \<Rightarrow> bytes" where
  "dnode_core dn = (let e = dn_endian dn in
     [dn_type dn, dn_indblkshift dn, dn_nlevels dn, dn_nblkptr dn, dn_bonustype dn, dn_checksum dn, dn_compress dn, dn_flags dn] @
     enc_bytes e 2 (dn_datablkszsec dn) @ enc_bytes e 2 (dn_bonuslen dn) @ [dn_extra_slots dn, 0, 0, 0] @
     enc_bytes e 8 (dn_maxblkid dn) @ enc_bytes e 8 (dn_used dn) @ replicate 32 0)"

definition dnode_encode :: "u64 list list \<Rightarrow> dnode \<Rightarrow> bytes \<Rightarrow> bytes" where
  "dnode_encode pads dn rest =
     dnode_layout (dn_endian dn) (dnode_core dn) (zip pads (dn_blkptrs dn)) (dn_bonus dn @ rest)"

definition wf_dnode :: "dnode \<Rightarrow> bool" where
  "wf_dnode dn \<longleftrightarrow> unat (dn_nblkptr dn) = length (dn_blkptrs dn) \<and> unat (dn_bonuslen dn) = length (dn_bonus dn) \<and>
     list_all wf_blkptr (dn_blkptrs dn) \<and>
     64 + 128 * length (dn_blkptrs dn) + length (dn_bonus dn) \<le> 512 * (unat (dn_extra_slots dn) + 1)"

definition wf_pads :: "u64 list list \<Rightarrow> dnode \<Rightarrow> bool" where
  "wf_pads pads dn \<longleftrightarrow> length pads = length (dn_blkptrs dn) \<and> list_all (\<lambda>p. length p = 3) pads"

lemma length_dnode_core: "length (dnode_core dn) = 64"
  by (simp add: dnode_core_def Let_def)

lemma dnode_core_bytes:
  "u8_at (dnode_core dn) 0 = dn_type dn" "u8_at (dnode_core dn) 1 = dn_indblkshift dn"
  "u8_at (dnode_core dn) 2 = dn_nlevels dn" "u8_at (dnode_core dn) 3 = dn_nblkptr dn"
  "u8_at (dnode_core dn) 4 = dn_bonustype dn" "u8_at (dnode_core dn) 5 = dn_checksum dn"
  "u8_at (dnode_core dn) 6 = dn_compress dn" "u8_at (dnode_core dn) 7 = dn_flags dn"
  "u8_at (dnode_core dn) 12 = dn_extra_slots dn"
  by (simp_all add: dnode_core_def Let_def u8_at_def nth_get_def nth_append)

lemma length_dnode_encode:
  "wf_dnode dn \<Longrightarrow> wf_pads pads dn \<Longrightarrow>
     length (dnode_encode pads dn rest) = 64 + 128 * length (dn_blkptrs dn) + length (dn_bonus dn) + length rest"
  using length_encoded_ptrs [of "zip pads (dn_blkptrs dn)" "dn_endian dn"]
  by (auto simp: dnode_encode_def dnode_layout_def length_dnode_core wf_ptrs_def wf_pads_def wf_dnode_def list_all_length)

lemma dnode_encode_append: "dnode_encode pads dn rest @ post = dnode_encode pads dn (rest @ post)"
  by (simp add: dnode_encode_def dnode_layout_def)

lemma dnode_core_words:
  "rd_u16 (reader_new (dn_endian dn)) (dnode_core dn) 8 = dn_datablkszsec dn"
  "rd_u16 (reader_new (dn_endian dn)) (dnode_core dn) 10 = dn_bonuslen dn"
  "rd_u64 (reader_new (dn_endian dn)) (dnode_core dn) 16 = dn_maxblkid dn"
  "rd_u64 (reader_new (dn_endian dn)) (dnode_core dn) 24 = dn_used dn"
proof -
  let ?e = "dn_endian dn"
  let ?h = "[dn_type dn, dn_indblkshift dn, dn_nlevels dn, dn_nblkptr dn, dn_bonustype dn, dn_checksum dn, dn_compress dn, dn_flags dn]"
  let ?d = "enc_bytes ?e 2 (dn_datablkszsec dn)" and ?b = "enc_bytes ?e 2 (dn_bonuslen dn)"
  let ?x = "[dn_extra_slots dn, 0, 0, 0]" and ?m = "enc_bytes ?e 8 (dn_maxblkid dn)" and ?u = "enc_bytes ?e 8 (dn_used dn)"
  show "rd_u16 (reader_new ?e) (dnode_core dn) 8 = dn_datablkszsec dn"
    using rd16.read_enc_at' [of 8 ?h "reader_new ?e" "dn_datablkszsec dn" "?b @ ?x @ ?m @ ?u @ replicate 32 0"]
    by (simp add: dnode_core_def Let_def)
  show "rd_u16 (reader_new ?e) (dnode_core dn) 10 = dn_bonuslen dn"
    using rd16.read_enc_at' [of 10 "?h @ ?d" "reader_new ?e" "dn_bonuslen dn" "?x @ ?m @ ?u @ replicate 32 0"]
    by (simp add: dnode_core_def Let_def)
  show "rd_u64 (reader_new ?e) (dnode_core dn) 16 = dn_maxblkid dn"
    using rd64.read_enc_at' [of 16 "?h @ ?d @ ?b @ ?x" "reader_new ?e" "dn_maxblkid dn" "?u @ replicate 32 0"]
    by (simp add: dnode_core_def Let_def)
  show "rd_u64 (reader_new ?e) (dnode_core dn) 24 = dn_used dn"
    using rd64.read_enc_at' [of 24 "?h @ ?d @ ?b @ ?x @ ?m" "reader_new ?e" "dn_used dn" "replicate 32 0"]
    by (simp add: dnode_core_def Let_def)
qed

lemma dnode_parse_encode:
  assumes "wf_dnode dn" and "wf_pads pads dn"
  shows "dnode_parse (dnode_encode pads dn rest) (dn_endian dn) = Some dn"
proof -
  let ?e = "dn_endian dn" and ?c = "dnode_core dn" and ?ptrs = "zip pads (dn_blkptrs dn)"
  let ?raw = "dnode_encode pads dn rest"
  have raw: "?raw = dnode_layout ?e ?c ?ptrs (dn_bonus dn @ rest)" by (simp add: dnode_encode_def)
  obtain tl where app: "?raw = ?c @ tl" by (simp add: raw dnode_layout_def)
  have ptrs: "wf_ptrs ?ptrs" "length ?ptrs = length (dn_blkptrs dn)" "map snd ?ptrs = dn_blkptrs dn"
    using assms by (auto simp: wf_ptrs_def wf_pads_def wf_dnode_def list_all_length)
  have nth: "?c ! 3 = dn_nblkptr dn" "?c ! 12 = dn_extra_slots dn"
    using dnode_core_bytes(4,9) [of dn] length_dnode_core [of dn] by (simp_all add: u8_at_in)
  note lay = dnode_parse_layout [OF length_dnode_core [of dn] ptrs(1), of "length (dn_bonus dn)" ?e "dn_bonus dn" rest, folded raw]
  have "map_option dn_blkptrs (dnode_parse ?raw ?e) = Some (dn_blkptrs dn)" "map_option dn_bonus (dnode_parse ?raw ?e) = Some (dn_bonus dn)"
    using lay assms by (simp_all add: ptrs nth dnode_core_words wf_dnode_def wf_pads_def)
  then show ?thesis
    using length_dnode_core [of dn] dnode_core_bytes [of dn] dnode_core_words [of dn]
    by (auto simp: dnode_parse_def Let_def dnode_sizes app u8_at_in rd16.append_left rd64.append_left)
qed

text \<open>
  C33. A dnode written in either byte order decodes to itself: every core field, all its pointers and
  its bonus, in one slot or several, whatever the padding words hold and whatever follows it.
\<close>

theorem dnode_round_trip:
  assumes "wf_dnode dn" and "wf_pads pads dn"
  shows "dnode_parse (dnode_encode pads dn rest) (dn_endian dn) = Some dn"
  by (rule dnode_parse_encode [OF assms])

definition plain_dnode :: dnode where
  "plain_dnode = \<lparr>dn_type = 19, dn_indblkshift = 14, dn_nlevels = 2, dn_nblkptr = 2, dn_bonustype = 44, dn_checksum = 7,
     dn_compress = 2, dn_flags = 1, dn_datablkszsec = 32, dn_bonuslen = 3, dn_extra_slots = 1, dn_maxblkid = 9, dn_used = 10,
     dn_endian = Big, dn_blkptrs = [sample_blkptr, sample_blkptr], dn_bonus = [5, 6, 7]\<rparr>"

lemma dnode_round_trip_witness:
  "dnode_parse (dnode_encode [[0, 0, 0], [1, 1, 1]] plain_dnode [9]) Big = Some plain_dnode"
  using dnode_round_trip [of plain_dnode "[[0, 0, 0], [1, 1, 1]]" "[9]"] wf_sample_blkptr
  by (simp add: wf_dnode_def wf_pads_def plain_dnode_def)

end
