(* ===== verification/Zfs_Objset.thy ===== *)
theory Zfs_Objset
  imports Zfs_Dnode Zfs_Dmu
begin

section \<open>Object sets and the DSL (core/src/objset.rs, core/src/dsl.rs)\<close>

text \<open>
  The object-set header and the three fields the reader takes from DSL bonus buffers.
\<close>

subsection \<open>objset.rs\<close>

definition OS_TYPE_OFFSET :: usize where "OS_TYPE_OFFSET = 704"
definition OS_FLAGS_OFFSET :: usize where "OS_FLAGS_OFFSET = 712"
definition OBJSET_MIN_SIZE :: usize where "OBJSET_MIN_SIZE = 1024"
definition DMU_OST_META :: u64 where "DMU_OST_META = 1"
definition DMU_OST_ZFS :: u64 where "DMU_OST_ZFS = 2"

record objset =
  meta_dnode :: dnode
  os_type :: u64
  os_flags :: u64
  os_endian :: endian

definition objset_parse :: "bytes \<Rightarrow> endian \<Rightarrow> zfs_error + objset" where
  "objset_parse data e =
     (if length data < OBJSET_MIN_SIZE
      then Inl (Truncated ''objset_phys'' OBJSET_MIN_SIZE (length data))
      else rbind (ok_or (dnode_parse data e) (Truncated ''objset meta-dnode'' 512 (length data))) (\<lambda>md.
        let rd = reader_new e in
        Inr \<lparr>meta_dnode = md, os_type = rd_u64 rd data OS_TYPE_OFFSET,
             os_flags = rd_u64 rd data OS_FLAGS_OFFSET, os_endian = e\<rparr>))"

text \<open>The only error is the length check: past it the meta-dnode always decodes.\<close>

lemma objset_parse_error_iff:
  "(\<exists>err. objset_parse data e = Inl err) \<longleftrightarrow> length data < 1024"
  using dnode_parse_None_iff [of data e]
  by (auto simp: objset_parse_def OBJSET_MIN_SIZE_def Let_def res_simps)

lemma objset_parse_InrD:
  "objset_parse data e = Inr os \<Longrightarrow> dnode_parse data e = Some (meta_dnode os) \<and> os_endian os = e"
  by (auto simp: objset_parse_def Let_def res_simps split: if_splits)

subsection \<open>dsl.rs\<close>

definition DD_HEAD_DATASET_OBJ :: usize where "DD_HEAD_DATASET_OBJ = 8"
definition DS_PREV_SNAP_OBJ :: usize where "DS_PREV_SNAP_OBJ = 8"
definition DS_BP_OFFSET :: usize where "DS_BP_OFFSET = 128"

definition dsl_dir_head_dataset :: "dnode \<Rightarrow> u64" where
  "dsl_dir_head_dataset dn = le_u64 (dn_bonus dn) DD_HEAD_DATASET_OBJ"

definition dsl_dataset_prev_snap :: "dnode \<Rightarrow> u64" where
  "dsl_dataset_prev_snap dn = le_u64 (dn_bonus dn) DS_PREV_SNAP_OBJ"

definition dsl_dataset_bp :: "dnode \<Rightarrow> blkptr" where
  "dsl_dataset_bp dn =
     (let bp = (case slice_get (dn_bonus dn) DS_BP_OFFSET (DS_BP_OFFSET + 128) of
                  None \<Rightarrow> [] | Some b \<Rightarrow> b)
      in blkptr_parse bp (dn_endian dn))"

lemma blkptr_parse_empty: "is_hole (blkptr_parse [] e)"
  using blkptr_parse_zeros(1) [of 0 e] by simp

lemma dsl_short_bonus:
  "length (dn_bonus dn) < 16 \<Longrightarrow> dsl_dir_head_dataset dn = 0 \<and> dsl_dataset_prev_snap dn = 0"
  by (simp add: dsl_dir_head_dataset_def dsl_dataset_prev_snap_def le64.out_of_range
    DD_HEAD_DATASET_OBJ_def DS_PREV_SNAP_OBJ_def)

text \<open>A bonus with a reference in its second word and a block pointer at byte 128, as both DSL objects have.\<close>

definition dsl_bonus :: "endian \<Rightarrow> bytes \<Rightarrow> u64 \<Rightarrow> bytes \<Rightarrow> u64 list \<Rightarrow> blkptr \<Rightarrow> bytes \<Rightarrow> bytes" where
  "dsl_bonus e pre ref mid pad bp rest = pre @ enc_bytes e 8 ref @ mid @ blkptr_encode e pad bp @ rest"

text \<open>
  A DSL bonus written in the dnode's byte order gives back its block pointer at byte 128 in
  either order, but its 8-byte reference only in little-endian: on a big-endian pool the head
  dataset and previous snapshot come back with their bytes reversed. A bonus cut inside the pointer
  yields a hole.
\<close>

lemma dsl_fields_layout:
  assumes "wf_blkptr bp" and "length pad = 3" and "length pre = 8" and "length mid = 112"
    and "dn_bonus dn = dsl_bonus (dn_endian dn) pre ref mid pad bp rest"
  shows "dsl_dataset_bp dn = bp \<and> dsl_dir_head_dataset dn = dsl_dataset_prev_snap dn \<and>
    dsl_dir_head_dataset dn =
      (case dn_endian dn of Little \<Rightarrow> ref | Big \<Rightarrow> from_le_bytes (rev (to_le_bytes 8 ref))) \<and>
    (n < 256 \<longrightarrow> is_hole (dsl_dataset_bp (dn\<lparr>dn_bonus := take n (dn_bonus dn)\<rparr>)))"
proof -
  let ?e = "dn_endian dn"
  have len: "length (blkptr_encode e pad bp) = 128" for e using assms by (simp add: length_blkptr_encode)
  have "slice_get ((pre @ enc_bytes ?e 8 ref @ mid) @ blkptr_encode ?e pad bp @ rest) 128 256 = Some (blkptr_encode ?e pad bp)"
    using slice_get_prefix [OF len, of "pre @ enc_bytes ?e 8 ref @ mid" ?e rest] assms(3,4) by simp
  then have "dsl_dataset_bp dn = bp"
    using blkptr_parse_encode [OF assms(1,2), of ?e "[]"] assms(5)
    by (simp add: dsl_dataset_bp_def DS_BP_OFFSET_def dsl_bonus_def)
  moreover have "le_u64 (dn_bonus dn) 8 = from_le_bytes (enc_bytes ?e 8 ref)"
    using assms(3,5) by (simp add: dsl_bonus_def le64.in_range)
  then have "le_u64 (dn_bonus dn) 8 =
      (case ?e of Little \<Rightarrow> ref | Big \<Rightarrow> from_le_bytes (rev (to_le_bytes 8 ref)))"
    by (cases ?e) (simp_all add: enc_bytes_def to_be_bytes_def from_le_to_le_bytes)
  moreover have "is_hole (dsl_dataset_bp (dn\<lparr>dn_bonus := take n (dn_bonus dn)\<rparr>))" if "n < 256"
    using that by (simp add: dsl_dataset_bp_def DS_BP_OFFSET_def slice_get_None blkptr_parse_empty)
  ultimately show ?thesis
    by (simp add: dsl_dir_head_dataset_def dsl_dataset_prev_snap_def DD_HEAD_DATASET_OBJ_def DS_PREV_SNAP_OBJ_def)
qed

definition sample_dnode :: "endian \<Rightarrow> dnode" where
  "sample_dnode e = the (dnode_parse (replicate 512 0) e)"

lemma sample_dnode_endian: "dn_endian (sample_dnode e) = e"
  by (simp add: sample_dnode_def dnode_parse_def Let_def dnode_sizes)

text \<open>The same bonus on a big-endian pool: the pointer is right, object 5 reads as \<open>5 * 2 ^ 56\<close>.\<close>

lemma dsl_fields_layout_witness:
  "dsl_dataset_bp ((sample_dnode Big)\<lparr>dn_bonus := dsl_bonus Big (replicate 8 0) 5 (replicate 112 0) [0, 0, 0] sample_blkptr []\<rparr>) =
     sample_blkptr \<and>
   dsl_dir_head_dataset ((sample_dnode Big)\<lparr>dn_bonus := dsl_bonus Big (replicate 8 0) 5 (replicate 112 0) [0, 0, 0] sample_blkptr []\<rparr>) =
     5 * 2 ^ 56"
proof -
  have "from_le_bytes (rev (to_le_bytes 8 (5 :: u64))) = (5 * 2 ^ 56 :: u64)"
    by (simp add: to_le_bytes_def from_le_bytes_def upt_conv_Cons)
  then show ?thesis
    using dsl_fields_layout [OF wf_sample_blkptr, of "[0, 0, 0]" "replicate 8 0" "replicate 112 0"
        "(sample_dnode Big)\<lparr>dn_bonus := dsl_bonus Big (replicate 8 0) 5 (replicate 112 0) [0, 0, 0] sample_blkptr []\<rparr>" 5 "[]" 0]
    by (fastforce simp: sample_dnode_endian)
qed

end
