(* ===== verification/Zfs_Nvlist.thy ===== *)
theory Zfs_Nvlist
  imports Zfs_Bytes Zfs_Error
begin

section \<open>Packed nvlists (core/src/nvlist.rs)\<close>

text \<open>
  The decoded name/value tree, its accessors and the XDR decoder. The recursion of
  \<^verbatim>\<open>parse_body\<close> is bounded as in the code, by the nesting depth and the pair count of each list.
  The lemmas give a round trip with an encoder of the format and the limits of the guards.
\<close>

subsection \<open>Values and accessors\<close>

datatype nv_value = NvU64 u64 | NvStr rstr | NvNested nvlist | NvBytes bytes
  and nvlist = NvList "(rstr \<times> nv_value) list"

primrec nv_pairs :: "nvlist \<Rightarrow> (rstr \<times> nv_value) list" where
  "nv_pairs (NvList pairs) = pairs"

definition nv_get :: "nvlist \<Rightarrow> rstr \<Rightarrow> nv_value option" where
  "nv_get nv name = find_name name (nv_pairs nv)"

interpretation nv_names: name_table nv_pairs nv_get
  by unfold_locales (simp add: nv_get_def)

definition nv_get_u64 :: "nvlist \<Rightarrow> rstr \<Rightarrow> u64 option" where
  "nv_get_u64 nv name = (case nv_get nv name of Some (NvU64 v) \<Rightarrow> Some v | _ \<Rightarrow> None)"

definition nv_get_str :: "nvlist \<Rightarrow> rstr \<Rightarrow> rstr option" where
  "nv_get_str nv name = (case nv_get nv name of Some (NvStr s) \<Rightarrow> Some s | _ \<Rightarrow> None)"

definition nv_get_bytes :: "nvlist \<Rightarrow> rstr \<Rightarrow> bytes option" where
  "nv_get_bytes nv name = (case nv_get nv name of Some (NvBytes b) \<Rightarrow> Some b | _ \<Rightarrow> None)"

definition nv_get_nvlist :: "nvlist \<Rightarrow> rstr \<Rightarrow> nvlist option" where
  "nv_get_nvlist nv name = (case nv_get nv name of Some (NvNested l) \<Rightarrow> Some l | _ \<Rightarrow> None)"

record vdev_tree =
  vt_type :: rstr
  vt_ashift :: u64
  vt_asize :: u64
  vt_guid :: u64

definition vdev_tree_from_nvlist :: "nvlist \<Rightarrow> vdev_tree" where
  "vdev_tree_from_nvlist nv =
     \<lparr>vt_type = (case nv_get_str nv (lit ''type'') of Some s \<Rightarrow> s | None \<Rightarrow> []),
      vt_ashift = (case nv_get_u64 nv (lit ''ashift'') of Some v \<Rightarrow> v | None \<Rightarrow> 0),
      vt_asize = (case nv_get_u64 nv (lit ''asize'') of Some v \<Rightarrow> v | None \<Rightarrow> 0),
      vt_guid = (case nv_get_u64 nv (lit ''guid'') of Some v \<Rightarrow> v | None \<Rightarrow> 0)\<rparr>"

definition nv_vdev_tree :: "nvlist \<Rightarrow> vdev_tree option" where
  "nv_vdev_tree nv = map_option vdev_tree_from_nvlist (nv_get_nvlist nv (lit ''vdev_tree''))"

subsection \<open>The decoder\<close>

definition NV_ENCODE_XDR :: u8 where "NV_ENCODE_XDR = 1"
definition DATA_TYPE_UINT64 :: int where "DATA_TYPE_UINT64 = 8"
definition DATA_TYPE_STRING :: int where "DATA_TYPE_STRING = 9"
definition DATA_TYPE_BYTE_ARRAY :: int where "DATA_TYPE_BYTE_ARRAY = 10"
definition DATA_TYPE_NVLIST :: int where "DATA_TYPE_NVLIST = 19"
definition DATA_TYPE_UINT8_ARRAY :: int where "DATA_TYPE_UINT8_ARRAY = 26"
definition MAX_NAME_LEN :: u64 where "MAX_NAME_LEN = 4096"
definition MAX_STRING_LEN :: u64 where "MAX_STRING_LEN = 65536"
definition MAX_PAIRS :: usize where "MAX_PAIRS = 4096"
definition MAX_DEPTH :: usize where "MAX_DEPTH = 16"

lemmas nv_consts = NV_ENCODE_XDR_def DATA_TYPE_UINT64_def DATA_TYPE_STRING_def DATA_TYPE_BYTE_ARRAY_def
  DATA_TYPE_NVLIST_def DATA_TYPE_UINT8_ARRAY_def MAX_NAME_LEN_def MAX_STRING_LEN_def

definition read_xdr_string :: "bytes \<Rightarrow> usize \<Rightarrow> string \<Rightarrow> u64 \<Rightarrow> zfs_error + (rstr \<times> usize)" where
  "read_xdr_string data off fld cap =
     (let len = sint (be_u32 data off) in
      if len < 0 then Inl (NvlistBomb fld (of_int (- len)) cap)
      else let len = nat len in
        if len > unat cap then Inl (NvlistBomb fld (of_nat len) cap)
        else let start = sat_add off 4 in
          rbind (ok_or (checked_add start len) (Truncated ''xdr string'' len (length data - start)))
            (\<lambda>fin. rbind (ok_or (slice_get data start fin) (Truncated ''xdr string'' len (length data - start)))
            (\<lambda>raw. let padded = (len + 3) div 4 * 4; nxt = sat_add start padded in
              Inr (from_utf8_lossy raw, nxt))))"

text \<open>
  \<^verbatim>\<open>parse_body\<close> and its pair loop; \<open>n\<close> counts the iterations left of \<^verbatim>\<open>0..MAX_PAIRS\<close>.
\<close>

function (sequential) parse_body :: "bytes \<Rightarrow> usize \<Rightarrow> usize \<Rightarrow> zfs_error + (nvlist \<times> usize)"
  and parse_pairs :: "bytes \<Rightarrow> usize \<Rightarrow> nat \<Rightarrow> usize \<Rightarrow> (rstr \<times> nv_value) list \<Rightarrow> zfs_error + (nvlist \<times> usize)"
where
  "parse_body data off depth =
     (if depth > MAX_DEPTH then Inl (NvlistBomb ''depth'' (of_nat depth) (of_nat MAX_DEPTH))
      else case checked_add off 8 of
        None \<Rightarrow> Inl (Truncated ''nvlist body header'' 8 (length data - off))
      | Some cur \<Rightarrow> parse_pairs data depth MAX_PAIRS cur [])"
| "parse_pairs data depth 0 cur pairs =
     Inl (NvlistBomb ''pair_count'' (of_nat MAX_PAIRS) (of_nat MAX_PAIRS))"
| "parse_pairs data depth (Suc n) cur pairs =
     (let encoded_size = sint (be_u32 data cur) in
      if encoded_size = 0 then Inr (NvList pairs, sat_add cur 8)
      else if encoded_size < 0
      then Inl (NvlistBomb ''encoded_size'' (of_int (- encoded_size)) 0x7fffffff)
      else case read_xdr_string data (sat_add cur 8) ''nvpair name'' MAX_NAME_LEN of
        Inl e \<Rightarrow> Inl e
      | Inr (name, after_name) \<Rightarrow>
          (let data_type = sint (be_u32 data after_name);
               value_off = sat_add after_name 8;
               nxt = sat_add cur (nat encoded_size);
               push = (\<lambda>value. let pairs' = pairs @ [(name, value)] in
                 if nxt \<ge> length data then Inr (NvList pairs', nxt)
                 else parse_pairs data depth n nxt pairs')
           in if data_type = DATA_TYPE_UINT64 then push (NvU64 (be_u64 data value_off))
              else if data_type = DATA_TYPE_STRING then
                (case read_xdr_string data value_off ''nvpair string'' MAX_STRING_LEN of
                   Inl e \<Rightarrow> Inl e
                 | Inr (s, _) \<Rightarrow> push (NvStr s))
              else if data_type = DATA_TYPE_NVLIST then
                (case parse_body data value_off (depth + 1) of
                   Inl e \<Rightarrow> Inl e
                 | Inr (nested, _) \<Rightarrow> push (NvNested nested))
              else if data_type = DATA_TYPE_BYTE_ARRAY \<or> data_type = DATA_TYPE_UINT8_ARRAY then
                (let k = unat (be_u32 data (sat_add after_name 4)) in
                 if k > unat MAX_STRING_LEN
                 then Inl (NvlistBomb ''byte_array nelem'' (of_nat k) MAX_STRING_LEN)
                 else push (NvBytes (case slice_get data value_off (sat_add value_off k) of
                        Some b \<Rightarrow> b | None \<Rightarrow> [])))
              else parse_pairs data depth n nxt pairs))"
  by pat_completeness auto
termination
  by (relation "measures [
      \<lambda>a. case a of Inl (data, off, depth) \<Rightarrow> 17 - depth | Inr (data, depth, n, cur, pairs) \<Rightarrow> 17 - depth,
      \<lambda>a. case a of Inl (data, off, depth) \<Rightarrow> if depth > MAX_DEPTH then 0 else Suc MAX_PAIRS
        | Inr (data, depth, n, cur, pairs) \<Rightarrow> n]")
    (auto simp: MAX_DEPTH_def)

declare parse_body.simps [simp del] parse_pairs.simps(2) [simp del]

definition nvlist_parse :: "bytes \<Rightarrow> zfs_error + nvlist" where
  "nvlist_parse data =
     (let encoding = u8_at data 0 in
      if encoding \<noteq> NV_ENCODE_XDR then Inl (BadNvlistEncoding encoding 0)
      else if length data < 4 then Inl (Truncated ''nvlist header'' 4 (length data))
      else rbind (parse_body data 4 0) (\<lambda>(l, _). Inr l))"

subsection \<open>Encoding\<close>

text \<open>
  An encoder of the XDR form for trees within the decoder's caps: \<open>wf_nv k\<close> allows \<open>k\<close> more
  levels of nesting.
\<close>

definition xdr_int :: "nat \<Rightarrow> bytes" where
  "xdr_int n = to_be_bytes 4 (of_nat n :: u32)"

definition xdr_pad :: "bytes \<Rightarrow> bytes" where
  "xdr_pad b = b @ replicate ((length b + 3) div 4 * 4 - length b) 0"

definition xdr_string :: "rstr \<Rightarrow> bytes" where
  "xdr_string s = xdr_int (length s) @ xdr_pad s"

fun nv_type :: "nv_value \<Rightarrow> nat" where
  "nv_type (NvU64 v) = 8"
| "nv_type (NvStr s) = 9"
| "nv_type (NvNested l) = 19"
| "nv_type (NvBytes b) = 10"

fun nv_nelem :: "nv_value \<Rightarrow> nat" where
  "nv_nelem (NvBytes b) = length b"
| "nv_nelem v = 1"

definition pair_bytes :: "rstr \<Rightarrow> nv_value \<Rightarrow> bytes \<Rightarrow> bytes" where
  "pair_bytes name v payload =
     (let rest = xdr_int 0 @ xdr_string name @ xdr_int (nv_type v) @ xdr_int (nv_nelem v) @ payload
      in xdr_int (4 + length rest) @ rest)"

fun nv_payload :: "nv_value \<Rightarrow> bytes" and pairs_bytes :: "(rstr \<times> nv_value) list \<Rightarrow> bytes" where
  "nv_payload (NvU64 v) = to_be_bytes 8 v"
| "nv_payload (NvStr s) = xdr_string s"
| "nv_payload (NvBytes b) = xdr_pad b"
| "nv_payload (NvNested (NvList ps)) = xdr_int 0 @ xdr_int 1 @ pairs_bytes ps @ xdr_int 0 @ xdr_int 0"
| "pairs_bytes [] = []"
| "pairs_bytes ((name, v) # ps) = pair_bytes name v (nv_payload v) @ pairs_bytes ps"

definition nvlist_encode :: "nvlist \<Rightarrow> bytes" where
  "nvlist_encode l = [1, 1, 0, 0] @ nv_payload (NvNested l)"

fun wf_nv :: "nat \<Rightarrow> nv_value \<Rightarrow> bool" and wf_pairs :: "nat \<Rightarrow> (rstr \<times> nv_value) list \<Rightarrow> bool" where
  "wf_nv k (NvU64 v) = True"
| "wf_nv k (NvStr s) = (valid_utf8 s \<and> length s \<le> 65536)"
| "wf_nv k (NvBytes b) = (length b \<le> 65536)"
| "wf_nv 0 (NvNested l) = False"
| "wf_nv (Suc k) (NvNested (NvList ps)) = (length ps < 4096 \<and> wf_pairs k ps)"
| "wf_pairs k [] = True"
| "wf_pairs k ((name, v) # ps) = (valid_utf8 name \<and> length name \<le> 4096 \<and> wf_nv k v \<and>
     length (pair_bytes name v (nv_payload v)) < 2 ^ 31 \<and> wf_pairs k ps)"

lemma length_xdr_int [simp]: "length (xdr_int n) = 4"
  by (simp add: xdr_int_def)

lemma length_xdr_pad: "length (xdr_pad b) = (length b + 3) div 4 * 4"
  by (simp add: xdr_pad_def)

lemma xdr_int_at: "bytes_at data off (xdr_int n) \<Longrightarrow> n < 2 ^ 31 \<Longrightarrow> sint (be_u32 data off) = int n"
proof -
  assume "bytes_at data off (xdr_int n)" and n: "n < 2 ^ 31"
  then have "be_u32 data off = of_nat n" by (simp add: xdr_int_def be32_at)
  moreover have "sint (of_nat n :: u32) = int n"
    using n by (simp add: signed_of_nat signed_take_bit_int_eq_self)
  ultimately show ?thesis by simp
qed

lemma read_xdr_string_at:
  assumes "bytes_at data off (xdr_string s)" and "length s \<le> unat cap" and "unat cap < 2 ^ 31"
    and "length data < 2 ^ 63" and "valid_utf8 s"
  shows "read_xdr_string data off fld cap = Inr (s, off + length (xdr_string s))"
proof -
  from assms(1) have at: "bytes_at data off (xdr_int (length s))" "bytes_at data (off + 4) s"
    by (auto simp: xdr_string_def xdr_pad_def bytes_at_append)
  have len: "sint (be_u32 data off) = int (length s)"
    using at(1) assms(2,3) by (intro xdr_int_at) simp_all
  have fit: "off + 4 + (length s + 3) div 4 * 4 \<le> length data"
    using bytes_at_le [OF assms(1)] by (simp add: xdr_string_def length_xdr_pad)
  have small: "sat_add off 4 = off + 4" "checked_add (off + 4) (length s) = Some (off + 4 + length s)"
      "sat_add (off + 4) ((length s + 3) div 4 * 4) = off + 4 + (length s + 3) div 4 * 4"
    using fit bytes_at_le [OF at(2)] assms(4)
    by (simp_all add: sat_add_def checked_add_def usize_max_def)
  show ?thesis
    using len small assms(2,5) bytes_at_slice [OF at(2)]
    by (simp add: read_xdr_string_def Let_def from_utf8_lossy_valid xdr_string_def length_xdr_pad)
qed

lemma length_pair_bytes:
  "length (pair_bytes name v payload) = 20 + length (xdr_pad name) + length payload"
  by (simp add: pair_bytes_def xdr_string_def Let_def)

text \<open>One iteration of the pair loop on an encoded pair.\<close>

lemma pair_fields:
  assumes at: "bytes_at data cur (pair_bytes name v payload)" and small: "length data < 2 ^ 63"
    and size: "length (pair_bytes name v payload) < 2 ^ 31"
    and name: "valid_utf8 name" "length name \<le> 4096" and n: "nv_nelem v < 2 ^ 31"
  shows "sint (be_u32 data cur) = int (length (pair_bytes name v payload))"
    "read_xdr_string data (sat_add cur 8) fld MAX_NAME_LEN = Inr (name, cur + 8 + length (xdr_string name))"
    "sint (be_u32 data (cur + 8 + length (xdr_string name))) = int (nv_type v)"
    "sint (be_u32 data (sat_add (cur + 8 + length (xdr_string name)) 4)) = int (nv_nelem v)"
    "sat_add (cur + 8 + length (xdr_string name)) 8 = cur + 16 + length (xdr_string name)"
    "bytes_at data (cur + 16 + length (xdr_string name)) payload"
    "sat_add cur (length (pair_bytes name v payload)) = cur + length (pair_bytes name v payload)"
proof -
  let ?p = "pair_bytes name v payload" and ?a = "cur + 8 + length (xdr_string name)"
  have fit: "cur + length ?p < 2 ^ 63" using bytes_at_le [OF at] small by simp
  have len: "length ?p = 20 + length (xdr_pad name) + length payload" by (rule length_pair_bytes)
  have split: "bytes_at data cur (xdr_int (length ?p))" "bytes_at data (cur + 8) (xdr_string name)"
      "bytes_at data ?a (xdr_int (nv_type v))" "bytes_at data (?a + 4) (xdr_int (nv_nelem v))"
      "bytes_at data (?a + 8) payload"
    using at by (auto simp: len pair_bytes_def Let_def bytes_at_append xdr_string_def add.commute add.left_commute)
  have s: "sat_add cur 8 = cur + 8" "sat_add ?a 4 = ?a + 4" "sat_add ?a 8 = ?a + 8"
      "sat_add cur (length ?p) = cur + length ?p"
    using fit len by (simp_all add: sat_add_def usize_max_def xdr_string_def)
  show "sint (be_u32 data cur) = int (length ?p)" using split(1) size by (rule xdr_int_at)
  show "read_xdr_string data (sat_add cur 8) fld MAX_NAME_LEN = Inr (name, ?a)"
    using read_xdr_string_at [OF split(2), of MAX_NAME_LEN fld] small name s(1)
    by (simp add: MAX_NAME_LEN_def)
  show "sint (be_u32 data ?a) = int (nv_type v)"
    using split(3) by (rule xdr_int_at) (cases v, simp_all)
  show "sint (be_u32 data (sat_add ?a 4)) = int (nv_nelem v)"
    unfolding s using split(4) n by (rule xdr_int_at)
  show "sat_add ?a 8 = cur + 16 + length (xdr_string name)" using s(3) by simp
  have "?a + 8 = cur + 16 + length (xdr_string name)" by simp
  with split(5) show "bytes_at data (cur + 16 + length (xdr_string name)) payload" by (simp only:)
  show "sat_add cur (length ?p) = cur + length ?p" by (rule s)
qed

lemma unat_of_sint: "sint (w :: 'a::len word) = int n \<Longrightarrow> unat w = n"
proof -
  assume eq: "sint w = int n"
  have "int n < 2 ^ (LENGTH('a) - 1)" using sint_lt [of w] eq by simp
  then have "n < 2 ^ (LENGTH('a) - 1)" by (metis of_nat_less_iff of_nat_numeral of_nat_power)
  also have "(2::nat) ^ (LENGTH('a) - 1) \<le> 2 ^ LENGTH('a)" by (rule power_increasing) simp_all
  finally have "n < 2 ^ LENGTH('a)" .
  moreover have "of_int (sint w) = w" by simp
  then have "w = of_nat n" by (simp add: eq)
  ultimately show "unat w = n" by (simp add: unat_of_nat)
qed

lemma parse_pair_step:
  assumes at: "bytes_at data cur (pair_bytes name v (nv_payload v))" and len: "length data < 2 ^ 63"
    and wf: "length (pair_bytes name v (nv_payload v)) < 2 ^ 31" "valid_utf8 name" "length name \<le> 4096" "wf_nv k v"
    and more: "cur + length (pair_bytes name v (nv_payload v)) < length data"
    and sub: "\<And>l. v = NvNested l \<Longrightarrow> \<exists>fin. parse_body data (cur + 16 + length (xdr_string name)) (Suc depth) = Inr (l, fin)"
  shows "parse_pairs data depth (Suc m) cur acc =
    parse_pairs data depth m (cur + length (pair_bytes name v (nv_payload v))) (acc @ [(name, v)])"
proof -
  let ?p = "pair_bytes name v (nv_payload v)" and ?v = "cur + 16 + length (xdr_string name)"
  have "nv_nelem v < 2 ^ 31" using wf(4) by (cases v) auto
  note f = pair_fields [OF at len wf(1-3) this]
  have pos: "0 < length ?p" by (simp add: length_pair_bytes)
  show ?thesis
  proof (cases v)
    case (NvU64 w)
    then show ?thesis using f pos more by (simp add: parse_pairs.simps(2) Let_def nv_consts be64_at)
  next
    case (NvStr s)
    have "read_xdr_string data ?v fld MAX_STRING_LEN = Inr (s, ?v + length (xdr_string s))" for fld
      using read_xdr_string_at [of data ?v s MAX_STRING_LEN] f(6) wf(4) NvStr len by (simp add: MAX_STRING_LEN_def)
    then show ?thesis using f pos more NvStr by (simp add: parse_pairs.simps(2) Let_def nv_consts)
  next
    case (NvNested l)
    then show ?thesis using f pos more sub [OF NvNested] by (auto simp: parse_pairs.simps(2) Let_def nv_consts)
  next
    case (NvBytes b)
    have "bytes_at data ?v b" using f(6) NvBytes by (simp add: xdr_pad_def bytes_at_append)
    then have "slice_get data ?v (?v + length b) = Some b" by (rule bytes_at_slice)
    moreover have "sat_add ?v (length b) = ?v + length b"
      using bytes_at_le [OF \<open>bytes_at data ?v b\<close>] len by (simp add: sat_add_def usize_max_def)
    moreover have "unat (be_u32 data (sat_add (cur + 8 + length (xdr_string name)) 4)) = length b"
      using f(4) NvBytes by (simp add: unat_of_sint)
    ultimately show ?thesis
      using f pos more NvBytes wf(4) by (simp add: parse_pairs.simps(2) Let_def nv_consts)
  qed
qed

lemma parse_encoded:
  "wf_nv k v \<Longrightarrow> depth + k \<le> 16 \<Longrightarrow> length data < 2 ^ 63 \<Longrightarrow> bytes_at data off (nv_payload v) \<Longrightarrow>
     v = NvNested l \<Longrightarrow> \<exists>fin. parse_body data off (Suc depth) = Inr (l, fin)"
  "wf_pairs k ps \<Longrightarrow> depth + k \<le> 16 \<Longrightarrow> length data < 2 ^ 63 \<Longrightarrow>
     bytes_at data cur (pairs_bytes ps @ xdr_int 0 @ xdr_int 0) \<Longrightarrow> length ps < n \<Longrightarrow>
     parse_pairs data depth n cur acc = Inr (NvList (acc @ ps), cur + length (pairs_bytes ps) + 8)"
proof (induction v and ps arbitrary: k depth off l and k depth cur n acc rule: nv_payload_pairs_bytes.induct)
  case (4 ps)
  obtain k' where k: "k = Suc k'" using "4.prems"(1) by (cases k) auto
  have l: "l = NvList ps" using "4.prems"(5) by simp
  have wf: "wf_pairs k' ps" "length ps < 4096" using "4.prems"(1) k by simp_all
  have "off + 8 \<le> length data" using bytes_at_le [OF "4.prems"(4)] by simp
  then have add: "checked_add off 8 = Some (off + 8)" using "4.prems"(3)
    by (simp add: checked_add_def usize_max_def)
  have "bytes_at data (off + 8) (pairs_bytes ps @ xdr_int 0 @ xdr_int 0)"
    using "4.prems"(4) by (simp add: bytes_at_append add.commute add.left_commute)
  then have "parse_pairs data (Suc depth) MAX_PAIRS (off + 8) [] =
      Inr (NvList ([] @ ps), off + 8 + length (pairs_bytes ps) + 8)"
    using "4.prems"(2,3) k wf by (intro "4.IH" [of k']) (simp_all add: MAX_PAIRS_def)
  then show ?case using "4.prems"(2) k l add by (simp add: parse_body.simps MAX_DEPTH_def)
next
  case 5
  then obtain m where n: "n = Suc m" by (cases n) auto
  have "bytes_at data cur (xdr_int 0)" using 5 by (simp add: bytes_at_append)
  then have "sint (be_u32 data cur) = 0" using xdr_int_at by fastforce
  moreover have "sat_add cur 8 = cur + 8"
    using bytes_at_le [OF "5.prems"(4)] "5.prems"(3) by (simp add: sat_add_def usize_max_def)
  ultimately show ?case using n by (simp add: parse_pairs.simps(2) Let_def)
next
  case (6 name v ps)
  obtain m where n: "n = Suc m" using "6.prems"(5) by (cases n) auto
  let ?p = "pair_bytes name v (nv_payload v)"
  have at: "bytes_at data cur ?p" and rest: "bytes_at data (cur + length ?p) (pairs_bytes ps @ xdr_int 0 @ xdr_int 0)"
    using "6.prems"(4) by (simp_all add: bytes_at_append add.assoc)
  have wf: "valid_utf8 name" "length name \<le> 4096" "length ?p < 2 ^ 31" "wf_nv k v" "wf_pairs k ps"
    using "6.prems"(1) by simp_all
  have payload: "bytes_at data (cur + 16 + length (xdr_string name)) (nv_payload v)"
    using pair_fields(6) [OF at "6.prems"(3) wf(3,1,2)] wf(4) by (cases v) auto
  have "cur + length ?p < length data" using bytes_at_le [OF rest] by simp
  then have step: "parse_pairs data depth (Suc m) cur acc = parse_pairs data depth m (cur + length ?p) (acc @ [(name, v)])"
    by (rule parse_pair_step [OF at "6.prems"(3) wf(3,1,2,4)]) (rule "6.IH"(1) [OF wf(4) "6.prems"(2,3) payload])
  have "parse_pairs data depth m (cur + length ?p) (acc @ [(name, v)]) =
      Inr (NvList ((acc @ [(name, v)]) @ ps), cur + length ?p + length (pairs_bytes ps) + 8)"
    using "6.prems" wf rest n by (intro "6.IH") simp_all
  then show ?case using step n by (simp add: add.assoc)
qed simp_all

definition wf_nvlist :: "nvlist \<Rightarrow> bool" where
  "wf_nvlist l \<longleftrightarrow> length (nv_pairs l) < 4096 \<and> wf_pairs 16 (nv_pairs l)"

lemma parse_body_encoded:
  assumes "length ps < 4096" "wf_pairs 16 ps" "length data < 2 ^ 63"
    and "bytes_at data off (nv_payload (NvNested (NvList ps)))"
  shows "parse_body data off 0 = Inr (NvList ps, off + 8 + length (pairs_bytes ps) + 8)"
proof -
  have "off + 8 \<le> length data" using bytes_at_le [OF assms(4)] by simp
  then have add: "checked_add off 8 = Some (off + 8)" using assms(3)
    by (simp add: checked_add_def usize_max_def)
  have "bytes_at data (off + 8) (pairs_bytes ps @ xdr_int 0 @ xdr_int 0)"
    using assms(4) by (simp add: bytes_at_append add.commute add.left_commute)
  then have "parse_pairs data 0 MAX_PAIRS (off + 8) [] =
      Inr (NvList ([] @ ps), off + 8 + length (pairs_bytes ps) + 8)"
    using assms by (intro parse_encoded(2) [of 16]) (simp_all add: MAX_PAIRS_def)
  then show ?thesis using add by (simp add: parse_body.simps MAX_DEPTH_def)
qed

lemma nvlist_parse_encode:
  assumes "wf_nvlist l" and "length (nvlist_encode l @ rest) < 2 ^ 63"
  shows "nvlist_parse (nvlist_encode l @ rest) = Inr l"
proof -
  let ?data = "nvlist_encode l @ rest"
  obtain ps where l: "l = NvList ps" by (cases l)
  have "bytes_at ?data (0 + length [1 :: u8, 1, 0, 0]) (nv_payload (NvNested l))"
    using bytes_at_0 [of "nvlist_encode l" rest] unfolding nvlist_encode_def bytes_at_append by blast
  then have "bytes_at ?data 4 (nv_payload (NvNested l))" by (simp add: numeral_Bit0)
  then have "parse_body ?data 4 0 = Inr (l, 4 + 8 + length (pairs_bytes ps) + 8)"
    using parse_body_encoded [of ps ?data 4] assms unfolding wf_nvlist_def l by simp
  moreover have "u8_at ?data 0 = 1" "4 \<le> length ?data" by (simp_all add: nvlist_encode_def u8_at_def nth_get_def)
  ultimately show ?thesis by (simp add: nvlist_parse_def nv_consts)
qed

definition sample_config :: nvlist where
  "sample_config = NvList [(lit ''name'', NvStr (lit ''tank'')), (lit ''txg'', NvU64 7), (lit ''pool_guid'', NvU64 0xC0FFEE),
     (lit ''vdev_tree'', NvNested (NvList [(lit ''type'', NvStr (lit ''file'')), (lit ''ashift'', NvU64 12)]))]"

lemma wf_nv_numeral [simp]:
  "wf_nv (numeral n) (NvNested (NvList ps)) = (length ps < 4096 \<and> wf_pairs (pred_numeral n) ps)"
  by (simp add: numeral_eq_Suc)

lemma wf_sample_config: "wf_nvlist sample_config"
  by (simp add: sample_config_def wf_nvlist_def length_pair_bytes length_xdr_pad lit_def
    valid_utf8_ascii xdr_string_def)

text \<open>
  C18. Decoding a packed nvlist inverts its XDR encoding: every tree within the decoder's caps
  (16 levels of nesting, 4095 pairs a list, names of 4096 and values of 65536 bytes) comes back
  with its pairs in order, whatever follows the buffer.
\<close>

theorem nvlist_round_trip:
  "wf_nvlist l \<Longrightarrow> length (nvlist_encode l @ rest) < 2 ^ 63 \<Longrightarrow> nvlist_parse (nvlist_encode l @ rest) = Inr l"
  by (rule nvlist_parse_encode)

lemma nvlist_round_trip_witness:
  "wf_nvlist sample_config \<and> nvlist_parse (nvlist_encode sample_config @ [0, 0]) = Inr sample_config"
proof -
  have "length (nvlist_encode sample_config @ [0, 0]) < 2 ^ 63"
    by (simp add: nvlist_encode_def sample_config_def length_pair_bytes length_xdr_pad xdr_string_def)
  then show ?thesis using nvlist_round_trip [OF wf_sample_config] wf_sample_config by blast
qed

subsection \<open>What the guards do not bound\<close>

text \<open>
  The number of integer leaves of a decoded tree, and a buffer whose pairs overlap: each of the \<open>m\<close>
  pairs of a segment is 12 bytes long by its \<^verbatim>\<open>encoded_size\<close>, and its name runs over the later
  pairs to the one nested list at the segment's end.
\<close>

fun leaf_count :: "nv_value \<Rightarrow> nat" and leaf_count_pairs :: "(rstr \<times> nv_value) list \<Rightarrow> nat" where
  "leaf_count (NvU64 v) = 1"
| "leaf_count (NvStr s) = 1"
| "leaf_count (NvBytes b) = 1"
| "leaf_count (NvNested (NvList ps)) = leaf_count_pairs ps"
| "leaf_count_pairs [] = 0"
| "leaf_count_pairs ((n, v) # ps) = leaf_count v + leaf_count_pairs ps"

lemma leaf_count_append: "leaf_count_pairs (xs @ ys) = leaf_count_pairs xs + leaf_count_pairs ys"
  by (induction xs) auto

fun overlap_pairs :: "nat \<Rightarrow> bytes" where
  "overlap_pairs 0 = []"
| "overlap_pairs (Suc j) = xdr_int 12 @ xdr_int 0 @ xdr_int (12 * j + 8) @ overlap_pairs j"

lemma length_overlap_pairs [simp]: "length (overlap_pairs j) = 12 * j"
  by (induction j) auto

fun overlap_segment :: "nat \<Rightarrow> nat \<Rightarrow> bytes" where
  "overlap_segment m 0 = overlap_pairs m @ xdr_int 0 @ xdr_int 0 @ xdr_int 8 @ xdr_int 1 @ to_be_bytes 8 (0 :: u64)"
| "overlap_segment m (Suc d) =
     overlap_pairs m @ xdr_int 0 @ xdr_int 0 @ xdr_int 19 @ xdr_int 1 @ xdr_int 0 @ xdr_int 0 @ overlap_segment m d"

definition overlap_config :: "nat \<Rightarrow> nat \<Rightarrow> bytes" where
  "overlap_config m d = [1, 0, 0, 0] @ xdr_int 0 @ xdr_int 0 @ overlap_segment m d"

lemma length_overlap_config: "length (overlap_config m d) = 12 + (d + 1) * (12 * m + 24)"
proof -
  have "length (overlap_segment m d) = (d + 1) * (12 * m + 24)" by (induction d) auto
  then show ?thesis by (simp add: overlap_config_def)
qed

lemma read_xdr_string_reads:
  assumes "bytes_at data off (xdr_int n)" and "n \<le> unat cap" and "unat cap < 2 ^ 31"
    and "off + 4 + n \<le> length data" and "length data < 2 ^ 63" and "4 dvd n"
  shows "\<exists>s. read_xdr_string data off fld cap = Inr (s, off + 4 + n)"
proof -
  have len: "sint (be_u32 data off) = int n" using assms(1-3) by (intro xdr_int_at) simp_all
  have small: "sat_add off 4 = off + 4" "checked_add (off + 4) n = Some (off + 4 + n)"
      "sat_add (off + 4) n = off + 4 + n"
    using assms(4,5) by (simp_all add: sat_add_def checked_add_def usize_max_def)
  have "(n + 3) div 4 * 4 = n" using assms(6) by (elim dvdE) simp
  then show ?thesis
    using len small assms(2,4) by (simp add: read_xdr_string_def Let_def slice_get_def)
qed

text \<open>
  All pairs of a segment share its trailer at \<open>t\<close>: a value of \<open>c\<close> leaves.
\<close>

definition trailer_value :: "bytes \<Rightarrow> usize \<Rightarrow> usize \<Rightarrow> nat \<Rightarrow> bool" where
  "trailer_value data depth t c \<longleftrightarrow>
     sint (be_u32 data t) = 8 \<and> c = 1 \<or>
     sint (be_u32 data t) = 19 \<and>
       (\<exists>l fin. parse_body data (t + 8) (Suc depth) = Inr (l, fin) \<and> leaf_count (NvNested l) = c)"

lemma overlap_pairs_parse:
  assumes "bytes_at data cur (overlap_pairs j @ xdr_int 0 @ xdr_int 0)"
    and "trailer_value data depth (cur + 12 * j + 8) c" and "cur + 12 * j + 16 < length data"
    and "length data < 2 ^ 63" and "j \<le> 341" and "j < n"
  shows "\<exists>ps fin. parse_pairs data depth n cur acc = Inr (NvList (acc @ ps), fin) \<and> leaf_count_pairs ps = j * c"
  using assms
proof (induction j arbitrary: n cur acc)
  case 0
  then obtain m where n: "n = Suc m" by (cases n) auto
  have "bytes_at data cur (xdr_int 0)" using "0.prems"(1) by (simp add: bytes_at_append)
  then have "sint (be_u32 data cur) = 0" using xdr_int_at by fastforce
  then show ?case by (auto simp: n parse_pairs.simps(2) Let_def)
next
  case (Suc j)
  obtain m where n: "n = Suc m" using Suc.prems(6) by (cases n) auto
  let ?t = "cur + 12 * Suc j + 8"
  have at: "bytes_at data cur (xdr_int 12)" "bytes_at data (cur + 8) (xdr_int (12 * j + 8))"
    and rest: "bytes_at data (cur + 12) (overlap_pairs j @ xdr_int 0 @ xdr_int 0)"
    using Suc.prems(1) by (simp_all add: bytes_at_append add.assoc)
  have size: "sint (be_u32 data cur) = 12" using xdr_int_at [OF at(1)] by simp
  have "4 dvd 12 * j + 8" by presburger
  moreover have "cur + 8 + 4 + (12 * j + 8) \<le> length data" using Suc.prems(3) by simp
  ultimately obtain name where name: "read_xdr_string data (cur + 8) ''nvpair name'' MAX_NAME_LEN = Inr (name, ?t)"
    using read_xdr_string_reads [OF at(2), of MAX_NAME_LEN] Suc.prems(4,5) by (auto simp: MAX_NAME_LEN_def)
  have s: "sat_add cur 8 = cur + 8" "sat_add ?t 8 = ?t + 8" "sat_add cur 12 = cur + 12"
    using Suc.prems(3,4) by (simp_all add: sat_add_def usize_max_def)
  have more: "cur + 12 < length data" using Suc.prems(3) by simp
  have found: "\<exists>v. leaf_count v = c \<and> parse_pairs data depth (Suc m) cur acc =
      parse_pairs data depth m (cur + 12) (acc @ [(name, v)])"
    using Suc.prems(2) size name s more
    unfolding trailer_value_def
    by (elim disjE conjE exE) (force simp: parse_pairs.simps(2) Let_def nv_consts)+
  then obtain v where v: "leaf_count v = c" "parse_pairs data depth (Suc m) cur acc =
      parse_pairs data depth m (cur + 12) (acc @ [(name, v)])" by blast
  have "trailer_value data depth (cur + 12 + 12 * j + 8) c"
    using Suc.prems(2) by (simp add: algebra_simps)
  then obtain ps fin where "parse_pairs data depth m (cur + 12) (acc @ [(name, v)]) =
      Inr (NvList ((acc @ [(name, v)]) @ ps), fin)" "leaf_count_pairs ps = j * c"
    using Suc.IH [OF rest, of m "acc @ [(name, v)]"] Suc.prems n by auto
  then show ?case using v n by (auto intro!: exI [of _ "(name, v) # ps"])
qed

lemma overlap_segment_parse:
  assumes "bytes_at data off (xdr_int 0 @ xdr_int 0 @ overlap_segment m d)" and "length data < 2 ^ 63"
    and "m \<le> 341" and "depth + d \<le> 16"
  shows "\<exists>ps fin. parse_body data off depth = Inr (NvList ps, fin) \<and> leaf_count_pairs ps = m ^ Suc d"
  using assms
proof (induction d arbitrary: off depth)
  case 0
  let ?t = "off + 8 + 12 * m + 8"
  have at: "bytes_at data (off + 8) (overlap_pairs m @ xdr_int 0 @ xdr_int 0)" "bytes_at data ?t (xdr_int 8)"
    and len: "?t + 16 \<le> length data"
    using 0 by (auto simp: bytes_at_append add.assoc dest: bytes_at_le)
  have "trailer_value data depth ?t 1" using xdr_int_at [OF at(2)] by (simp add: trailer_value_def)
  then obtain ps fin where "parse_pairs data depth MAX_PAIRS (off + 8) [] = Inr (NvList ([] @ ps), fin)"
      "leaf_count_pairs ps = m * 1"
    using overlap_pairs_parse [OF at(1), of depth 1 MAX_PAIRS "[]"] len 0 by (auto simp: MAX_PAIRS_def)
  moreover have "checked_add off 8 = Some (off + 8)" using len 0 by (simp add: checked_add_def usize_max_def)
  ultimately show ?case using 0 by (auto simp: parse_body.simps [of data off] MAX_DEPTH_def)
next
  case (Suc d)
  let ?t = "off + 8 + 12 * m + 8"
  have at: "bytes_at data (off + 8) (overlap_pairs m @ xdr_int 0 @ xdr_int 0)" "bytes_at data ?t (xdr_int 19)"
      "bytes_at data (?t + 8) (xdr_int 0 @ xdr_int 0 @ overlap_segment m d)"
    using Suc.prems(1) by (simp_all add: bytes_at_append add.assoc)
  have len: "?t + 8 + 8 \<le> length data" using bytes_at_le [OF at(3)] by simp
  obtain ps fin where ps: "parse_body data (?t + 8) (Suc depth) = Inr (NvList ps, fin)" "leaf_count_pairs ps = m ^ Suc d"
    using Suc.IH [OF at(3) Suc.prems(2,3), of "Suc depth"] Suc.prems(4) by auto
  have "trailer_value data depth ?t (m ^ Suc d)"
    using xdr_int_at [OF at(2)] ps by (force simp: trailer_value_def)
  then obtain qs fin' where "parse_pairs data depth MAX_PAIRS (off + 8) [] = Inr (NvList ([] @ qs), fin')"
      "leaf_count_pairs qs = m * m ^ Suc d"
    using overlap_pairs_parse [OF at(1), of depth "m ^ Suc d" MAX_PAIRS "[]"] len Suc.prems
    by (auto simp: MAX_PAIRS_def)
  moreover have "checked_add off 8 = Some (off + 8)" using len Suc.prems by (simp add: checked_add_def usize_max_def)
  ultimately show ?case using Suc.prems by (auto simp: parse_body.simps [of data off] MAX_DEPTH_def)
qed

text \<open>
  C40. The depth and pair-count guards do not bound the decoded size: a buffer of
  \<open>12 + (d + 1) * (12 * m + 24)\<close> bytes (70 KiB for \<open>m = 341\<close>, \<open>d = 16\<close>, less than a label's nvlist
  region) decodes without error to a tree with \<open>m ^ (d + 1)\<close> leaves.
\<close>

theorem nvlist_overlap_explodes:
  assumes "m \<le> 341" and "d \<le> 16"
  shows "\<exists>l. nvlist_parse (overlap_config m d) = Inr l \<and> leaf_count (NvNested l) = m ^ (d + 1) \<and>
    length (overlap_config m d) = 12 + (d + 1) * (12 * m + 24)"
proof -
  let ?data = "overlap_config m d"
  have "(d + 1) * (12 * m + 24) \<le> 17 * 4116" using assms by (intro mult_le_mono) simp_all
  then have len: "length ?data < 2 ^ 63" by (simp add: length_overlap_config)
  have "bytes_at ?data (0 + length [1 :: u8, 0, 0, 0]) (xdr_int 0 @ xdr_int 0 @ overlap_segment m d)"
    using bytes_at_0 [of ?data "[]"] unfolding overlap_config_def bytes_at_append append_Nil2 by blast
  then have "bytes_at ?data 4 (xdr_int 0 @ xdr_int 0 @ overlap_segment m d)" by (simp add: numeral_Bit0)
  then obtain ps fin where "parse_body ?data 4 0 = Inr (NvList ps, fin)" "leaf_count_pairs ps = m ^ Suc d"
    using overlap_segment_parse [of ?data 4 m d 0] len assms by auto
  moreover have "u8_at ?data 0 = 1" "4 \<le> length ?data"
    by (simp_all add: overlap_config_def u8_at_def nth_get_def)
  ultimately show ?thesis by (auto simp: nvlist_parse_def nv_consts length_overlap_config)
qed

lemma nvlist_overlap_explodes_witness:
  "\<exists>l. nvlist_parse (overlap_config 341 16) = Inr l \<and> 10 ^ 43 < leaf_count (NvNested l) \<and>
     length (overlap_config 341 16) = 69984"
  using nvlist_overlap_explodes [of 341 16] by auto

subsection \<open>What a decoded tree is\<close>

text \<open>
  The limits of a decoded value: \<open>k\<close> more levels of nesting, at most 4096 pairs in a list, text that
  is valid UTF-8 (each byte read becomes at most three), byte arrays of at most 65536 elements.
\<close>

fun nv_within :: "nat \<Rightarrow> nv_value \<Rightarrow> bool" and pairs_within :: "nat \<Rightarrow> (rstr \<times> nv_value) list \<Rightarrow> bool" where
  "nv_within k (NvU64 v) = True"
| "nv_within k (NvStr s) = (valid_utf8 s \<and> length s \<le> 3 * 65536)"
| "nv_within k (NvBytes b) = (length b \<le> 65536)"
| "nv_within 0 (NvNested l) = False"
| "nv_within (Suc k) (NvNested (NvList ps)) = (length ps \<le> 4096 \<and> pairs_within k ps)"
| "pairs_within k [] = True"
| "pairs_within k ((name, v) # ps) = (valid_utf8 name \<and> length name \<le> 3 * 4096 \<and> nv_within k v \<and> pairs_within k ps)"

lemma pairs_within_append [simp]: "pairs_within k (xs @ ys) \<longleftrightarrow> pairs_within k xs \<and> pairs_within k ys"
  by (induction xs) auto

lemma read_xdr_string_text:
  assumes "read_xdr_string data off fld cap = Inr (s, nxt)" and "unat cap = m"
  shows "valid_utf8 s \<and> length s \<le> 3 * m"
proof -
  obtain raw where "s = from_utf8_lossy raw" "length raw \<le> m"
    using assms by (auto simp: read_xdr_string_def Let_def res_simps ok_or_def checked_add_def
      dest!: slice_get_length split: if_splits option.splits)
  then show ?thesis using from_utf8_lossy_is_valid length_from_utf8_lossy [of raw] by fastforce
qed

lemma byte_array_within:
  "\<not> unat MAX_STRING_LEN < n \<Longrightarrow>
     length (case slice_get data off (sat_add off n) of Some b \<Rightarrow> b | None \<Rightarrow> []) \<le> 65536"
  by (auto simp: MAX_STRING_LEN_def sat_add_def dest!: slice_get_length split: option.splits)

text \<open>One iteration of the pair loop that succeeds: it stops, skips the pair, or takes its value.\<close>

definition value_read :: "bytes \<Rightarrow> usize \<Rightarrow> nv_value \<Rightarrow> bool" where
  "value_read data depth v =
     (case v of NvU64 _ \<Rightarrow> True | NvStr s \<Rightarrow> valid_utf8 s \<and> length s \<le> 3 * 65536
      | NvBytes b \<Rightarrow> length b \<le> 65536
      | NvNested l \<Rightarrow> \<exists>off fin. parse_body data off (Suc depth) = Inr (l, fin))"

lemma value_read_intros:
  "value_read data depth (NvU64 w)"
  "read_xdr_string data off fld MAX_STRING_LEN = Inr (s, nxt) \<Longrightarrow> value_read data depth (NvStr s)"
  "parse_body data off (Suc depth) = Inr (l, fin) \<Longrightarrow> value_read data depth (NvNested l)"
  "\<not> unat MAX_STRING_LEN < n \<Longrightarrow>
     value_read data depth (NvBytes (case slice_get data off (sat_add off n) of Some b \<Rightarrow> b | None \<Rightarrow> []))"
  using read_xdr_string_text [of data off fld MAX_STRING_LEN s nxt 65536] byte_array_within
  by (auto simp: value_read_def MAX_STRING_LEN_def)

lemma value_choice:
  assumes "(if dt = DATA_TYPE_UINT64 then P (NvU64 w)
      else if dt = DATA_TYPE_STRING then
        (case read_xdr_string data off fld MAX_STRING_LEN of Inl e \<Rightarrow> Inl e | Inr (s, _) \<Rightarrow> P (NvStr s))
      else if dt = DATA_TYPE_NVLIST then
        (case parse_body data off (depth + 1) of Inl e \<Rightarrow> Inl e | Inr (nested, _) \<Rightarrow> P (NvNested nested))
      else if dt = DATA_TYPE_BYTE_ARRAY \<or> dt = DATA_TYPE_UINT8_ARRAY then
        (if k > unat MAX_STRING_LEN then Inl err
         else P (NvBytes (case slice_get data off (sat_add off k) of Some b \<Rightarrow> b | None \<Rightarrow> [])))
      else rest) = Inr z"
  shows "rest = Inr z \<or> (\<exists>v. P v = Inr z \<and> value_read data depth v)"
  using assms
  by (simp split: if_split_asm sum.split_asm prod.split_asm) (blast intro: value_read_intros)+

lemma parse_pairs_SucE:
  assumes "parse_pairs data depth (Suc n) cur ps = Inr (l, fin)"
  obtains (stop) "l = NvList ps"
  | (skip) nxt where "parse_pairs data depth n nxt ps = Inr (l, fin)"
  | (last) name v where "l = NvList (ps @ [(name, v)])" "valid_utf8 name" "length name \<le> 3 * 4096"
      "value_read data depth v"
  | (more) name v nxt where "parse_pairs data depth n nxt (ps @ [(name, v)]) = Inr (l, fin)"
      "valid_utf8 name" "length name \<le> 3 * 4096" "value_read data depth v"
proof (cases "sint (be_u32 data cur) = 0")
  case False
  let ?push = "\<lambda>nxt name value. if nxt \<ge> length data then Inr (NvList (ps @ [(name, value)]), nxt)
      else parse_pairs data depth n nxt (ps @ [(name, value)])"
  obtain name nxt0 where str: "read_xdr_string data (sat_add cur 8) ''nvpair name'' MAX_NAME_LEN = Inr (name, nxt0)"
    using assms False
    by (cases "read_xdr_string data (sat_add cur 8) ''nvpair name'' MAX_NAME_LEN")
      (auto simp: parse_pairs.simps(2) Let_def split: if_split_asm)
  then have name: "valid_utf8 name" "length name \<le> 3 * 4096"
    using read_xdr_string_text [OF str] by (simp_all add: MAX_NAME_LEN_def)
  have neg: "\<not> sint (be_u32 data cur) < 0"
    using assms False by (auto simp: parse_pairs.simps(2) Let_def split: if_split_asm)
  let ?nxt = "sat_add cur (nat (sint (be_u32 data cur)))"
  have "parse_pairs data depth n ?nxt ps = Inr (l, fin) \<or>
      (\<exists>v. ?push ?nxt name v = Inr (l, fin) \<and> value_read data depth v)"
    by (rule value_choice [where P = "?push ?nxt name", OF assms [unfolded parse_pairs.simps(2) Let_def str
        if_not_P [OF False] if_not_P [OF neg] sum.case prod.case]])
  then show ?thesis
  proof (elim disjE exE conjE)
    fix v assume "?push ?nxt name v = Inr (l, fin)" and v: "value_read data depth v"
    then show ?thesis using name last [OF _ name v] more [OF _ name v] by (simp split: if_split_asm)
  qed (rule skip)
qed (use assms stop in \<open>simp add: parse_pairs.simps(2)\<close>)

lemma parse_pairs_within:
  assumes "\<And>off l fin. parse_body data off (Suc depth) = Inr (l, fin) \<Longrightarrow> nv_within k (NvNested l)"
  shows "parse_pairs data depth n cur ps = Inr (l, fin) \<Longrightarrow> pairs_within k ps \<Longrightarrow> length ps + n \<le> 4096 \<Longrightarrow>
    nv_within (Suc k) (NvNested l)"
proof (induction n arbitrary: cur ps)
  case (Suc n)
  have val: "nv_within k v" if "value_read data depth v" for v
    using that assms by (auto simp: value_read_def split: nv_value.splits)
  from Suc.prems(1) show ?case
    by (cases rule: parse_pairs_SucE) (use Suc.prems(2,3) Suc.IH val in auto)
qed simp

lemma parse_body_within:
  "depth + k = 17 \<Longrightarrow> parse_body data off depth = Inr (l, fin) \<Longrightarrow> nv_within k (NvNested l)"
proof (induction k arbitrary: depth off l fin)
  case 0
  then show ?case by (simp add: parse_body.simps [of data off 17] MAX_DEPTH_def)
next
  case (Suc k)
  obtain cur where "parse_pairs data depth MAX_PAIRS cur [] = Inr (l, fin)"
    using Suc.prems by (auto simp: parse_body.simps [of data off depth] split: if_splits option.splits)
  then show ?case
  proof (rule parse_pairs_within [rotated])
    show "nv_within k (NvNested l)" if "parse_body data off (Suc depth) = Inr (l, fin)" for off l fin
      using Suc.IH [OF _ that] Suc.prems(1) by simp
  qed (simp_all add: MAX_PAIRS_def)
qed

text \<open>
  C25. Whatever the bytes, a decoded configuration nests at most 17 lists deep, no list has more than
  4096 pairs, every name and string is valid UTF-8 of at most three times the length cap, and every
  byte array is within its cap.
\<close>

theorem nvlist_parse_within:
  assumes "nvlist_parse data = Inr l"
  shows "nv_within 17 (NvNested l)"
  using assms parse_body_within [of 0 17 data 4]
  by (auto simp: nvlist_parse_def Let_def res_simps split: if_splits)

lemma nvlist_parse_within_witness: "nv_within 17 (NvNested sample_config)"
proof -
  have "length (nvlist_encode sample_config @ []) < 2 ^ 63"
    by (simp add: nvlist_encode_def sample_config_def length_pair_bytes length_xdr_pad xdr_string_def)
  then show ?thesis using nvlist_parse_within nvlist_parse_encode [OF wf_sample_config] by blast
qed

end
