(* ===== verification/Zfs_Label.thy ===== *)
theory Zfs_Label
  imports Zfs_Nvlist Zfs_Blkptr
begin

section \<open>Uberblocks and vdev labels (core/src/uberblock.rs, core/src/label.rs)\<close>

text \<open>
  The uberblock decoder with its byte-order detection, the ring scan that selects the active
  uberblock, and the label with its fixed regions. The lemmas characterise the selection, show that
  an encoded uberblock comes back in both byte orders, and locate the four labels.
\<close>

subsection \<open>uberblock.rs\<close>

definition UBERBLOCK_MAGIC :: u64 where "UBERBLOCK_MAGIC = 0x0000000000bab10c"
definition UB_MMP_MAGIC :: u64 where "UB_MMP_MAGIC = 0x00000000a11cea11"
definition UBERBLOCK_MIN_SHIFT :: u32 where "UBERBLOCK_MIN_SHIFT = 10"
definition OFF_MAGIC :: usize where "OFF_MAGIC = 0"
definition OFF_VERSION :: usize where "OFF_VERSION = 8"
definition OFF_TXG :: usize where "OFF_TXG = 16"
definition OFF_GUID_SUM :: usize where "OFF_GUID_SUM = 24"
definition OFF_TIMESTAMP :: usize where "OFF_TIMESTAMP = 32"
definition OFF_ROOTBP :: usize where "OFF_ROOTBP = 40"

lemmas ub_offsets = OFF_MAGIC_def OFF_VERSION_def OFF_TXG_def OFF_GUID_SUM_def OFF_TIMESTAMP_def OFF_ROOTBP_def

record blkptr_summary =
  bs_dvas :: "dva list"
  bs_lsize_sectors :: u32
  bs_psize_sectors :: u32
  bs_compression :: u8
  bs_object_type :: u8
  bs_level :: u8
  bs_embedded :: bool

definition blkptr_summary_default :: blkptr_summary where
  "blkptr_summary_default = \<lparr>bs_dvas = replicate 3 dva_default, bs_lsize_sectors = 0, bs_psize_sectors = 0,
     bs_compression = 0, bs_object_type = 0, bs_level = 0, bs_embedded = False\<rparr>"

definition summary_dva :: "reader \<Rightarrow> bytes \<Rightarrow> nat \<Rightarrow> dva" where
  "summary_dva rd bp i =
     (let base = i * 16; w0 = rd_u64 rd bp base; w1 = rd_u64 rd bp (base + 8) in
      \<lparr>dva_vdev = ucast (drop_bit 32 w0),
       dva_asize_sectors = ucast (w0 AND 0x00ffffff),
       dva_offset_sectors = w1 AND 0x7fffffffffffffff,
       dva_gang = flag_bit w1 63\<rparr>)"

definition blkptr_summary_parse :: "reader \<Rightarrow> bytes \<Rightarrow> blkptr_summary" where
  "blkptr_summary_parse rd bp =
     (let props = rd_u64 rd bp 48 in
      \<lparr>bs_dvas = map (summary_dva rd bp) [0..<3],
       bs_lsize_sectors = sat_inc32 (ucast (props AND 0xffff)),
       bs_psize_sectors = sat_inc32 (ucast (drop_bit 16 props AND 0xffff)),
       bs_compression = ucast (drop_bit 32 props AND 0x7f),
       bs_object_type = ucast (drop_bit 48 props AND 0xff),
       bs_level = ucast (drop_bit 56 props AND 0x1f),
       bs_embedded = flag_bit props 39\<rparr>)"

record uberblock =
  ub_endian :: endian
  ub_magic :: u64
  ub_version :: u64
  ub_txg :: u64
  ub_guid_sum :: u64
  ub_timestamp :: u64
  ub_rootbp :: blkptr_summary
  ub_rootbp_raw :: bytes

definition rootbp_full :: "uberblock \<Rightarrow> blkptr" where
  "rootbp_full ub = blkptr_parse (ub_rootbp_raw ub) (ub_endian ub)"

definition detect_endian :: "bytes \<Rightarrow> endian option" where
  "detect_endian slot =
     (if le_u64 slot OFF_MAGIC = UBERBLOCK_MAGIC then Some Little
      else if be_u64 slot OFF_MAGIC = UBERBLOCK_MAGIC then Some Big
      else None)"

definition uberblock_parse :: "bytes \<Rightarrow> uberblock option" where
  "uberblock_parse slot =
     (case detect_endian slot of
        None \<Rightarrow> None
      | Some e \<Rightarrow>
          (let rd = reader_new e;
               (raw, rootbp) =
                 (case slice_get slot OFF_ROOTBP (OFF_ROOTBP + 128) of
                    Some bp \<Rightarrow> (bp, blkptr_summary_parse rd bp)
                  | None \<Rightarrow> (replicate 128 0, blkptr_summary_default))
           in Some \<lparr>ub_endian = e, ub_magic = UBERBLOCK_MAGIC, ub_version = rd_u64 rd slot OFF_VERSION,
                ub_txg = rd_u64 rd slot OFF_TXG, ub_guid_sum = rd_u64 rd slot OFF_GUID_SUM,
                ub_timestamp = rd_u64 rd slot OFF_TIMESTAMP, ub_rootbp = rootbp, ub_rootbp_raw = raw\<rparr>))"

subsection \<open>label.rs\<close>

definition LABEL_SIZE :: usize where "LABEL_SIZE = 256 * 1024"
definition VDEV_PAD_SIZE :: usize where "VDEV_PAD_SIZE = 8 * 1024"
definition VDEV_BOOT_HEADER_SIZE :: usize where "VDEV_BOOT_HEADER_SIZE = 8 * 1024"
definition NVLIST_OFFSET :: usize where "NVLIST_OFFSET = VDEV_PAD_SIZE + VDEV_BOOT_HEADER_SIZE"
definition NVLIST_SIZE :: usize where "NVLIST_SIZE = 112 * 1024"
definition UBERBLOCK_RING_OFFSET :: usize where "UBERBLOCK_RING_OFFSET = 128 * 1024"
definition UBERBLOCK_RING_SIZE :: usize where "UBERBLOCK_RING_SIZE = 128 * 1024"

lemmas label_consts = LABEL_SIZE_def VDEV_PAD_SIZE_def VDEV_BOOT_HEADER_SIZE_def NVLIST_OFFSET_def
  NVLIST_SIZE_def UBERBLOCK_RING_OFFSET_def UBERBLOCK_RING_SIZE_def

definition label_offsets :: "u64 \<Rightarrow> (u64 \<times> u64) \<times> (u64 \<times> u64) option" where
  "label_offsets vdev_size =
     (let front = (0, of_nat LABEL_SIZE);
          back_start = (if vdev_size \<ge> 2 * of_nat LABEL_SIZE then Some (vdev_size - 2 * of_nat LABEL_SIZE) else None);
          back = (case back_start of
                    Some _ \<Rightarrow> if vdev_size \<ge> 4 * of_nat LABEL_SIZE
                      then Some (vdev_size - 2 * of_nat LABEL_SIZE, vdev_size - of_nat LABEL_SIZE) else None
                  | None \<Rightarrow> None)
      in (front, back))"

text \<open>The ring scan, with its \<^verbatim>\<open>break\<close> and \<^verbatim>\<open>continue\<close>; \<open>best\<close> is the candidate so far.\<close>

fun scan_slots :: "bytes \<Rightarrow> usize \<Rightarrow> (uberblock \<times> usize) option \<Rightarrow> usize list \<Rightarrow> (uberblock \<times> usize) option" where
  "scan_slots ring slot_size best [] = best"
| "scan_slots ring slot_size best (slot # slots) =
     (case checked_mul slot slot_size of
        None \<Rightarrow> None
      | Some start \<Rightarrow>
          (case slice_get ring start (sat_add start slot_size) of
             None \<Rightarrow> best
           | Some bs \<Rightarrow>
               (case uberblock_parse bs of
                  None \<Rightarrow> scan_slots ring slot_size best slots
                | Some ub \<Rightarrow>
                    (let best' = (case best of
                         Some (cur, s) \<Rightarrow> if ub_txg ub \<le> ub_txg cur then best else Some (ub, slot)
                       | None \<Rightarrow> Some (ub, slot))
                     in scan_slots ring slot_size best' slots))))"

definition active_uberblock :: "bytes \<Rightarrow> usize \<Rightarrow> usize \<Rightarrow> (uberblock \<times> usize) option" where
  "active_uberblock ring slot_size slot_count = scan_slots ring slot_size None [0..<slot_count]"

record vdev_label =
  vl_config :: nvlist
  vl_active_uberblock :: uberblock
  vl_active_slot :: usize

definition label_ashift :: "nvlist \<Rightarrow> nat" where
  "label_ashift config =
     (case map_option vt_ashift (nv_vdev_tree config) of
        Some a \<Rightarrow> if unat UBERBLOCK_MIN_SHIFT \<le> unat a \<and> unat a \<le> 16 then unat a else unat UBERBLOCK_MIN_SHIFT
      | None \<Rightarrow> unat UBERBLOCK_MIN_SHIFT)"

definition vdev_label_parse :: "bytes \<Rightarrow> zfs_error + vdev_label" where
  "vdev_label_parse label =
     (if length label < LABEL_SIZE then Inl (Truncated ''vdev label'' LABEL_SIZE (length label))
      else rbind (ok_or (slice_get label NVLIST_OFFSET (NVLIST_OFFSET + NVLIST_SIZE))
             (Truncated ''label nvlist region'' (NVLIST_OFFSET + NVLIST_SIZE) (length label))) (\<lambda>nv_region.
        rbind (nvlist_parse nv_region) (\<lambda>config.
          let ashift = label_ashift config;
              slot_size = 2 ^ max ashift (unat UBERBLOCK_MIN_SHIFT);
              slot_count = UBERBLOCK_RING_SIZE div slot_size
          in rbind (ok_or (slice_get label UBERBLOCK_RING_OFFSET (UBERBLOCK_RING_OFFSET + UBERBLOCK_RING_SIZE))
               (Truncated ''uberblock ring'' (UBERBLOCK_RING_OFFSET + UBERBLOCK_RING_SIZE) (length label))) (\<lambda>ring.
             rbind (ok_or (active_uberblock ring slot_size slot_count) (NoUberblock slot_count)) (\<lambda>(ub, slot).
               Inr \<lparr>vl_config = config, vl_active_uberblock = ub, vl_active_slot = slot\<rparr>)))))"

subsection \<open>Selecting the active uberblock\<close>

text \<open>The slots of a ring, and what a slot decodes to.\<close>

definition ring_slot :: "bytes \<Rightarrow> usize \<Rightarrow> nat \<Rightarrow> uberblock option" where
  "ring_slot ring slot_size i = uberblock_parse (take slot_size (drop (i * slot_size) ring))"

definition best_of :: "(nat \<Rightarrow> uberblock option) \<Rightarrow> nat set \<Rightarrow> (uberblock \<times> nat) option \<Rightarrow> bool" where
  "best_of slots I best \<longleftrightarrow>
     (case best of
        None \<Rightarrow> \<forall>i\<in>I. slots i = None
      | Some (ub, k) \<Rightarrow> k \<in> I \<and> slots k = Some ub \<and>
          (\<forall>i\<in>I. \<forall>v. slots i = Some v \<longrightarrow> ub_txg v \<le> ub_txg ub \<and> (i < k \<longrightarrow> ub_txg v < ub_txg ub)))"

lemma best_of_unique: "best_of s I a \<Longrightarrow> best_of s I b \<Longrightarrow> a = b"
  by (cases a; cases b; clarsimp simp: best_of_def)
    (metis linorder_neqE_nat option.inject order.antisym order_less_le)

lemma scan_slots_best:
  assumes "best_of (ring_slot ring sz) {..<k} best" and "(k + n) * sz \<le> length ring" and "length ring \<le> usize_max"
  shows "best_of (ring_slot ring sz) {..<k + n} (scan_slots ring sz best [k..<k + n])"
  using assms
proof (induction n arbitrary: k best)
  case 0
  then show ?case by simp
next
  case (Suc n)
  have "k * sz + sz = (k + 1) * sz" by simp
  also have "\<dots> \<le> (k + Suc n) * sz" by (rule mult_le_mono1) simp
  finally have fit: "k * sz + sz \<le> length ring" using Suc.prems(2) by (rule le_trans)
  then have slot: "checked_mul k sz = Some (k * sz)" "sat_add (k * sz) sz = k * sz + sz"
      "slice_get ring (k * sz) (k * sz + sz) = Some (take sz (drop (k * sz) ring))"
    using Suc.prems(3) by (simp_all add: checked_mul_def sat_add_def slice_get_def)
  define best' where "best' = (case ring_slot ring sz k of None \<Rightarrow> best
    | Some ub \<Rightarrow> (case best of Some (cur, s) \<Rightarrow> if ub_txg ub \<le> ub_txg cur then best else Some (ub, k)
       | None \<Rightarrow> Some (ub, k)))"
  have "best_of (ring_slot ring sz) {..<Suc k} best'"
    using Suc.prems(1)
    by (fastforce simp: best_of_def best'_def less_Suc_eq split: option.splits)
  moreover have "scan_slots ring sz best (k # [Suc k..<Suc k + n]) = scan_slots ring sz best' [Suc k..<Suc k + n]"
    using slot by (simp add: best'_def ring_slot_def split: option.splits)
  moreover have "[k..<k + Suc n] = k # [Suc k..<Suc k + n]" by (simp add: upt_conv_Cons del: upt_Suc)
  moreover have "k + Suc n = Suc k + n" by simp
  ultimately show ?case
    using Suc.IH [of "Suc k" best'] Suc.prems by (simp only:)
qed

lemma active_uberblock_best:
  assumes "slot_count * slot_size \<le> length ring" and "length ring \<le> usize_max"
  shows "best_of (ring_slot ring slot_size) {..<slot_count} (active_uberblock ring slot_size slot_count)"
  using scan_slots_best [of ring slot_size 0 None slot_count] assms
  by (simp add: active_uberblock_def best_of_def)

subsection \<open>Encoded uberblocks\<close>

definition uberblock_encode :: "uberblock \<Rightarrow> bytes" where
  "uberblock_encode ub =
     enc_words (ub_endian ub) [ub_magic ub, ub_version ub, ub_txg ub, ub_guid_sum ub, ub_timestamp ub] @
     ub_rootbp_raw ub"

definition wf_uberblock :: "uberblock \<Rightarrow> bool" where
  "wf_uberblock ub \<longleftrightarrow> ub_magic ub = UBERBLOCK_MAGIC \<and> length (ub_rootbp_raw ub) = 128 \<and>
     ub_rootbp ub = blkptr_summary_parse (reader_new (ub_endian ub)) (ub_rootbp_raw ub)"

lemma detect_endian_encoded:
  "detect_endian (enc_words e (UBERBLOCK_MAGIC # ws) @ rest) = Some e"
proof (cases e)
  case Little
  have "le_u64 (enc_words Little (UBERBLOCK_MAGIC # ws) @ rest) 0 = UBERBLOCK_MAGIC"
    using rd_enc_words [of 0 "UBERBLOCK_MAGIC # ws" Little rest] by (simp add: rd_u64_def reader_new_def)
  then show ?thesis using Little by (simp add: detect_endian_def OFF_MAGIC_def)
next
  case Big
  let ?s = "enc_words Big (UBERBLOCK_MAGIC # ws) @ rest"
  have be: "be_u64 ?s 0 = UBERBLOCK_MAGIC"
    using rd_enc_words [of 0 "UBERBLOCK_MAGIC # ws" Big rest] by (simp add: rd_u64_def reader_new_def)
  have "to_be_bytes 8 UBERBLOCK_MAGIC = [0, 0, 0, 0, 0, 0xba, 0xb1, 0x0c]"
    by (simp add: to_be_bytes_def to_le_bytes_def UBERBLOCK_MAGIC_def upt_rec)
  then have "take 8 ?s = [0, 0, 0, 0, 0, 0xba, 0xb1, 0x0c]"
    by (simp add: enc_words_def enc_bytes_def)
  then have "le_u64 ?s 0 = from_le_bytes [0, 0, 0, 0, 0, 0xba, 0xb1, 0x0c]"
    by (simp add: le64.in_range)
  also have "\<dots> \<noteq> UBERBLOCK_MAGIC" by (simp add: from_le_bytes_def UBERBLOCK_MAGIC_def)
  finally show ?thesis using Big be by (simp add: detect_endian_def OFF_MAGIC_def)
qed

lemma uberblock_parse_encode:
  assumes "wf_uberblock ub"
  shows "uberblock_parse (uberblock_encode ub @ rest) = Some ub"
proof -
  let ?e = "ub_endian ub" and ?w = "[ub_magic ub, ub_version ub, ub_txg ub, ub_guid_sum ub, ub_timestamp ub]"
  let ?s = "uberblock_encode ub @ rest"
  have s: "?s = enc_words ?e ?w @ ub_rootbp_raw ub @ rest" by (simp add: uberblock_encode_def)
  have e: "detect_endian ?s = Some ?e"
    using assms detect_endian_encoded [of ?e "tl ?w" "ub_rootbp_raw ub @ rest"] by (simp add: s wf_uberblock_def)
  have at: "rd_u64 (reader_new ?e) ?s (8 * k) = ?w ! k" if "k < 5" for k
    using that rd_enc_words [of k ?w ?e "ub_rootbp_raw ub @ rest"] unfolding s by simp
  have words: "rd_u64 (reader_new ?e) ?s 8 = ub_version ub" "rd_u64 (reader_new ?e) ?s 16 = ub_txg ub"
    "rd_u64 (reader_new ?e) ?s 24 = ub_guid_sum ub" "rd_u64 (reader_new ?e) ?s 32 = ub_timestamp ub"
    using at [of 1] at [of 2] at [of 3] at [of 4] by simp_all
  have "slice_get ?s 40 168 = Some (ub_rootbp_raw ub)"
    using slice_get_prefix [of "ub_rootbp_raw ub" 128 "enc_words ?e ?w" rest] assms
    unfolding s by (simp add: wf_uberblock_def)
  then show ?thesis
    using assms e words by (simp add: uberblock_parse_def ub_offsets Let_def wf_uberblock_def)
qed

text \<open>The slots of a scan are disjoint pieces of the ring, so a written slot is seen.\<close>

lemma ring_slot_concat:
  assumes "list_all (\<lambda>s. length s = sz) slots" and "i < length slots"
  shows "ring_slot (concat slots) sz i = uberblock_parse (slots ! i)"
proof -
  have "take sz (drop (i * sz) (concat slots)) = slots ! i"
    using assms
  proof (induction slots arbitrary: i)
    case (Cons s slots)
    then show ?case by (cases i) (auto simp: add.commute)
  qed simp
  then show ?thesis by (simp add: ring_slot_def)
qed

subsection \<open>Labels\<close>

lemma label_layout_parse:
  assumes "length pad = 16384" and "length nv = 114688" and "length ring = 131072"
    and "nvlist_parse nv = Inr config"
    and "slot_size = 2 ^ label_ashift config"
    and "active_uberblock ring slot_size (131072 div slot_size) = r"
  shows "vdev_label_parse (pad @ nv @ ring @ rest) =
    (case r of None \<Rightarrow> Inl (NoUberblock (131072 div slot_size))
     | Some (ub, k) \<Rightarrow> Inr \<lparr>vl_config = config, vl_active_uberblock = ub, vl_active_slot = k\<rparr>)"
proof -
  let ?l = "pad @ nv @ ring @ rest"
  have "slice_get ?l 16384 131072 = Some nv"
    using slice_get_prefix [of nv 114688 pad "ring @ rest"] assms by simp
  moreover have "slice_get ?l 131072 262144 = Some ring"
    using slice_get_prefix [of ring 131072 "pad @ nv" rest] assms by simp
  moreover have "max (label_ashift config) 10 = label_ashift config"
    by (simp add: label_ashift_def UBERBLOCK_MIN_SHIFT_def split: option.splits)
  ultimately show ?thesis
    using assms by (simp add: vdev_label_parse_def label_consts UBERBLOCK_MIN_SHIFT_def split: option.splits)
qed

lemma label_ashift_bounds: "10 \<le> label_ashift config" "label_ashift config \<le> 16"
  by (simp_all add: label_ashift_def UBERBLOCK_MIN_SHIFT_def split: option.splits)

subsection \<open>Properties\<close>

definition sample_uberblock :: "endian \<Rightarrow> u64 \<Rightarrow> uberblock" where
  "sample_uberblock e txg = \<lparr>ub_endian = e, ub_magic = UBERBLOCK_MAGIC, ub_version = 5000, ub_txg = txg,
     ub_guid_sum = 3, ub_timestamp = 4,
     ub_rootbp = blkptr_summary_parse (reader_new e) (replicate 128 0), ub_rootbp_raw = replicate 128 0\<rparr>"

definition slot_of :: "uberblock \<Rightarrow> bytes" where
  "slot_of ub = uberblock_encode ub @ replicate 856 0"

lemma wf_sample_uberblock: "wf_uberblock (sample_uberblock e txg)"
  by (simp add: wf_uberblock_def sample_uberblock_def)

lemma length_slot_of: "length (slot_of (sample_uberblock e txg)) = 1024"
  by (simp add: slot_of_def uberblock_encode_def sample_uberblock_def)

lemma parse_slot_of: "uberblock_parse (slot_of (sample_uberblock e txg)) = Some (sample_uberblock e txg)"
  unfolding slot_of_def by (rule uberblock_parse_encode [OF wf_sample_uberblock])

text \<open>
  C15. The ring scan returns exactly the uberblock of highest \<^verbatim>\<open>txg\<close> among the slots that hold
  one, the lowest slot on a tie, and nothing only when no slot holds one.
\<close>

theorem active_uberblock_spec:
  assumes "slot_count * slot_size \<le> length ring" and "length ring \<le> usize_max"
  shows "active_uberblock ring slot_size slot_count = Some (ub, k) \<longleftrightarrow>
    k < slot_count \<and> ring_slot ring slot_size k = Some ub \<and>
    (\<forall>i < slot_count. \<forall>v. ring_slot ring slot_size i = Some v \<longrightarrow>
       ub_txg v \<le> ub_txg ub \<and> (i < k \<longrightarrow> ub_txg v < ub_txg ub))"
proof -
  let ?s = "ring_slot ring slot_size" and ?I = "{..<slot_count}"
  have "active_uberblock ring slot_size slot_count = Some (ub, k) \<longleftrightarrow> best_of ?s ?I (Some (ub, k))"
    using best_of_unique [OF active_uberblock_best [OF assms]] active_uberblock_best [OF assms] by metis
  then show ?thesis by (simp add: best_of_def Ball_def)
qed

lemma active_uberblock_spec_witness:
  "active_uberblock (slot_of (sample_uberblock Little 7) @ slot_of (sample_uberblock Big 9)) 1024 2 =
     Some (sample_uberblock Big 9, 1)"
proof -
  let ?a = "sample_uberblock Little 7" and ?b = "sample_uberblock Big 9"
  let ?ring = "slot_of ?a @ slot_of ?b"
  have slots: "ring_slot ?ring 1024 0 = Some ?a" "ring_slot ?ring 1024 1 = Some ?b"
    using ring_slot_concat [of 1024 "[slot_of ?a, slot_of ?b]" 0] ring_slot_concat [of 1024 "[slot_of ?a, slot_of ?b]" 1]
    by (simp_all add: length_slot_of parse_slot_of)
  have "ub_txg ?a < ub_txg ?b" by (simp add: sample_uberblock_def)
  moreover have "i < 2 \<longleftrightarrow> i = 0 \<or> i = 1" for i :: nat by auto
  ultimately show ?thesis
    using active_uberblock_spec [of 2 1024 ?ring ?b 1] slots
    by (simp add: length_slot_of usize_max_def)
qed

text \<open>
  An uberblock written in either byte order is recognised in that order and decoded field for
  field, its block pointer kept raw, whatever fills the rest of the slot.
\<close>

lemma uberblock_round_trip:
  "wf_uberblock ub \<Longrightarrow> uberblock_parse (uberblock_encode ub @ rest) = Some ub"
  by (rule uberblock_parse_encode)

lemma uberblock_round_trip_witness:
  "uberblock_parse (uberblock_encode (sample_uberblock Big 12) @ [1, 2, 3]) = Some (sample_uberblock Big 12)"
  by (rule uberblock_round_trip [OF wf_sample_uberblock])

text \<open>
  C16. A label laid out as documented yields the configuration its nvlist region encodes and the
  active uberblock of its ring, scanned in slots of \<open>2 ^ ashift\<close> bytes, or of 1 KiB when the
  configuration has no vdev tree or its \<^verbatim>\<open>ashift\<close> is not in 10..16.
\<close>

theorem vdev_label_parse_layout:
  assumes "length pad = 16384" and "wf_nvlist config" and "length (nvlist_encode config @ fill) = 114688"
    and "length ring = 131072"
    and "slot_size = (case nv_vdev_tree config of
      None \<Rightarrow> 1024
    | Some v \<Rightarrow> if vt_ashift v \<in> {10..16} then 2 ^ unat (vt_ashift v) else 1024)"
    and "active_uberblock ring slot_size (131072 div slot_size) = Some (ub, k)"
  shows "vdev_label_parse (pad @ (nvlist_encode config @ fill) @ ring @ rest) =
    Inr \<lparr>vl_config = config, vl_active_uberblock = ub, vl_active_slot = k\<rparr>"
proof -
  have "nvlist_parse (nvlist_encode config @ fill) = Inr config"
    using nvlist_parse_encode [of config fill] assms(2,3) by simp
  moreover have "slot_size = 2 ^ label_ashift config"
    unfolding assms(5) by (auto simp: label_ashift_def UBERBLOCK_MIN_SHIFT_def word_le_nat_alt split: option.split)
  ultimately show ?thesis using label_layout_parse [OF assms(1,3,4) _ _ assms(6), of config rest] by simp
qed

lemma uberblock_parse_zeros: "uberblock_parse (replicate n 0) = None"
  by (simp add: uberblock_parse_def detect_endian_def le64.zeros be64.zeros UBERBLOCK_MAGIC_def)

lemma active_uberblock_single:
  assumes "wf_uberblock ub" "length (uberblock_encode ub @ fill) = sz" "0 < sz" "length ring = n * sz"
    and "ring = (uberblock_encode ub @ fill) @ replicate m 0" "length ring \<le> usize_max"
  shows "active_uberblock ring sz n = Some (ub, 0)"
proof -
  have n: "0 < n" using assms(2-5) by (cases n) auto
  have first: "ring_slot ring sz 0 = Some ub"
    using assms(2) uberblock_parse_encode [OF assms(1), of fill] by (simp add: ring_slot_def assms(5))
  have rest: "ring_slot ring sz i = None" if "0 < i" for i
  proof -
    have "sz \<le> i * sz" using that by simp
    moreover obtain a where a: "uberblock_encode ub @ fill = a" by simp
    ultimately have "drop (i * sz) ring = replicate (m - (i * sz - sz)) 0"
      using assms(2) unfolding assms(5) a by simp
    then have "take sz (drop (i * sz) ring) = replicate (min sz (m - (i * sz - sz))) 0" by simp
    then show ?thesis by (simp add: ring_slot_def uberblock_parse_zeros)
  qed
  have "best_of (ring_slot ring sz) {..<n} (Some (ub, 0))"
    using n first rest by (auto simp: best_of_def) (metis gr0I option.distinct(1) option.inject order_refl)
  then show ?thesis
    using best_of_unique active_uberblock_best [of n sz ring] assms(4,6) by auto
qed

text \<open>A ring of 4 KiB slots whose second slot holds the newer uberblock.\<close>

definition sample_slots :: "bytes list" where
  "sample_slots = [uberblock_encode (sample_uberblock Little 7) @ replicate 3928 0,
     uberblock_encode (sample_uberblock Big 12) @ replicate 3928 0] @ replicate 30 (replicate 4096 0)"

lemma sample_ring:
  "length (concat sample_slots) = 131072"
  "active_uberblock (concat sample_slots) 4096 32 = Some (sample_uberblock Big 12, 1)"
proof -
  let ?a = "sample_uberblock Little 7" and ?b = "sample_uberblock Big 12"
  have ub: "length (uberblock_encode (sample_uberblock e t)) = 168" for e t
    by (simp add: uberblock_encode_def sample_uberblock_def)
  have slots: "list_all (\<lambda>s. length s = 4096) sample_slots" and n: "length sample_slots = 32"
    by (simp_all add: sample_slots_def ub list_all_iff)
  show len: "length (concat sample_slots) = 131072"
    by (simp add: sample_slots_def ub length_concat sum_list_replicate)
  have at: "ring_slot (concat sample_slots) 4096 i = uberblock_parse (sample_slots ! i)" if "i < 32" for i
    using ring_slot_concat [of 4096 sample_slots i] slots n that by simp
  have s0: "ring_slot (concat sample_slots) 4096 0 = Some ?a" and s1: "ring_slot (concat sample_slots) 4096 1 = Some ?b"
    using at [of 0] at [of 1] uberblock_parse_encode [OF wf_sample_uberblock] by (simp_all add: sample_slots_def)
  have none: "ring_slot (concat sample_slots) 4096 i = None" if "2 \<le> i" "i < 32" for i
  proof -
    have "sample_slots ! i = replicate 4096 0"
      unfolding sample_slots_def nth_append using that by simp
    then show ?thesis using at [OF that(2)] by (simp add: uberblock_parse_zeros)
  qed
  have best: "best_of (ring_slot (concat sample_slots) 4096) {..<32} (Some (?b, 1))"
  proof -
    have "i = 0 \<or> i = 1 \<or> (2 \<le> i \<and> i < 32)" if "i < 32" for i :: nat using that by auto
    moreover have "ub_txg ?a < ub_txg ?b" by (simp add: sample_uberblock_def)
    ultimately show ?thesis using s0 s1 none unfolding best_of_def by (fastforce simp: s0 s1 [simplified])
  qed
  show "active_uberblock (concat sample_slots) 4096 32 = Some (?b, 1)"
    using best_of_unique [OF active_uberblock_best best] len by (simp add: usize_max_def)
qed

lemma sample_slot_size:
  "(case nv_vdev_tree sample_config of None \<Rightarrow> 1024
    | Some v \<Rightarrow> if vt_ashift v \<in> {10..16} then 2 ^ unat (vt_ashift v) else 1024) = (4096 :: nat)"
  by (simp add: nv_vdev_tree_def sample_config_def nv_get_nvlist_def nv_get_def vdev_tree_from_nvlist_def nv_get_u64_def lit_def)

lemma vdev_label_parse_layout_witness:
  "vdev_label_parse (replicate 16384 0 @
     (nvlist_encode sample_config @ replicate (114688 - length (nvlist_encode sample_config)) 0) @ concat sample_slots @ []) =
   Inr \<lparr>vl_config = sample_config, vl_active_uberblock = sample_uberblock Big 12, vl_active_slot = 1\<rparr>"
proof -
  have "length (nvlist_encode sample_config @ replicate (114688 - length (nvlist_encode sample_config)) (0 :: u8)) = 114688"
    by (simp add: nvlist_encode_def sample_config_def length_pair_bytes length_xdr_pad xdr_string_def)
  then show ?thesis
    by (intro vdev_label_parse_layout [OF _ wf_sample_config _ sample_ring(1) sample_slot_size [symmetric]])
      (simp_all add: sample_ring(2))
qed

text \<open>
  The four label positions: two at the front, and on a device of at least 1 MiB two at the
  back; all four are disjoint and inside the device. A smaller device has no back pair.
\<close>

lemma label_offsets_disjoint:
  "label_offsets vsize =
     ((0, 262144), if unat vsize < 1048576 then None else Some (vsize - 524288, vsize - 262144)) \<and>
   (1048576 \<le> unat vsize \<longrightarrow> 524288 \<le> unat (vsize - 524288) \<and>
     unat (vsize - 524288) + 262144 = unat (vsize - 262144) \<and> unat (vsize - 262144) + 262144 = unat vsize)"
proof -
  have sub: "unat (vsize - k) = unat vsize - unat k" if "k \<le> vsize" for k
    using that by (rule unat_sub)
  have "label_offsets vsize =
     ((0, 262144), if unat vsize < 1048576 then None else Some (vsize - 524288, vsize - 262144))"
    by (auto simp: label_offsets_def label_consts Let_def word_le_nat_alt)
  moreover have "524288 \<le> unat (vsize - 524288) \<and>
     unat (vsize - 524288) + 262144 = unat (vsize - 262144) \<and> unat (vsize - 262144) + 262144 = unat vsize"
    if "1048576 \<le> unat vsize"
    using that sub [of 524288] sub [of 262144] by (simp add: word_le_nat_alt)
  ultimately show ?thesis by simp
qed


subsection \<open>A reference label\<close>

text \<open>A label whose only uberblock carries a given root pointer.\<close>

definition root_uberblock :: "blkptr \<Rightarrow> uberblock" where
  "root_uberblock bp = (let raw = blkptr_encode Little [0, 0, 0] bp in
     \<lparr>ub_endian = Little, ub_magic = UBERBLOCK_MAGIC, ub_version = 5000, ub_txg = 22, ub_guid_sum = 3,
      ub_timestamp = 4, ub_rootbp = blkptr_summary_parse (reader_new Little) raw, ub_rootbp_raw = raw\<rparr>)"

definition root_label :: "blkptr \<Rightarrow> bytes" where
  "root_label bp = replicate 16384 0 @
     (nvlist_encode sample_config @ replicate (114688 - length (nvlist_encode sample_config)) 0) @
     (uberblock_encode (root_uberblock bp) @ replicate 3928 0 @ replicate 126976 0)"

definition root_vdev_label :: "blkptr \<Rightarrow> vdev_label" where
  "root_vdev_label bp = \<lparr>vl_config = sample_config, vl_active_uberblock = root_uberblock bp, vl_active_slot = 0\<rparr>"

lemma root_uberblock_fields [simp]:
  "ub_endian (root_uberblock bp) = Little" "ub_txg (root_uberblock bp) = 22"
  by (simp_all add: root_uberblock_def Let_def)

lemma rootbp_root_uberblock: "wf_blkptr bp \<Longrightarrow> rootbp_full (root_uberblock bp) = bp"
  using blkptr_parse_encode [of bp "[0, 0, 0]" Little "[]"]
  by (simp add: rootbp_full_def root_uberblock_def Let_def)

lemma length_sample_nv:
  "length (nvlist_encode sample_config @ replicate (114688 - length (nvlist_encode sample_config)) (0 :: u8)) = 114688"
  by (simp add: nvlist_encode_def sample_config_def length_pair_bytes length_xdr_pad xdr_string_def)

lemma label_ashift_sample: "label_ashift sample_config = 12"
  by (simp add: label_ashift_def UBERBLOCK_MIN_SHIFT_def nv_vdev_tree_def sample_config_def nv_get_nvlist_def
    nv_get_def vdev_tree_from_nvlist_def nv_get_u64_def lit_def)

lemma root_label_facts:
  assumes "wf_blkptr bp"
  shows "length (root_label bp) = LABEL_SIZE" and "vdev_label_parse (root_label bp) = Inr (root_vdev_label bp)"
proof -
  let ?ub = "root_uberblock bp"
  let ?ring = "uberblock_encode ?ub @ replicate 3928 0 @ replicate 126976 0"
  have wf: "wf_uberblock ?ub" and ub: "length (uberblock_encode ?ub) = 168"
    using length_blkptr_encode [OF assms, of "[0, 0, 0]"]
    by (simp_all add: wf_uberblock_def root_uberblock_def uberblock_encode_def Let_def)
  show "length (root_label bp) = LABEL_SIZE"
    using ub length_sample_nv by (simp add: root_label_def LABEL_SIZE_def)
  have "active_uberblock ?ring 4096 32 = Some (?ub, 0)"
  proof (rule active_uberblock_single [OF wf])
    show "length (uberblock_encode ?ub @ replicate 3928 0) = 4096" by (simp add: ub)
    show "length ?ring = 32 * 4096" "length ?ring \<le> usize_max" by (simp_all add: ub usize_max_def)
    show "?ring = (uberblock_encode ?ub @ replicate 3928 0) @ replicate 126976 0" by (simp only: append_assoc)
  qed simp
  moreover have "nvlist_parse (nvlist_encode sample_config @ replicate (114688 - length (nvlist_encode sample_config)) 0) = Inr sample_config"
    using nvlist_parse_encode [OF wf_sample_config] length_sample_nv by simp
  ultimately show "vdev_label_parse (root_label bp) = Inr (root_vdev_label bp)"
    using label_layout_parse [of "replicate 16384 0"
        "nvlist_encode sample_config @ replicate (114688 - length (nvlist_encode sample_config)) 0" ?ring sample_config 4096 "Some (?ub, 0)" "[]"]
    by (simp add: ub label_ashift_sample root_label_def root_vdev_label_def length_sample_nv [simplified])
qed

end
