(* ===== verification/Zfs_Read.thy ===== *)
theory Zfs_Read
  imports Zfs_Objset Zfs_Checksum Zfs_Compress
begin

section \<open>Block I/O and object access (core/src/read.rs)\<close>

text \<open>
  Reading a block through its copies, walking the indirect-block tree of a dnode and fetching an
  object's dnode. Shifts of a block id are modelled as a release build computes them (\<open>shr64\<close>);
  \<open>shift_overflows\<close> names the dnodes for which a debug build panics instead. The lemmas give the
  copy selection as a specification, the bounds on what is returned, and the refinement of the
  tree walk to indexing a flat array of leaf blocks.
\<close>

definition MAX_BLOCK_SIZE :: usize where "MAX_BLOCK_SIZE = 32 * 1024 * 1024"
definition MAX_INDIRECT_LEVELS :: u8 where "MAX_INDIRECT_LEVELS = 8"

record block =
  blk_data :: bytes
  blk_checksum_valid :: "bool option"
  blk_dva_used :: u8

subsection \<open>Reading a block\<close>

text \<open>The loop over the copies, with the last error seen.\<close>

fun read_dvas :: "ext \<Rightarrow> bytes \<Rightarrow> blkptr \<Rightarrow> nat \<Rightarrow> dva list \<Rightarrow> zfs_error \<Rightarrow> zfs_error + block" where
  "read_dvas x img bp i [] last_err = Inl last_err"
| "read_dvas x img bp i (d # ds) last_err =
     (if dva_is_empty d then read_dvas x img bp (Suc i) ds last_err
      else let phys = unat (physical_byte_offset d);
               fin = sat_add phys (psize_bytes bp)
           in case slice_get img phys fin of
                None \<Rightarrow> read_dvas x img bp (Suc i) ds (Truncated ''block DVA range'' fin (length img))
              | Some raw \<Rightarrow>
                  (let valid = verify x (checksum_from_raw (bp_checksum bp)) (bp_byteorder bp) raw
                                 (bp_checksum_words bp)
                   in case decompress x (compress_from_raw (bp_compression bp)) raw (lsize_bytes bp) of
                        Inr data \<Rightarrow> Inr \<lparr>blk_data = data, blk_checksum_valid = valid, blk_dva_used = of_nat i\<rparr>
                      | Inl e \<Rightarrow> read_dvas x img bp (Suc i) ds e))"

definition read_block :: "ext \<Rightarrow> bytes \<Rightarrow> blkptr \<Rightarrow> zfs_error + block" where
  "read_block x img bp =
     (let lsize = lsize_bytes bp in
      if lsize = 0 \<or> lsize > MAX_BLOCK_SIZE
      then Inl (AllocationBomb ''LSIZE'' (of_nat lsize) (of_nat MAX_BLOCK_SIZE))
      else if bp_embedded bp
      then rbind (decompress x (compress_from_raw (bp_compression bp)) (embedded_data bp) lsize) (\<lambda>data.
             Inr \<lparr>blk_data = data, blk_checksum_valid = None, blk_dva_used = 0\<rparr>)
      else if is_hole bp
      then Inr \<lparr>blk_data = replicate lsize 0, blk_checksum_valid = None, blk_dva_used = 0\<rparr>
      else read_dvas x img bp 0 (bp_dvas bp)
             (Truncated ''block (no DVA readable)'' (psize_bytes bp) (length img)))"

subsection \<open>Walking the block tree\<close>

definition ptrs_per_indirect :: "dnode \<Rightarrow> usize" where
  "ptrs_per_indirect dn = max (indirect_block_size dn div BLKPTR_SIZE) 1"

definition level_shift :: "dnode \<Rightarrow> nat" where
  "level_shift dn = trailing_zeros (ptrs_per_indirect dn)"

text \<open>The descent below the top pointer; the argument is the level still to go down.\<close>

fun descend :: "ext \<Rightarrow> bytes \<Rightarrow> dnode \<Rightarrow> u64 \<Rightarrow> nat \<Rightarrow> blkptr \<Rightarrow> zfs_error + block" where
  "descend x img dn blkid 0 bp = read_block x img bp"
| "descend x img dn blkid (Suc level) bp =
     rbind (read_block x img bp) (\<lambda>blk.
       let idx_shift = level * level_shift dn;
           child_index = unat (shr64 blkid idx_shift AND (of_nat (ptrs_per_indirect dn) - 1));
           off = sat_mul child_index BLKPTR_SIZE
       in rbind (ok_or (slice_get (blk_data blk) off (sat_add off BLKPTR_SIZE))
            (OutOfRange ''indirect child index'' (of_nat child_index)
               (of_nat (length (blk_data blk) div BLKPTR_SIZE)))) (\<lambda>child.
          let bp = blkptr_parse child (dn_endian dn) in
          if is_hole bp then read_block x img bp else descend x img dn blkid level bp))"

definition tree_levels :: "dnode \<Rightarrow> nat" where
  "tree_levels dn = unat (min (dn_nlevels dn) MAX_INDIRECT_LEVELS)"

definition read_dnode_data :: "ext \<Rightarrow> bytes \<Rightarrow> dnode \<Rightarrow> u64 \<Rightarrow> zfs_error + block" where
  "read_dnode_data x img dn blkid =
     (if dn_nlevels dn = 0 then Inl (OutOfRange ''dn_nlevels'' 0 (ucast MAX_INDIRECT_LEVELS))
      else if blkid > dn_maxblkid dn then Inl (OutOfRange ''blkid'' blkid (dn_maxblkid dn))
      else let top_level = tree_levels dn - 1;
               top_shift = top_level * level_shift dn;
               top_index = unat (shr64 blkid top_shift)
           in rbind (ok_or (dnode_blkptr dn top_index)
                (OutOfRange ''top blkptr index'' (of_nat top_index) (of_nat (length (dn_blkptrs dn))))) (\<lambda>bp.
              descend x img dn blkid top_level bp))"

text \<open>
  \<^verbatim>\<open>blkid >> top_shift\<close> is a panic of a debug build (and a shift by the amount modulo 64 of a
  release build) for these dnodes.
\<close>

definition shift_overflows :: "dnode \<Rightarrow> bool" where
  "shift_overflows dn \<longleftrightarrow> dn_nlevels dn \<noteq> 0 \<and> 64 \<le> (tree_levels dn - 1) * level_shift dn"

definition mos_dnode :: "ext \<Rightarrow> bytes \<Rightarrow> objset \<Rightarrow> u64 \<Rightarrow> dnode option" where
  "mos_dnode x img os object_id =
     (let md = meta_dnode os; dblk = data_block_size md in
      if dblk = 0 then None
      else let dnodes_per_block = dblk div DNODE_SIZE in
        if dnodes_per_block = 0 then None
        else let blkid = object_id div of_nat dnodes_per_block;
                 within = unat (object_id mod of_nat dnodes_per_block) * DNODE_SIZE
             in do {
               blk \<leftarrow> res_ok (read_dnode_data x img md blkid);
               raw \<leftarrow> slice_get (blk_data blk) within (within + DNODE_SIZE);
               dn \<leftarrow> dnode_parse raw (os_endian os);
               if dn_type dn = 0 then None else Some dn
             })"

subsection \<open>Copy selection\<close>

text \<open>What one copy of a block yields: \<^term>\<open>None\<close> when it is empty, out of the image or undecodable.\<close>

definition copy_bytes :: "bytes \<Rightarrow> blkptr \<Rightarrow> dva \<Rightarrow> bytes option" where
  "copy_bytes img bp d =
     (if dva_is_empty d then None
      else slice_get img (unat (physical_byte_offset d))
             (sat_add (unat (physical_byte_offset d)) (psize_bytes bp)))"

definition copy_block :: "ext \<Rightarrow> bytes \<Rightarrow> blkptr \<Rightarrow> nat \<Rightarrow> dva \<Rightarrow> block option" where
  "copy_block x img bp i d = do {
     raw \<leftarrow> copy_bytes img bp d;
     data \<leftarrow> res_ok (decompress x (compress_from_raw (bp_compression bp)) raw (lsize_bytes bp));
     Some \<lparr>blk_data = data,
           blk_checksum_valid = verify x (checksum_from_raw (bp_checksum bp)) (bp_byteorder bp) raw
             (bp_checksum_words bp),
           blk_dva_used = of_nat i\<rparr> }"

fun first_copy :: "ext \<Rightarrow> bytes \<Rightarrow> blkptr \<Rightarrow> nat \<Rightarrow> dva list \<Rightarrow> block option" where
  "first_copy x img bp i [] = None"
| "first_copy x img bp i (d # ds) =
     (case copy_block x img bp i d of Some b \<Rightarrow> Some b | None \<Rightarrow> first_copy x img bp (Suc i) ds)"

lemma read_dvas_first_copy: "res_ok (read_dvas x img bp i ds e) = first_copy x img bp i ds"
  by (induction ds arbitrary: i e)
    (auto simp: copy_block_def copy_bytes_def Let_def split: option.splits sum.splits)

lemma first_copy_Some_iff:
  "first_copy x img bp i ds = Some b \<longleftrightarrow>
     (\<exists>k<length ds. copy_block x img bp (i + k) (ds ! k) = Some b \<and>
        (\<forall>j<k. copy_block x img bp (i + j) (ds ! j) = None))"
proof (induction ds arbitrary: i)
  case Nil
  show ?case by simp
next
  case (Cons d ds)
  then show ?case
    by (cases "copy_block x img bp i d") (auto simp: Ex_less_Suc2 All_less_Suc2)
qed


lemma read_dvas_Inr_iff:
  "read_dvas x img bp i ds e = Inr b \<longleftrightarrow> first_copy x img bp i ds = Some b"
  by (metis read_dvas_first_copy res_ok_Some_iff)

text \<open>A pointer whose block is on disk and whose logical size is allowed.\<close>

definition on_disk :: "blkptr \<Rightarrow> bool" where
  "on_disk bp \<longleftrightarrow> \<not> bp_embedded bp \<and> \<not> is_hole bp \<and> lsize_bytes bp \<le> MAX_BLOCK_SIZE"

lemma lsize_bytes_pos: "\<not> bp_embedded bp \<Longrightarrow> 0 < lsize_bytes bp"
  using sat_add_word_1 [of "bp_lsize_raw bp"] by (simp add: lsize_bytes_def)

lemma read_block_on_disk:
  "on_disk bp \<Longrightarrow> read_block x img bp = read_dvas x img bp 0 (bp_dvas bp)
     (Truncated ''block (no DVA readable)'' (psize_bytes bp) (length img))"
  using lsize_bytes_pos [of bp] by (auto simp: read_block_def on_disk_def Let_def)

lemma read_block_hole:
  "is_hole bp \<Longrightarrow> lsize_bytes bp \<le> MAX_BLOCK_SIZE \<Longrightarrow>
     read_block x img bp = Inr \<lparr>blk_data = replicate (lsize_bytes bp) 0, blk_checksum_valid = None, blk_dva_used = 0\<rparr>"
  using lsize_bytes_pos [of bp] by (auto simp: read_block_def is_hole_def Let_def)

lemma lsize_parse_allowed: "lsize_bytes (blkptr_parse raw e) \<noteq> 0" "lsize_bytes (blkptr_parse raw e) \<le> MAX_BLOCK_SIZE"
  using lsize_bytes_parse [of raw e] by (simp_all add: MAX_BLOCK_SIZE_def)

lemma read_dvas_length:
  assumes "codecs_bounded x" and "read_dvas x img bp i ds e = Inr b"
  shows "length (blk_data b) \<le> lsize_bytes bp"
proof -
  from assms(2) obtain k where "copy_block x img bp (i + k) (ds ! k) = Some b"
    by (auto simp: read_dvas_Inr_iff first_copy_Some_iff)
  then obtain raw where "decompress x (compress_from_raw (bp_compression bp)) raw (lsize_bytes bp) = Inr (blk_data b)"
    by (auto simp: copy_block_def res_simps bind_eq_Some_conv)
  then show ?thesis by (rule decompress_length_le [OF assms(1)])
qed

lemma read_block_length:
  assumes "codecs_bounded x" and "read_block x img bp = Inr b"
  shows "length (blk_data b) \<le> lsize_bytes bp"
  using assms read_dvas_length [OF assms(1)] decompress_length_le [OF assms(1)]
  by (auto simp: read_block_def Let_def res_simps split: if_splits)

subsection \<open>An object as a flat array of leaf blocks\<close>

text \<open>
  The bits of a block id one level of indirection consumes, the tree a top pointer roots (with its
  leaf blocks in order), and the leaves of a whole object.
\<close>

definition fan_bits :: "dnode \<Rightarrow> nat" where
  "fan_bits dn = min (unat (dn_indblkshift dn)) 24 - 7"

lemma ptrs_per_indirect_eq: "ptrs_per_indirect dn = 2 ^ fan_bits dn"
proof -
  have "max ((2::nat) ^ n div 128) 1 = 2 ^ (n - 7)" for n
  proof (cases "7 \<le> n")
    case True
    then have "(2::nat) ^ n = 2 ^ (n - 7) * 128" using power_add [of "2::nat" "n - 7" 7] by simp
    moreover have "1 \<le> (2::nat) ^ (n - 7)" by simp
    ultimately show ?thesis by (simp add: max_absorb1)
  next
    case False
    then have "(2::nat) ^ n < 2 ^ 7" by (intro power_strict_increasing) simp_all
    then show ?thesis using False by simp
  qed
  then show ?thesis
    by (simp only: ptrs_per_indirect_def indirect_block_size_def BLKPTR_SIZE_def fan_bits_def)
qed

lemma level_shift_eq: "level_shift dn = fan_bits dn"
  by (simp add: level_shift_def ptrs_per_indirect_eq trailing_zeros_pow2)

lemma fan_bits_le: "fan_bits dn \<le> 17"
  by (simp add: fan_bits_def)

lemma unat_shr64: "k < 64 \<Longrightarrow> unat (shr64 w k) = unat w div 2 ^ k"
  by (simp add: shr64_def unat_drop_bit)

lemma child_index_eq:
  "k < 64 \<Longrightarrow> unat (shr64 w k AND (of_nat (ptrs_per_indirect dn) - 1)) =
     unat w div 2 ^ k mod 2 ^ fan_bits dn"
proof -
  have "(of_nat (ptrs_per_indirect dn) - 1 :: u64) = mask (fan_bits dn)"
    by (simp add: ptrs_per_indirect_eq mask_eq_exp_minus_1)
  then show "k < 64 \<Longrightarrow> ?thesis" by (simp only: unat_and_mask unat_shr64)
qed

inductive block_tree :: "ext \<Rightarrow> bytes \<Rightarrow> dnode \<Rightarrow> nat \<Rightarrow> blkptr \<Rightarrow> bytes list \<Rightarrow> bool" for x img dn where
  leaf: "read_block x img bp = Inr b \<Longrightarrow> block_tree x img dn 0 bp [blk_data b]"
| hole: "is_hole bp \<Longrightarrow> lsize_bytes bp \<le> MAX_BLOCK_SIZE \<Longrightarrow>
    block_tree x img dn (Suc l) bp (replicate (2 ^ (fan_bits dn * Suc l)) (replicate (lsize_bytes bp) 0))"
| indirect: "\<not> is_hole bp \<Longrightarrow> read_block x img bp = Inr b \<Longrightarrow>
    length (blk_data b) = 128 * 2 ^ fan_bits dn \<Longrightarrow> length kids = 2 ^ fan_bits dn \<Longrightarrow>
    (\<And>i. i < 2 ^ fan_bits dn \<Longrightarrow>
       block_tree x img dn l (blkptr_parse (take 128 (drop (128 * i) (blk_data b))) (dn_endian dn)) (kids ! i)) \<Longrightarrow>
    block_tree x img dn (Suc l) bp (concat kids)"

inductive_cases block_tree_leafE: "block_tree x img dn 0 bp leaves"
inductive_cases block_tree_nodeE: "block_tree x img dn (Suc l) bp leaves"

lemma length_concat_const: "list_all (\<lambda>ys. length ys = m) xss \<Longrightarrow> length (concat xss) = length xss * m"
  by (induction xss) auto

lemma nth_concat_const:
  "list_all (\<lambda>ys. length ys = m) xss \<Longrightarrow> i < length xss \<Longrightarrow> j < m \<Longrightarrow> concat xss ! (i * m + j) = xss ! i ! j"
proof (induction xss arbitrary: i)
  case (Cons ys xss)
  then show ?case by (cases i) (auto simp: nth_append)
qed simp

lemma block_tree_length: "block_tree x img dn l bp leaves \<Longrightarrow> length leaves = 2 ^ (fan_bits dn * l)"
proof (induction rule: block_tree.induct)
  case (indirect bp b kids l)
  then have "list_all (\<lambda>ys. length ys = 2 ^ (fan_bits dn * l)) kids" by (simp add: list_all_length)
  then show ?case using indirect(4) by (simp add: length_concat_const power_add)
qed simp_all

lemma level_below: "s * (l - 1) \<le> l * (s :: nat)"
  by (cases l) simp_all

text \<open>One step down: the child at the index of the level, which holds the rest of the flat index.\<close>

lemma descend_step:
  assumes "read_block x img bp = Inr b" and "length (blk_data b) = 128 * 2 ^ fan_bits dn" and "l * fan_bits dn < 64"
    and "bp' = blkptr_parse (take 128 (drop (128 * (unat blkid div 2 ^ (l * fan_bits dn) mod 2 ^ fan_bits dn)) (blk_data b))) (dn_endian dn)"
  shows "descend x img dn blkid (Suc l) bp = (if is_hole bp' then read_block x img bp' else descend x img dn blkid l bp')"
proof -
  let ?s = "fan_bits dn" and ?i = "unat blkid div 2 ^ (l * fan_bits dn) mod 2 ^ fan_bits dn"
  have i: "?i < 2 ^ ?s" by simp
  also have "(2::nat) ^ ?s \<le> 2 ^ 17" using fan_bits_le by (rule power_increasing) simp
  finally have small: "sat_mul ?i 128 = 128 * ?i" "sat_add (128 * ?i) 128 = 128 * ?i + 128"
    by (simp_all add: sat_mul_def sat_add_def usize_max_def)
  have "128 * ?i + 128 \<le> 128 * 2 ^ ?s" using i by (metis Suc_leI mult_Suc_right mult_le_mono2 add.commute)
  then have "slice_get (blk_data b) (128 * ?i) (128 * ?i + 128) = Some (take 128 (drop (128 * ?i) (blk_data b)))"
    using assms(2) by (simp add: slice_get_def)
  then show ?thesis
    using assms(1,3,4) small by (simp add: level_shift_eq child_index_eq BLKPTR_SIZE_def Let_def)
qed

lemma flat_index:
  assumes "list_all (\<lambda>ys. length ys = 2 ^ (s * l)) kids" and "length kids = 2 ^ s"
  shows "concat kids ! (n mod 2 ^ (s * Suc l)) = kids ! (n div 2 ^ (l * s) mod 2 ^ s) ! (n mod 2 ^ (s * l))"
proof -
  let ?i = "n div 2 ^ (l * s) mod 2 ^ s"
  have "(2::nat) ^ (s * Suc l) = 2 ^ (l * s) * 2 ^ s" by (simp add: power_add mult.commute)
  then have "n mod 2 ^ (s * Suc l) = 2 ^ (l * s) * ?i + n mod 2 ^ (l * s)" by (simp only: mod_mult2_eq)
  then have "n mod 2 ^ (s * Suc l) = ?i * 2 ^ (s * l) + n mod 2 ^ (s * l)" by (simp only: mult.commute)
  then show ?thesis using assms by (simp add: nth_concat_const)
qed

lemma descend_leaf:
  assumes "block_tree x img dn l bp leaves" and "l = 0 \<or> \<not> is_hole bp" and "fan_bits dn * (l - 1) < 64"
  shows "map_option blk_data (res_ok (descend x img dn blkid l bp)) = Some (leaves ! (unat blkid mod 2 ^ (fan_bits dn * l)))"
  using assms
proof (induction rule: block_tree.induct)
  case (leaf bp b)
  then show ?case by simp
next
  case (hole bp l)
  then show ?case by simp
next
  case (indirect bp b kids l)
  let ?s = "fan_bits dn" and ?n = "unat blkid"
  let ?i = "?n div 2 ^ (l * ?s) mod 2 ^ ?s"
  let ?bp = "blkptr_parse (take 128 (drop (128 * ?i) (blk_data b))) (dn_endian dn)"
  have sh: "l * ?s < 64" using indirect.prems by (simp add: mult.commute)
  have i: "?i < 2 ^ ?s" by simp
  note step = descend_step [OF indirect.hyps(2,3) sh refl, of blkid]
  have kid: "block_tree x img dn l ?bp (kids ! ?i)" using indirect.hyps i by blast
  have "list_all (\<lambda>ys. length ys = 2 ^ (?s * l)) kids"
    using indirect.hyps(4,5) by (auto simp: list_all_length dest: block_tree_length)
  note idx = flat_index [OF this indirect.hyps(4), of ?n]
  show ?case
  proof (cases "is_hole ?bp \<and> l \<noteq> 0")
    case True
    then obtain l' where l': "l = Suc l'" by (cases l) auto
    have "kids ! ?i = replicate (2 ^ (?s * l)) (replicate (lsize_bytes ?bp) 0)"
      using kid True unfolding l' by (auto elim: block_tree_nodeE)
    then show ?thesis
      using True step idx lsize_parse_allowed(2) by (simp add: read_block_hole)
  next
    case False
    then have "descend x img dn blkid (Suc l) bp = descend x img dn blkid l ?bp" using step by auto
    moreover have "?s * (l - 1) \<le> l * ?s" by (rule level_below)
    then have "?s * (l - 1) < 64" using sh by linarith
    ultimately show ?thesis using indirect.IH [OF i] False idx by auto
  qed
qed

definition object_tree :: "ext \<Rightarrow> bytes \<Rightarrow> dnode \<Rightarrow> bytes list list \<Rightarrow> bool" where
  "object_tree x img dn tops \<longleftrightarrow>
     dn_nlevels dn \<noteq> 0 \<and> \<not> shift_overflows dn \<and>
     list_all2 (block_tree x img dn (tree_levels dn - 1)) (dn_blkptrs dn) tops \<and>
     (tree_levels dn = 1 \<or> list_all (\<lambda>bp. \<not> is_hole bp) (dn_blkptrs dn))"

lemma read_dnode_data_leaf:
  assumes tree: "object_tree x img dn tops" and "blkid \<le> dn_maxblkid dn"
    and inside: "unat blkid < length (concat tops)"
  shows "\<exists>b. read_dnode_data x img dn blkid = Inr b \<and> blk_data b = concat tops ! unat blkid"
proof -
  let ?s = "fan_bits dn" and ?n = "unat blkid" and ?l = "tree_levels dn - 1"
  let ?top = "?n div 2 ^ (?l * ?s)" and ?m = "2 ^ (?s * ?l) :: nat"
  have nz: "dn_nlevels dn \<noteq> 0" and sh: "?l * ?s < 64"
    and tops: "list_all2 (block_tree x img dn ?l) (dn_blkptrs dn) tops"
    and holes: "?l = 0 \<or> list_all (\<lambda>bp. \<not> is_hole bp) (dn_blkptrs dn)"
    using tree unfolding object_tree_def shift_overflows_def level_shift_eq by auto
  have len: "list_all (\<lambda>ys. length ys = ?m) tops"
    using tops by (auto simp: list_all_length list_all2_conv_all_nth dest: block_tree_length)
  have "?n < length tops * ?m" using inside len by (simp add: length_concat_const)
  then have top: "?top < length tops" by (simp add: less_mult_imp_div_less mult.commute)
  then have bp: "dnode_blkptr dn ?top = Some (dn_blkptrs dn ! ?top)"
    using tops by (simp add: dnode_blkptr_def nth_get_def list_all2_lengthD)
  have "?n = ?top * ?m + ?n mod ?m" by (simp add: mult.commute)
  then have leaf: "concat tops ! ?n = tops ! ?top ! (?n mod ?m)"
    using nth_concat_const [OF len top, of "?n mod ?m"] by simp
  have kid: "block_tree x img dn ?l (dn_blkptrs dn ! ?top) (tops ! ?top)"
    using tops top by (auto simp: list_all2_conv_all_nth)
  have "?l = 0 \<or> \<not> is_hole (dn_blkptrs dn ! ?top)"
    using holes top list_all2_lengthD [OF tops] unfolding list_all_length by metis
  moreover have "?s * (?l - 1) \<le> ?l * ?s" by (rule level_below)
  then have "?s * (?l - 1) < 64" using sh by linarith
  ultimately obtain b where "descend x img dn blkid ?l (dn_blkptrs dn ! ?top) = Inr b"
      "blk_data b = concat tops ! ?n"
    using descend_leaf [OF kid, of blkid] leaf by (auto simp: res_simps)
  then show ?thesis
    using nz assms(2) sh bp
    by (simp add: read_dnode_data_def Let_def level_shift_eq unat_shr64)
qed


text \<open>The dnode at a slot of the flat object array.\<close>

definition slot_dnode :: "bytes \<Rightarrow> nat \<Rightarrow> endian \<Rightarrow> dnode option" where
  "slot_dnode flat k e =
     (case dnode_parse (take 512 (drop (512 * k) flat)) e of
        None \<Rightarrow> None | Some dn \<Rightarrow> if dn_type dn = 0 then None else Some dn)"

lemma drop_concat_const:
  "list_all (\<lambda>ys. length ys = m) xss \<Longrightarrow> i < length xss \<Longrightarrow> j + n \<le> m \<Longrightarrow>
     take n (drop (i * m + j) (concat xss)) = take n (drop j (xss ! i))"
proof (induction xss arbitrary: i)
  case (Cons ys xss)
  then show ?case by (cases i) (auto simp: add.assoc)
qed simp

text \<open>Slot \<open>n\<close> of a flat array of blocks of \<open>d\<close> slots lies in block \<open>n div d\<close>.\<close>

lemma slot_of_blocks:
  assumes "list_all (\<lambda>b. length b = 512 * d) ls" and "0 < d" and "n div d < length ls"
  shows "slice_get (ls ! (n div d)) (n mod d * 512) (n mod d * 512 + 512) = Some (take 512 (drop (512 * n) (concat ls)))"
proof -
  have len: "length (ls ! (n div d)) = 512 * d" using assms(1,3) by (simp add: list_all_length)
  have fit: "512 * (n mod d) + 512 \<le> 512 * d"
    using mod_less_divisor [OF assms(2), of n] by linarith
  have "512 * n = n div d * (512 * d) + 512 * (n mod d)"
    by (metis distrib_left div_mult_mod_eq mult.left_commute)
  then have "take 512 (drop (512 * n) (concat ls)) = take 512 (drop (512 * (n mod d)) (ls ! (n div d)))"
    using drop_concat_const [OF assms(1,3) fit] by simp
  then show ?thesis using fit len by (simp only: slice_get_def mult.commute) simp
qed

lemma mos_dnode_flat:
  assumes tree: "object_tree x img (meta_dnode os) tops"
    and leaves: "list_all (\<lambda>b. length b = data_block_size (meta_dnode os)) (concat tops)"
    and size: "0 < data_block_size (meta_dnode os)"
    and maxid: "unat (dn_maxblkid (meta_dnode os)) + 1 \<le> length (concat tops)"
    and inside: "512 * unat k + 512 \<le> data_block_size (meta_dnode os) * (unat (dn_maxblkid (meta_dnode os)) + 1)"
  shows "mos_dnode x img os k = slot_dnode (concat (concat tops)) (unat k) (os_endian os)"
proof -
  let ?md = "meta_dnode os"
  let ?ls = "concat tops" and ?n = "unat k"
  define d where "d = unat (dn_datablkszsec ?md)"
  have sz: "data_block_size ?md = 512 * d" by (simp add: data_block_size_def d_def)
  then have d: "0 < d" "data_block_size ?md div 512 = d" using size by simp_all
  have "d < 2 ^ 64" using data_block_size_bound [of ?md] sz by simp
  then have div: "unat (k div of_nat d) = ?n div d" and rem: "unat (k mod of_nat d) = ?n mod d"
    by (simp_all add: unat_div unat_mod unat_of_nat)
  have "512 * (?n + 1) \<le> 512 * ((unat (dn_maxblkid ?md) + 1) * d)"
    using inside unfolding sz by (simp add: algebra_simps)
  then have "?n + 1 \<le> (unat (dn_maxblkid ?md) + 1) * d" by (subst (asm) mult_le_cancel1) simp
  then have "?n < (unat (dn_maxblkid ?md) + 1) * d" by (simp only: Suc_eq_plus1 [symmetric] Suc_le_eq)
  then have blk: "?n div d < unat (dn_maxblkid ?md) + 1" by (rule less_mult_imp_div_less)
  then have "k div of_nat d \<le> dn_maxblkid ?md" by (simp add: word_le_nat_alt div)
  then obtain b where b: "read_dnode_data x img ?md (k div of_nat d) = Inr b" "blk_data b = ?ls ! (?n div d)"
    using read_dnode_data_leaf [OF tree, of "k div of_nat d"] blk maxid by (auto simp: div)
  have "slice_get (blk_data b) (?n mod d * 512) (?n mod d * 512 + 512) =
      Some (take 512 (drop (512 * ?n) (concat ?ls)))"
    using slot_of_blocks [OF leaves [unfolded sz] d(1), of ?n] blk maxid b(2) by simp
  then show ?thesis
    using size d b(1)
    by (simp add: mos_dnode_def slot_dnode_def DNODE_SIZE_def Let_def rem split: option.splits)
qed

subsection \<open>Properties\<close>

text \<open>A pointer with its second copy inside a small image, its first outside it.\<close>

definition ditto_blkptr :: blkptr where
  "ditto_blkptr = blkptr_default\<lparr>bp_compression := 2, bp_dvas :=
     [dva_default\<lparr>dva_offset_sectors := 0x7ffffffffff\<rparr>, dva_default\<lparr>dva_vdev := 1\<rparr>, dva_default]\<rparr>"

text \<open>
  C14. Reading an on-disk block yields the first of its copies that is present, inside the image
  and decodable, together with the checksum verdict over that copy's own bytes; a copy is used
  only when every earlier one failed.
\<close>

theorem read_block_first_good_copy:
  assumes "on_disk bp"
  shows "read_block x img bp = Inr b \<longleftrightarrow>
    (\<exists>k<length (bp_dvas bp). copy_block x img bp k (bp_dvas bp ! k) = Some b \<and>
       (\<forall>j<k. copy_block x img bp j (bp_dvas bp ! j) = None))"
  by (simp add: read_block_on_disk [OF assms] read_dvas_Inr_iff first_copy_Some_iff)

lemma ditto_blkptr_disk:
  "on_disk ditto_blkptr" "lsize_bytes ditto_blkptr = 512" "psize_bytes ditto_blkptr = 512"
  by (simp_all add: ditto_blkptr_def on_disk_def is_hole_def dva_is_empty_def blkptr_default_def
    dva_default_def lsize_bytes_def psize_bytes_def sat_add_def usize_max_def MAX_BLOCK_SIZE_def)

lemma read_block_first_good_copy_witness:
  "read_block no_codecs (replicate 0x400000 1 @ replicate 512 7) ditto_blkptr =
     Inr \<lparr>blk_data = replicate 512 7, blk_checksum_valid = None, blk_dva_used = 1\<rparr>"
proof -
  let ?img = "replicate 0x400000 1 @ replicate 512 (7 :: u8)"
  let ?bp = ditto_blkptr
  have off: "unat (physical_byte_offset (dva_default\<lparr>dva_offset_sectors := 0x7ffffffffff\<rparr>)) = 0xffffffffffe00 + 0x400000"
    "unat (physical_byte_offset (dva_default\<lparr>dva_vdev := 1\<rparr>)) = 0x400000"
    by (simp_all add: unat_physical_byte_offset dva_default_def)
  have dvas: "bp_dvas ?bp ! 0 = dva_default\<lparr>dva_offset_sectors := 0x7ffffffffff\<rparr>"
      "bp_dvas ?bp ! 1 = dva_default\<lparr>dva_vdev := 1\<rparr>" "length (bp_dvas ?bp) = 3"
    by (simp_all add: ditto_blkptr_def)
  have comp: "compress_from_raw (bp_compression ?bp) = CzOff" "checksum_from_raw (bp_checksum ?bp) = CkInherit"
    by (simp_all add: ditto_blkptr_def blkptr_default_def compress_from_raw_def checksum_from_raw_def)
  have first: "copy_block no_codecs ?img ?bp 0 (bp_dvas ?bp ! 0) = None"
    unfolding dvas copy_block_def copy_bytes_def off ditto_blkptr_disk
    by (simp add: sat_add_def usize_max_def slice_get_def dva_is_empty_def)
  have raw: "copy_bytes ?img ?bp (bp_dvas ?bp ! 1) = Some (replicate 512 7)"
    using slice_get_prefix [of "replicate 512 (7 :: u8)" 512 "replicate 0x400000 1" "[]"]
    unfolding dvas copy_bytes_def off ditto_blkptr_disk
    by (simp add: sat_add_def usize_max_def dva_is_empty_def)
  have second: "copy_block no_codecs ?img ?bp 1 (bp_dvas ?bp ! 1) =
      Some \<lparr>blk_data = replicate 512 7, blk_checksum_valid = None, blk_dva_used = 1\<rparr>"
    unfolding copy_block_def raw comp ditto_blkptr_disk
    by (simp add: decompress_def decompress_off_def Let_def verify_def)
  show ?thesis
    unfolding read_block_first_good_copy [OF ditto_blkptr_disk(1)] dvas(3)
    using first second by (intro exI [of _ 1]) simp
qed

lemma read_dvas_exact:
  assumes "read_dvas x img bp i ds e = Inr b" and "bp_compression bp \<noteq> 15"
  shows "length (blk_data b) = lsize_bytes bp"
proof -
  from assms(1) obtain k where "copy_block x img bp (i + k) (ds ! k) = Some b"
    by (auto simp: read_dvas_Inr_iff first_copy_Some_iff)
  then obtain raw where "decompress x (compress_from_raw (bp_compression bp)) raw (lsize_bytes bp) = Inr (blk_data b)"
    by (auto simp: copy_block_def res_simps bind_eq_Some_conv)
  moreover have "compress_from_raw (bp_compression bp) \<noteq> CzLz4"
    using assms(2) by (auto simp: compress_from_raw_def)
  ultimately show ?thesis by (rule decompress_length)
qed

text \<open>
  A block that is returned is never larger than its pointer's logical size, which is at most
  32 MiB, and is exactly that size under every codec but LZ4.
\<close>

lemma read_block_size:
  assumes "codecs_bounded x" and "read_block x img bp = Inr b"
  shows "length (blk_data b) \<le> lsize_bytes bp \<and> lsize_bytes bp \<le> 2 ^ 25 \<and>
    (bp_compression bp \<noteq> 15 \<longrightarrow> length (blk_data b) = lsize_bytes bp)"
proof -
  have "compress_from_raw (bp_compression bp) = CzLz4 \<longleftrightarrow> bp_compression bp = 15"
    by (auto simp: compress_from_raw_def)
  then have "bp_compression bp \<noteq> 15 \<Longrightarrow> length (blk_data b) = lsize_bytes bp"
    using assms(2) read_dvas_exact [of x img bp _ _ _ b] decompress_length
    by (auto simp: read_block_def Let_def res_simps split: if_splits)
  moreover have "lsize_bytes bp \<le> 2 ^ 25"
    using assms(2) by (auto simp: read_block_def Let_def MAX_BLOCK_SIZE_def split: if_splits)
  ultimately show ?thesis using read_block_length [OF assms] by blast
qed

lemma read_block_zeros:
  "read_block x img (blkptr_parse (replicate n 0) e) =
     Inr \<lparr>blk_data = replicate 512 0, blk_checksum_valid = None, blk_dva_used = 0\<rparr>"
  using read_block_hole [OF blkptr_parse_zeros(1) lsize_parse_allowed(2)]
  by (simp add: blkptr_parse_zeros(2))


definition read_error :: "zfs_error \<Rightarrow> bool" where
  "read_error e \<longleftrightarrow> decode_error e \<or> (\<exists>what need has. e = Truncated what need has)"

lemma read_dvas_error:
  "read_dvas x img bp i ds e0 = Inl e \<Longrightarrow> read_error e0 \<Longrightarrow> read_error e"
proof (induction ds arbitrary: i e0)
  case (Cons d ds)
  then show ?case
    using decompress_error
    by (fastforce simp: Let_def read_error_def split: if_splits option.splits sum.splits)
qed simp

text \<open>
  A pointer decoded from any bytes never trips the allocation guard: the only errors of
  reading its block are copies outside the image (the last one is reported) and the codec's.
\<close>

lemma read_block_parsed_error:
  "read_block x img (blkptr_parse raw e) = Inl err \<Longrightarrow> read_error err"
  using lsize_parse_allowed [of raw e]
  using read_dvas_error [of x img "blkptr_parse raw e" 0 "bp_dvas (blkptr_parse raw e)" _ err]
  by (auto simp: read_block_def Let_def res_simps read_error_def dest: decompress_error split: if_splits)

definition inline_blkptr :: "bytes \<Rightarrow> usize \<Rightarrow> blkptr" where
  "inline_blkptr payload lsize = blkptr_default\<lparr>bp_embedded := True, bp_compression := 2,
     bp_embedded_lsize := of_nat lsize, bp_embedded_psize := of_nat (length payload),
     bp_embedded_payload := payload @ replicate (112 - length payload) 0\<rparr>"

lemma read_inline_blkptr:
  assumes "length payload \<le> 112" and "length payload \<le> lsize" and "0 < lsize" and "lsize \<le> 2 ^ 25"
  shows "read_block x img (inline_blkptr payload lsize) =
    Inr \<lparr>blk_data = payload @ replicate (lsize - length payload) 0, blk_checksum_valid = None, blk_dva_used = 0\<rparr>"
proof -
  have "unat (of_nat lsize :: u32) = lsize" "unat (of_nat (length payload) :: u32) = length payload"
    using assms by (simp_all add: unat_of_nat)
  then show ?thesis
    using assms
    by (simp add: read_block_def inline_blkptr_def lsize_bytes_def MAX_BLOCK_SIZE_def embedded_data_def
      BPE_PAYLOAD_SIZE_def compress_from_raw_def blkptr_default_def decompress_def decompress_off_def
      min_def Let_def)
qed

definition inline_object :: "bytes list \<Rightarrow> dnode" where
  "inline_object payloads = (sample_dnode Little)\<lparr>dn_type := 10, dn_nlevels := 1, dn_nblkptr := of_nat (length payloads),
     dn_datablkszsec := 1, dn_maxblkid := of_nat (length payloads - 1),
     dn_blkptrs := map (\<lambda>p. inline_blkptr p 512) payloads\<rparr>"

lemma inline_object_tree:
  assumes "list_all (\<lambda>p. length p \<le> 112) payloads"
  shows "object_tree x img (inline_object payloads) (map (\<lambda>p. [p @ replicate (512 - length p) 0]) payloads)"
proof -
  have "tree_levels (inline_object payloads) = 1"
    by (simp add: tree_levels_def inline_object_def MAX_INDIRECT_LEVELS_def min_def)
  moreover have "block_tree x img dn 0 (inline_blkptr p 512) [p @ replicate (512 - length p) 0]" 
    if "p \<in> set payloads" for dn p
  proof -
    have "length p \<le> 112" using that assms by (simp add: list_all_iff)
    then show ?thesis using block_tree.leaf [OF read_inline_blkptr [of p 512 x img], of dn] by simp
  qed
  ultimately show ?thesis
    by (simp add: object_tree_def shift_overflows_def inline_object_def list_all2_conv_all_nth)
qed

text \<open>
  C11. The indirect-block walk is indexing: when the block trees under a dnode's pointers have the
  leaves \<open>tops\<close> (holes below the top level included), reading block \<open>blkid\<close> yields leaf number
  \<open>blkid\<close> of the flat sequence.
\<close>

theorem read_dnode_data_flat:
  assumes "object_tree x img dn tops" and "blkid \<le> dn_maxblkid dn" and "unat blkid < length (concat tops)"
  shows "\<exists>b. read_dnode_data x img dn blkid = Inr b \<and> blk_data b = concat tops ! unat blkid"
  by (rule read_dnode_data_leaf [OF assms])

text \<open>
  C12. An object set is an array of 512-byte slots: when the meta-dnode's tree has leaves of the
  data block size, fetching object \<open>k\<close> decodes slot \<open>k\<close> of their concatenation and rejects an
  unallocated slot.
\<close>

theorem mos_dnode_is_slot:
  assumes "object_tree x img (meta_dnode os) tops"
    and "list_all (\<lambda>b. length b = data_block_size (meta_dnode os)) (concat tops)"
    and "0 < data_block_size (meta_dnode os)"
    and "unat (dn_maxblkid (meta_dnode os)) + 1 \<le> length (concat tops)"
    and "512 * unat k + 512 \<le> data_block_size (meta_dnode os) * (unat (dn_maxblkid (meta_dnode os)) + 1)"
  shows "mos_dnode x img os k = slot_dnode (concat (concat tops)) (unat k) (os_endian os)"
  by (rule mos_dnode_flat [OF assms])

text \<open>
  The shift of the walk reaches 64 (a panic of a debug build) exactly for the dnodes whose
  levels times index bits do, up to 7 levels of 17 bits; with four levels or fewer it never does.
\<close>

lemma shift_overflows_iff:
  "shift_overflows dn \<longleftrightarrow> dn_nlevels dn \<noteq> 0 \<and>
     64 \<le> (min (unat (dn_nlevels dn)) 8 - 1) * (min (unat (dn_indblkshift dn)) 24 - 7)"
  by (simp add: shift_overflows_def level_shift_eq fan_bits_def tree_levels_def MAX_INDIRECT_LEVELS_def
    min_def word_le_nat_alt)

text \<open>
  A hole in a one-level object is read as its own 512 bytes, not as a data block: an object
  whose data blocks are larger loses the rest of the block.
\<close>

lemma sparse_block_is_one_sector:
  assumes "dn_nlevels dn = 1" and "blkid \<le> dn_maxblkid dn"
    and "dnode_blkptr dn (unat blkid) = Some (blkptr_parse (replicate n 0) e)"
  shows "map_option (length \<circ> blk_data) (res_ok (read_dnode_data x img dn blkid)) = Some 512"
  using assms by (simp add: read_dnode_data_def tree_levels_def MAX_INDIRECT_LEVELS_def min_def
    shr64_def read_block_zeros)

lemma sparse_block_is_one_sector_witness:
  "map_option (length \<circ> blk_data) (res_ok (read_dnode_data no_codecs []
     ((sample_dnode Little)\<lparr>dn_nlevels := 1, dn_datablkszsec := 256, dn_blkptrs := [blkptr_parse (replicate 128 0) Little]\<rparr>) 0)) = Some 512"
  using sparse_block_is_one_sector [of "(sample_dnode Little)\<lparr>dn_nlevels := 1, dn_datablkszsec := 256,
      dn_blkptrs := [blkptr_parse (replicate 128 0) Little]\<rparr>" 0 128 Little no_codecs "[]"]
  by (simp add: dnode_blkptr_def nth_get_def)

text \<open>
  A hole directly under a dnode with indirect blocks is read as if it were an indirect block of
  zeros: the walk fails past the children the pointer's own size has room for, and before that
  yields 512 bytes.
\<close>

lemma top_hole_walk:
  assumes "is_hole bp" and "lsize_bytes bp \<le> MAX_BLOCK_SIZE"
    and "i = unat (shr64 blkid (l * level_shift dn) AND (of_nat (ptrs_per_indirect dn) - 1))" and "i < 2 ^ 32"
  shows "descend x img dn blkid (Suc l) bp =
    (if 128 * i + 128 \<le> lsize_bytes bp
     then Inr \<lparr>blk_data = replicate 512 0, blk_checksum_valid = None, blk_dva_used = 0\<rparr>
     else Inl (OutOfRange ''indirect child index'' (of_nat i) (of_nat (lsize_bytes bp div 128))))"
proof -
  have arith: "sat_mul i BLKPTR_SIZE = 128 * i" "sat_add (128 * i) BLKPTR_SIZE = 128 * i + 128"
    using assms(4) by (simp_all add: sat_mul_def sat_add_def usize_max_def BLKPTR_SIZE_def)
  have "slice_get (replicate (lsize_bytes bp) (0 :: u8)) (128 * i) (128 * i + 128) =
      (if 128 * i + 128 \<le> lsize_bytes bp then Some (replicate 128 0) else None)"
    by (simp add: slice_get_def)
  then show ?thesis
    using blkptr_parse_zeros(1) [of 128 "dn_endian dn"] read_block_zeros [of x img 128 "dn_endian dn"]
    unfolding descend.simps read_block_hole [OF assms(1,2)] rbind_def sum.case Let_def assms(3) [symmetric] arith
      block.select_convs length_replicate
    by (simp add: ok_or_def BLKPTR_SIZE_def)
qed

lemma bonus_outside:
  assumes "dnode_parse raw e = Some dn" and "length raw = 512"
    and "512 < 64 + 128 * unat (dn_nblkptr dn) + unat (dn_bonuslen dn)"
    and "64 + 128 * unat (dn_nblkptr dn) + unat (dn_bonuslen dn) \<le> 512 * (unat (dn_extra_slots dn) + 1)"
  shows "dn_bonus dn = []"
proof -
  note f = dnode_parse_fields [OF assms(1)]
  have "unat (u8_at raw 3) \<le> (dnode_total_bytes raw - 64) div 128"
    using assms(4) unfolding f dnode_total_bytes_eq by linarith
  then have n: "dnode_nblkptr raw = unat (u8_at raw 3)"
    by (simp add: dnode_nblkptr_def Let_def dnode_sizes)
  have "dnode_bonus_bytes raw e = []"
    using assms(2-4) unfolding f dnode_bonus_bytes_def n dnode_sizes Let_def dnode_total_bytes_eq
    by (simp add: slice_get_None mult.commute min_absorb1)
  then show ?thesis using f by simp
qed

text \<open>An object set of one object, its dnode inline in the meta-dnode's pointer.\<close>

definition one_object :: "bytes \<Rightarrow> objset" where
  "one_object p = \<lparr>meta_dnode = inline_object [p], os_type = 2, os_flags = 0, os_endian = Little\<rparr>"

lemma mos_dnode_one_object:
  assumes "length p \<le> 112" and "dnode_parse (p @ replicate (512 - length p) 0) Little = Some dn" and "dn_type dn \<noteq> 0"
  shows "mos_dnode x img (one_object p) 0 = Some dn"
  using assms mos_dnode_flat [of x img "one_object p" "[[p @ replicate (512 - length p) 0]]" 0]
    inline_object_tree [of "[p]" x img]
  by (simp add: one_object_def inline_object_def data_block_size_def slot_dnode_def)

text \<open>
  C39. Objects are always decoded from one 512-byte slot: a dnode whose pointers and bonus need the
  extra slots it declares comes back with an empty bonus.
\<close>

theorem mos_dnode_large_loses_bonus:
  assumes "mos_dnode x img os k = Some dn"
    and "512 < 64 + 128 * unat (dn_nblkptr dn) + unat (dn_bonuslen dn)"
    and "64 + 128 * unat (dn_nblkptr dn) + unat (dn_bonuslen dn) \<le> 512 * (unat (dn_extra_slots dn) + 1)"
  shows "dn_bonus dn = []"
proof -
  from assms(1) obtain raw where "length raw = 512" "dnode_parse raw (os_endian os) = Some dn"
    by (auto simp: mos_dnode_def Let_def DNODE_SIZE_def bind_eq_Some_conv dest!: slice_get_length split: if_splits)
  then show ?thesis using bonus_outside assms(2,3) by blast
qed


lemma one_object_exists:
  assumes "2 \<le> length p" and "length p \<le> 112" and "p ! 0 \<noteq> 0"
  obtains dn where "dnode_parse (p @ replicate (512 - length p) 0) Little = Some dn"
    "mos_dnode x img (one_object p) 0 = Some dn"
proof -
  let ?raw = "p @ replicate (512 - length p) 0"
  obtain dn where dn: "dnode_parse ?raw Little = Some dn"
    using assms dnode_parse_None_iff [of ?raw Little] by auto
  moreover have "dn_type dn = p ! 0"
    using dn assms(1) by (auto simp: dnode_parse_def Let_def u8_at_in nth_append split: if_splits)
  ultimately show ?thesis using mos_dnode_one_object [OF assms(2), of dn x img] assms(3) that by simp
qed

lemma mos_dnode_large_loses_bonus_witness:
  "\<exists>dn. mos_dnode no_codecs [] (one_object [17, 0, 1, 1, 44, 0, 0, 0, 1, 0, 0x60, 2, 1]) 0 = Some dn \<and>
    dn_bonuslen dn = 608 \<and> dn_bonus dn = []"
proof -
  let ?p = "[17, 0, 1, 1, 44, 0, 0, 0, 1, 0, 0x60, 2, 1] :: bytes"
  obtain dn where dn: "dnode_parse (?p @ replicate (512 - length ?p) 0) Little = Some dn"
      and m: "mos_dnode no_codecs [] (one_object ?p) 0 = Some dn"
    by (rule one_object_exists [of ?p]) simp_all
  have "dn_bonuslen dn = 608" "dn_nblkptr dn = 1" "dn_extra_slots dn = 1"
    by (simp_all add: dnode_parse_fields [OF dn] rd16.in_range dec_bytes_def from_le_bytes_def u8_at_in)
  then show ?thesis using mos_dnode_large_loses_bonus [OF m] m by simp
qed

subsection \<open>Pointers of a decoded dnode\<close>

text \<open>A pointer the program itself decoded, from whatever bytes.\<close>

definition parsed_ptr :: "blkptr \<Rightarrow> bool" where
  "parsed_ptr bp \<longleftrightarrow> (\<exists>raw e. bp = blkptr_parse raw e)"

lemma parsed_ptr_parse [simp]: "parsed_ptr (blkptr_parse raw e)"
  by (auto simp: parsed_ptr_def)

lemma dnode_parse_parsed: "dnode_parse raw e = Some dn \<Longrightarrow> list_all parsed_ptr (dn_blkptrs dn)"
  using dnode_blkptr_loop_parsed [of e raw "[0..<dnode_nblkptr raw]"]
  by (fastforce simp: dnode_parse_fields(1) list_all_iff parsed_ptr_def)

lemma mos_dnode_Some:
  assumes "mos_dnode x img os obj = Some dn"
  obtains raw where "length raw = 512" "dnode_parse raw (os_endian os) = Some dn" "dn_type dn \<noteq> 0"
  using assms
  by (auto simp: mos_dnode_def Let_def DNODE_SIZE_def bind_eq_Some_conv dest!: slice_get_length split: if_splits)

lemma mos_dnode_parsed: "mos_dnode x img os obj = Some dn \<Longrightarrow> list_all parsed_ptr (dn_blkptrs dn)"
  by (erule mos_dnode_Some) (rule dnode_parse_parsed)

text \<open>What a decoded dnode takes of the bytes it is decoded from.\<close>

lemma dnode_blkptr_loop_end:
  "length raw \<ge> 64 + 128 * a \<Longrightarrow> 64 + 128 * (a + length (dnode_blkptr_loop raw e [a..<b])) \<le> length raw"
proof (induction "b - a" arbitrary: a)
  case (Suc n)
  show ?case
  proof (cases "64 + 128 * Suc a \<le> length raw")
    case True
    then have "slice_get raw (64 + a * 128) (64 + a * 128 + 128) = Some (take 128 (drop (64 + a * 128) raw))"
      by (simp add: slice_get_Some_iff)
    then show ?thesis
      using Suc(1) [of "Suc a"] Suc(2) True by (simp add: upt_conv_Cons dnode_sizes Let_def)
  next
    case False
    then have "slice_get raw (64 + a * 128) (64 + a * 128 + 128) = None"
      by (simp add: slice_get_None)
    then show ?thesis using Suc(2,3) by (simp add: upt_conv_Cons dnode_sizes Let_def)
  qed
qed simp

lemma dnode_parse_within:
  assumes "dnode_parse raw e = Some dn"
  shows "64 + 128 * length (dn_blkptrs dn) + length (dn_bonus dn) \<le> length raw"
proof -
  note f = dnode_parse_fields [OF assms]
  have long: "64 \<le> length raw" using assms dnode_parse_None_iff [of raw e] by force
  have ptrs: "64 + 128 * length (dn_blkptrs dn) \<le> length raw"
    using dnode_blkptr_loop_end [of 0 raw e "dnode_nblkptr raw"] long by (simp add: f)
  show ?thesis
  proof (cases "dn_bonus dn = []")
    case False
    then have "64 + 128 * dnode_nblkptr raw + length (dn_bonus dn) \<le> length raw"
      unfolding f dnode_bonus_bytes_def Let_def dnode_sizes
      by (auto simp: slice_get_Some_iff mult.commute split: option.splits)
    moreover have "length (dn_blkptrs dn) \<le> dnode_nblkptr raw"
      using length_dnode_blkptr_loop [of raw e "[0..<dnode_nblkptr raw]"] by (simp add: f)
    ultimately show ?thesis by linarith
  qed (use ptrs in simp)
qed

subsection \<open>Errors of the walk\<close>

definition walk_error :: "zfs_error \<Rightarrow> bool" where
  "walk_error e \<longleftrightarrow> read_error e \<or> (\<exists>what v bound. e = OutOfRange what v bound)"

lemma walk_error_simps [simp]: "walk_error (OutOfRange w v b)" "walk_error (Truncated w n h)"
  by (auto simp: walk_error_def read_error_def)

lemma read_parsed_error: "parsed_ptr bp \<Longrightarrow> read_block x img bp = Inl err \<Longrightarrow> read_error err"
  unfolding parsed_ptr_def by (elim exE, hypsubst) (rule read_block_parsed_error)

lemma read_parsed_walk: "read_block x img bp = Inl err \<Longrightarrow> parsed_ptr bp \<Longrightarrow> walk_error err"
  by (simp add: walk_error_def read_parsed_error)

lemma descend_parsed_error: "descend x img dn blkid l bp = Inl err \<Longrightarrow> parsed_ptr bp \<Longrightarrow> walk_error err"
proof (induction l arbitrary: bp)
  case (Suc l)
  then show ?case
    by (auto simp: Let_def res_simps ok_or_def dest: read_parsed_walk split: if_splits option.splits)
qed (simp add: read_parsed_walk)

lemma read_dnode_data_error:
  assumes "list_all parsed_ptr (dn_blkptrs dn)" and "read_dnode_data x img dn blkid = Inl err"
  shows "walk_error err"
  using assms descend_parsed_error
  by (fastforce simp: read_dnode_data_def Let_def res_simps ok_or_def dnode_blkptr_def nth_get_def list_all_length
    split: if_splits option.splits)

text \<open>
  C24. Every dnode the object lookup returns is allocated, has the object set's byte order, carries no
  more pointers and bonus than it declares and than fit its 512-byte slot, and the logical
  size of each pointer is at most 32 MiB and at least one byte, or at least 512 bytes when it is not
  embedded.
\<close>

theorem mos_dnode_invariant:
  assumes "mos_dnode x img os k = Some dn"
  shows "dn_type dn \<noteq> 0 \<and> dn_endian dn = os_endian os \<and>
    length (dn_blkptrs dn) \<le> unat (dn_nblkptr dn) \<and> length (dn_bonus dn) \<le> unat (dn_bonuslen dn) \<and>
    64 + 128 * length (dn_blkptrs dn) + length (dn_bonus dn) \<le> 512 \<and>
    list_all (\<lambda>bp. (if bp_embedded bp then 1 else 512) \<le> lsize_bytes bp \<and> lsize_bytes bp \<le> 2 ^ 25) (dn_blkptrs dn)"
proof -
  obtain raw where "length raw = 512" "dnode_parse raw (os_endian os) = Some dn" "dn_type dn \<noteq> 0"
    using assms by (rule mos_dnode_Some)
  moreover have "512 \<le> lsize_bytes bp" if "\<not> bp_embedded bp" for bp
    using that sat_add_word_1 [of "bp_lsize_raw bp"] by (simp add: lsize_bytes_def)
  moreover have "list_all (\<lambda>bp. 1 \<le> lsize_bytes bp \<and> lsize_bytes bp \<le> 2 ^ 25) (dn_blkptrs dn)"
    using mos_dnode_parsed [OF assms] lsize_bytes_parse by (auto simp: list_all_iff parsed_ptr_def)
  ultimately have "list_all (\<lambda>bp. (if bp_embedded bp then 1 else 512) \<le> lsize_bytes bp \<and> lsize_bytes bp \<le> 2 ^ 25) (dn_blkptrs dn)"
    by (auto simp: list_all_iff)
  moreover note \<open>length raw = 512\<close> \<open>dnode_parse raw (os_endian os) = Some dn\<close> \<open>dn_type dn \<noteq> 0\<close>
  ultimately show ?thesis
    using dnode_parse_within dnode_parse_fits dnode_parse_fields(6) by (fastforce simp: dnode_fits_def)
qed

lemma mos_dnode_invariant_witness:
  "\<exists>dn. mos_dnode no_codecs [] (one_object [19, 14, 1, 3, 0, 0, 0, 0, 1]) 0 = Some dn \<and>
    length (dn_blkptrs dn) \<le> 3 \<and> dn_endian dn = Little"
proof -
  let ?p = "[19, 14, 1, 3, 0, 0, 0, 0, 1] :: bytes"
  obtain dn where dn: "dnode_parse (?p @ replicate (512 - length ?p) 0) Little = Some dn"
      and m: "mos_dnode no_codecs [] (one_object ?p) 0 = Some dn"
    by (rule one_object_exists [of ?p]) simp_all
  have "dn_nblkptr dn = 3" by (simp add: dnode_parse_fields [OF dn] u8_at_in)
  then show ?thesis using mos_dnode_invariant [OF m] m by (simp add: one_object_def)
qed

end
