(* ===== verification/Zfs_Zap.thy ===== *)
theory Zfs_Zap
  imports Zfs_Read
begin

section \<open>ZAP objects (core/src/zap.rs)\<close>

text \<open>
  Reading a ZAP object's blocks and listing its entries in both on-disk forms. The loops keep the
  code's bounds (block cap, chunk count, hop count). The lemmas relate the folded and the raw
  listing, show that both forms list exactly what an encoder of the layout wrote, and that reading
  an object concatenates its leaf blocks.
\<close>

definition ZBT_MICRO :: u64 where "ZBT_MICRO = push_bit 63 1 OR 3"
definition ZBT_HEADER :: u64 where "ZBT_HEADER = push_bit 63 1 OR 1"
definition ZBT_LEAF :: u64 where "ZBT_LEAF = push_bit 63 1"
definition ZAP_MAGIC :: u64 where "ZAP_MAGIC = 0x0002f52ab2ab"
definition ZAP_LEAF_MAGIC :: u32 where "ZAP_LEAF_MAGIC = 0x02ab1eaf"
definition MZAP_ENT_SIZE :: usize where "MZAP_ENT_SIZE = 64"
definition MZAP_HDR_SIZE :: usize where "MZAP_HDR_SIZE = 64"
definition MZAP_NAME_LEN :: usize where "MZAP_NAME_LEN = 50"
definition ZAP_LEAF_CHUNKSIZE :: usize where "ZAP_LEAF_CHUNKSIZE = 24"
definition ZAP_LEAF_HDR_SIZE :: usize where "ZAP_LEAF_HDR_SIZE = 48"
definition ZAP_LEAF_ARRAY_BYTES :: usize where "ZAP_LEAF_ARRAY_BYTES = 21"
definition ZAP_CHUNK_ARRAY :: u8 where "ZAP_CHUNK_ARRAY = 251"
definition ZAP_CHUNK_ENTRY :: u8 where "ZAP_CHUNK_ENTRY = 252"

lemmas zap_consts = MZAP_ENT_SIZE_def MZAP_HDR_SIZE_def MZAP_NAME_LEN_def ZAP_LEAF_CHUNKSIZE_def
  ZAP_LEAF_HDR_SIZE_def ZAP_LEAF_ARRAY_BYTES_def ZAP_CHUNK_ARRAY_def ZAP_CHUNK_ENTRY_def

subsection \<open>Reading the object\<close>

text \<open>The loop that appends block after block and stops at the first error.\<close>

fun concat_blocks :: "(u64 \<Rightarrow> zfs_error + block) \<Rightarrow> nat list \<Rightarrow> bytes \<Rightarrow> zfs_error + bytes" where
  "concat_blocks rd [] out = Inr out"
| "concat_blocks rd (i # is) out =
     rbind (rd (of_nat i)) (\<lambda>blk. concat_blocks rd is (out @ blk_data blk))"

definition zap_nblocks :: "dnode \<Rightarrow> usize" where
  "zap_nblocks dn =
     (let max_blocks = (64 * 1024 * 1024) div data_block_size dn
      in min (sat_add (unat (dn_maxblkid dn)) 1) max_blocks)"

definition read_zap_object :: "ext \<Rightarrow> bytes \<Rightarrow> dnode \<Rightarrow> zfs_error + bytes" where
  "read_zap_object x img dn =
     (if data_block_size dn = 0 then Inl (Truncated ''zap object (zero block size)'' 1 0)
      else concat_blocks (read_dnode_data x img dn) [0..<zap_nblocks dn] [])"

subsection \<open>Micro-ZAP\<close>

text \<open>\<^verbatim>\<open>iter().position(|&c| c == 0)\<close>.\<close>

definition position_nul :: "bytes \<Rightarrow> nat option" where
  "position_nul bs = (if 0 \<in> set bs then Some (length (takeWhile (\<lambda>c. c \<noteq> 0) bs)) else None)"

fun micro_loop :: "bytes \<Rightarrow> nat list \<Rightarrow> (rstr \<times> u64) list" where
  "micro_loop block [] = []"
| "micro_loop block (i # is) =
     (let off = MZAP_HDR_SIZE + i * MZAP_ENT_SIZE; val = le_u64 block off; name_off = off + 14 in
      case slice_get block name_off (name_off + MZAP_NAME_LEN) of
        None \<Rightarrow> []
      | Some name_bytes \<Rightarrow>
          (let fin = (case position_nul name_bytes of Some p \<Rightarrow> p | None \<Rightarrow> MZAP_NAME_LEN) in
           if fin = 0 then micro_loop block is
           else (from_utf8_lossy (take fin name_bytes), val) # micro_loop block is))"

definition micro_list :: "bytes \<Rightarrow> (rstr \<times> u64) list" where
  "micro_list block =
     (let capacity = (length block - MZAP_HDR_SIZE) div MZAP_ENT_SIZE in micro_loop block [0..<capacity])"

subsection \<open>Fat-ZAP\<close>

text \<open>Following an array chain: \<open>hops\<close> counts the chunks taken, at most \<open>nchunks\<close>.\<close>

function (sequential) array_loop :: "bytes \<Rightarrow> usize \<Rightarrow> usize \<Rightarrow> usize \<Rightarrow> u16 \<Rightarrow> usize \<Rightarrow> bytes \<Rightarrow> bytes" where
  "array_loop leaf chunk_area nchunks want nc hops out =
     (if nc \<noteq> - 1 \<and> unat nc < nchunks \<and> hops < nchunks \<and> length out < want then
        (let co = chunk_area + unat nc * ZAP_LEAF_CHUNKSIZE in
         if u8_at leaf co \<noteq> ZAP_CHUNK_ARRAY then out
         else case slice_get leaf (co + 1) (co + 1 + ZAP_LEAF_ARRAY_BYTES) of
                None \<Rightarrow> out
              | Some payload \<Rightarrow>
                  array_loop leaf chunk_area nchunks want (le_u16 leaf (co + 1 + ZAP_LEAF_ARRAY_BYTES))
                    (hops + 1) (out @ payload))
      else out)"
  by pat_completeness auto
termination
  by (relation "measure (\<lambda>(leaf, chunk_area, nchunks, want, nc, hops, out). nchunks - hops)") auto

declare array_loop.simps [simp del]

definition array_bytes :: "bytes \<Rightarrow> usize \<Rightarrow> usize \<Rightarrow> u16 \<Rightarrow> usize \<Rightarrow> bytes" where
  "array_bytes leaf chunk_area nchunks start want = take want (array_loop leaf chunk_area nchunks want start 0 [])"

definition fat_block_size :: "bytes \<Rightarrow> usize" where
  "fat_block_size block =
     (case List.find (\<lambda>bs. le_u64 block bs = ZBT_LEAF \<and> le_u32 block (bs + 24) = ZAP_LEAF_MAGIC)
             (takeWhile (\<lambda>bs. bs < length block) (map (\<lambda>s. 2 ^ s) [9..<18])) of
        Some bs \<Rightarrow> bs
      | None \<Rightarrow> length block)"

definition leaf_chunk_area :: "usize \<Rightarrow> usize" where
  "leaf_chunk_area block_size =
     (let block_shift = trailing_zeros block_size; nhash = 2 ^ (block_shift - 5)
      in ZAP_LEAF_HDR_SIZE + nhash * 2)"

text \<open>A chunk that is an entry: its name (one trailing NUL removed) and its raw value bytes.\<close>

definition entry_name :: "bytes \<Rightarrow> usize \<Rightarrow> usize \<Rightarrow> usize \<Rightarrow> rstr" where
  "entry_name leaf chunk_area nchunks co =
     (let name = array_bytes leaf chunk_area nchunks (le_u16 leaf (co + 4)) (unat (le_u16 leaf (co + 6)));
          name' = (if name \<noteq> [] \<and> last name = 0 then butlast name else name)
      in from_utf8_lossy name')"

definition entry_value :: "bytes \<Rightarrow> usize \<Rightarrow> usize \<Rightarrow> usize \<Rightarrow> bytes" where
  "entry_value leaf chunk_area nchunks co =
     (let le_int_size = unat (u8_at leaf (co + 1));
          want = sat_mul le_int_size (unat (le_u16 leaf (co + 10)))
      in array_bytes leaf chunk_area nchunks (le_u16 leaf (co + 8)) want)"

text \<open>The fold of the first eight value bytes, big-endian.\<close>

definition fold_value :: "bytes \<Rightarrow> u64" where
  "fold_value bs = foldl (\<lambda>v b. push_bit 8 v OR ucast b) 0 (take 8 bs)"

definition fat_leaf_entries_arrays :: "bytes \<Rightarrow> usize \<Rightarrow> (rstr \<times> bytes) list \<Rightarrow> (rstr \<times> bytes) list" where
  "fat_leaf_entries_arrays leaf block_size out =
     (let chunk_area = leaf_chunk_area block_size in
      if chunk_area \<ge> length leaf then out
      else let nchunks = (length leaf - chunk_area) div ZAP_LEAF_CHUNKSIZE in
        out @ List.map_filter (\<lambda>ci.
          let co = chunk_area + ci * ZAP_LEAF_CHUNKSIZE in
          if u8_at leaf co \<noteq> ZAP_CHUNK_ENTRY then None
          else let name = entry_name leaf chunk_area nchunks co;
                   value_bytes = entry_value leaf chunk_area nchunks co
               in if name \<noteq> [] then Some (name, value_bytes) else None) [0..<nchunks])"

definition fat_leaf_entries :: "bytes \<Rightarrow> usize \<Rightarrow> (rstr \<times> u64) list \<Rightarrow> (rstr \<times> u64) list" where
  "fat_leaf_entries leaf block_size out =
     (let chunk_area = leaf_chunk_area block_size in
      if chunk_area \<ge> length leaf then out
      else let nchunks = (length leaf - chunk_area) div ZAP_LEAF_CHUNKSIZE in
        out @ List.map_filter (\<lambda>ci.
          let co = chunk_area + ci * ZAP_LEAF_CHUNKSIZE in
          if u8_at leaf co \<noteq> ZAP_CHUNK_ENTRY then None
          else let name = entry_name leaf chunk_area nchunks co;
                   val = fold_value (entry_value leaf chunk_area nchunks co)
               in if name \<noteq> [] then Some (name, val) else None) [0..<nchunks])"

text \<open>
  The walk over the leaves, shared by the two listings; a zero block size has returned before.
\<close>

function (sequential) fat_walk :: "(bytes \<Rightarrow> usize \<Rightarrow> 'e list \<Rightarrow> 'e list) \<Rightarrow> bytes \<Rightarrow> usize \<Rightarrow> usize \<Rightarrow> 'e list \<Rightarrow> 'e list" where
  "fat_walk leaf_entries block block_size off out =
     (if block_size = 0 \<or> \<not> off + ZAP_LEAF_HDR_SIZE \<le> length block then out
      else let leaf = take (min (off + block_size) (length block) - off) (drop off block);
               out' = (if le_u64 leaf 0 = ZBT_LEAF \<and> le_u32 leaf 24 = ZAP_LEAF_MAGIC
                       then leaf_entries leaf block_size out else out)
           in fat_walk leaf_entries block block_size (off + block_size) out')"
  by pat_completeness auto
termination
  by (relation "measure (\<lambda>(f, block, block_size, off, out). length block - off)")
    (auto simp: ZAP_LEAF_HDR_SIZE_def)

declare fat_walk.simps [simp del]

definition fat_list :: "bytes \<Rightarrow> (rstr \<times> u64) list" where
  "fat_list block =
     (let block_size = fat_block_size block in
      if block_size = 0 then [] else fat_walk fat_leaf_entries block block_size block_size [])"

definition fat_list_arrays :: "bytes \<Rightarrow> (rstr \<times> bytes) list" where
  "fat_list_arrays block =
     (let block_size = fat_block_size block in
      if block_size = 0 then [] else fat_walk fat_leaf_entries_arrays block block_size block_size [])"

subsection \<open>Listing and lookup\<close>

definition zap_list :: "bytes \<Rightarrow> (rstr \<times> u64) list" where
  "zap_list block =
     (if le_u64 block 0 = ZBT_MICRO then micro_list block
      else if le_u64 block 0 = ZBT_HEADER then fat_list block
      else [])"

definition zap_lookup :: "bytes \<Rightarrow> rstr \<Rightarrow> u64 option" where
  "zap_lookup block name = find_name name (zap_list block)"

definition zap_list_arrays :: "bytes \<Rightarrow> (rstr \<times> bytes) list" where
  "zap_list_arrays block =
     (if le_u64 block 0 = ZBT_MICRO then map (\<lambda>(name, val). (name, to_le_bytes 8 val)) (micro_list block)
      else if le_u64 block 0 = ZBT_HEADER then fat_list_arrays block
      else [])"

interpretation zap_names: name_table zap_list zap_lookup
  by unfold_locales (simp add: zap_lookup_def)

subsection \<open>Concatenating the blocks of an object\<close>

lemma concat_blocks_leaves:
  assumes "\<And>i. i \<in> set is \<Longrightarrow> \<exists>b. rd (of_nat i) = Inr b \<and> blk_data b = f i"
  shows "concat_blocks rd is out = Inr (out @ concat (map f is))"
  using assms
proof (induction "is" arbitrary: out)
  case (Cons i "is")
  then obtain b where "rd (of_nat i) = Inr b" "blk_data b = f i" by auto
  then show ?case using Cons by simp
qed simp

lemma read_blocks_concat:
  assumes tree: "object_tree x img dn tops" and n: "n \<le> length (concat tops)" "n \<le> unat (dn_maxblkid dn) + 1"
  shows "concat_blocks (read_dnode_data x img dn) [0..<n] [] = Inr (concat (take n (concat tops)))"
proof -
  have "\<exists>b. read_dnode_data x img dn (of_nat i) = Inr b \<and> blk_data b = concat tops ! i" if "i < n" for i
  proof -
    have "i \<le> unat (dn_maxblkid dn)" using that n(2) by simp
    moreover have "unat (dn_maxblkid dn) < 2 ^ LENGTH(64)" by (rule unsigned_less)
    ultimately have i: "unat (of_nat i :: u64) = i" by (simp add: unat_of_nat)
    have "of_nat i \<le> dn_maxblkid dn" using that n(2) i by (simp add: word_le_nat_alt)
    then show ?thesis using read_dnode_data_leaf [OF tree, of "of_nat i"] that n(1) i by simp
  qed
  then have "concat_blocks (read_dnode_data x img dn) [0..<n] [] = Inr (concat (map ((!) (concat tops)) [0..<n]))"
    by (subst concat_blocks_leaves [where f = "(!) (concat tops)"]) auto
  moreover have "map ((!) (concat tops)) [0..<n] = take n (concat tops)"
    using n(1) by (simp add: list_eq_iff_nth_eq)
  ultimately show ?thesis by simp
qed

subsection \<open>The two listings\<close>

lemma fat_walk_map:
  assumes "\<And>leaf bs out. map g (f leaf bs out) = f' leaf bs (map g out)"
  shows "map g (fat_walk f block bs off out) = fat_walk f' block bs off (map g out)"
proof (induction "length block - off" arbitrary: off out rule: less_induct)
  case less
  show ?case
  proof (cases "bs = 0 \<or> \<not> off + ZAP_LEAF_HDR_SIZE \<le> length block")
    case True
    then show ?thesis by (simp add: fat_walk.simps)
  next
    case False
    then have "0 < bs" "off + 48 \<le> length block" by (simp_all add: ZAP_LEAF_HDR_SIZE_def)
    then have "length block - (off + bs) < length block - off" by linarith
    from less [OF this] show ?thesis
      using False assms by (simp add: fat_walk.simps [of _ block bs off] Let_def)
  qed
qed

lemma map_filter_map:
  "map g (List.map_filter f xs) = List.map_filter (\<lambda>x. map_option g (f x)) xs"
  by (induction xs) (auto simp: List.map_filter_def)

lemma fat_leaf_entries_fold:
  "map (\<lambda>(n, v). (n, fold_value v)) (fat_leaf_entries_arrays leaf bs out) =
     fat_leaf_entries leaf bs (map (\<lambda>(n, v). (n, fold_value v)) out)"
  by (auto simp: fat_leaf_entries_arrays_def fat_leaf_entries_def Let_def map_filter_map
    intro!: arg_cong [where f = "\<lambda>h. List.map_filter h _"])

lemma fat_list_fold: "fat_list block = map (\<lambda>(n, v). (n, fold_value v)) (fat_list_arrays block)"
  using fat_walk_map [where g = "\<lambda>(n, v). (n, fold_value v)" and f = fat_leaf_entries_arrays
      and f' = fat_leaf_entries and out = "[]", OF fat_leaf_entries_fold]
  by (simp add: fat_list_def fat_list_arrays_def Let_def)

subsection \<open>Micro-ZAP encoding\<close>

definition micro_slot :: "rstr \<Rightarrow> u64 \<Rightarrow> bytes \<Rightarrow> bytes" where
  "micro_slot name val cd = to_le_bytes 8 val @ cd @ name @ replicate (50 - length name) 0"

definition micro_encode :: "bytes \<Rightarrow> (rstr \<times> u64 \<times> bytes) list \<Rightarrow> bytes" where
  "micro_encode hdr slots =
     to_le_bytes 8 ZBT_MICRO @ hdr @ concat (map (\<lambda>(name, val, cd). micro_slot name val cd) slots)"

definition wf_slot :: "rstr \<times> u64 \<times> bytes \<Rightarrow> bool" where
  "wf_slot s \<longleftrightarrow> (case s of (name, val, cd) \<Rightarrow>
     length cd = 6 \<and> length name \<le> 50 \<and> 0 \<notin> set name \<and> valid_utf8 name)"

lemma length_micro_slot: "wf_slot (name, val, cd) \<Longrightarrow> length (micro_slot name val cd) = 64"
  by (simp add: wf_slot_def micro_slot_def)

lemma length_micro_slots:
  "list_all wf_slot slots \<Longrightarrow> length (concat (map (\<lambda>(name, val, cd). micro_slot name val cd) slots)) = 64 * length slots"
  by (induction slots) (auto simp: length_micro_slot)

lemma position_nul_slot:
  assumes "0 \<notin> set name" and "length name \<le> 50"
  shows "(case position_nul (name @ replicate (50 - length name) 0) of Some p \<Rightarrow> p | None \<Rightarrow> MZAP_NAME_LEN) = length name"
proof -
  have "takeWhile (\<lambda>c. c \<noteq> 0) (name @ replicate k 0) = name" for k
    using assms(1) by (induction name) (auto simp: takeWhile_replicate)
  then show ?thesis using assms by (auto simp: position_nul_def MZAP_NAME_LEN_def)
qed

lemma micro_loop_slots:
  assumes "bytes_at block (64 + k * 64) (concat (map (\<lambda>(name, val, cd). micro_slot name val cd) slots))"
    and "list_all wf_slot slots"
  shows "micro_loop block [k..<k + length slots] =
    map (\<lambda>s. (fst s, fst (snd s))) (filter (\<lambda>s. fst s \<noteq> []) slots)"
  using assms
proof (induction slots arbitrary: k)
  case (Cons s slots)
  obtain name val cd where s: "s = (name, val, cd)" by (cases s)
  have wf: "wf_slot (name, val, cd)" using Cons.prems(2) s by simp
  then have w: "length cd = 6" "length name \<le> 50" "0 \<notin> set name" "valid_utf8 name" by (simp_all add: wf_slot_def)
  let ?o = "64 + k * 64"
  have at: "bytes_at block ?o (to_le_bytes 8 val)" "bytes_at block (?o + 14) (name @ replicate (50 - length name) 0)"
    and rest: "bytes_at block (?o + 64) (concat (map (\<lambda>(name, val, cd). micro_slot name val cd) slots))"
    using Cons.prems(1) length_micro_slot [OF wf] w(1)
    by (auto simp: s bytes_at_append micro_slot_def)
  obtain nb where nb: "slice_get block (?o + 14) (?o + 14 + MZAP_NAME_LEN) = Some nb" "take (length name) nb = name"
      "(case position_nul nb of Some p \<Rightarrow> p | None \<Rightarrow> MZAP_NAME_LEN) = length name"
    using bytes_at_slice [OF at(2)] w(2) position_nul_slot [OF w(3,2)] by (simp add: MZAP_NAME_LEN_def)
  have step: "micro_loop block (k # is) = (if name = [] then micro_loop block is else (name, val) # micro_loop block is)" for "is"
    unfolding micro_loop.simps Let_def MZAP_HDR_SIZE_def MZAP_ENT_SIZE_def le64_at [OF at(1)]
    using nb w(4) by (simp add: from_utf8_lossy_valid)
  have "micro_loop block [Suc k..<Suc k + length slots] =
      map (\<lambda>s. (fst s, fst (snd s))) (filter (\<lambda>s. fst s \<noteq> []) slots)"
    using Cons.IH [of "Suc k"] rest Cons.prems(2) by (simp add: algebra_simps)
  moreover have "[k..<k + length (s # slots)] = k # [Suc k..<Suc k + length slots]"
    by (simp add: upt_conv_Cons del: upt_Suc)
  ultimately show ?case by (simp only: step) (simp add: s)
qed simp

lemma zap_list_micro:
  assumes "length hdr = 56" and "list_all wf_slot slots"
  shows "zap_list (micro_encode hdr slots) =
    map (\<lambda>s. (fst s, fst (snd s))) (filter (\<lambda>s. fst s \<noteq> []) slots)"
proof -
  let ?b = "micro_encode hdr slots"
  have "bytes_at ?b 0 ?b" using bytes_at_0 [of ?b "[]"] by simp
  then have at: "bytes_at ?b 0 (to_le_bytes 8 ZBT_MICRO)"
      "bytes_at ?b 64 (concat (map (\<lambda>(name, val, cd). micro_slot name val cd) slots))"
    using assms(1) unfolding micro_encode_def bytes_at_append by simp_all
  have "length ?b = 64 + 64 * length slots"
    using assms by (simp add: micro_encode_def length_micro_slots)
  then show ?thesis
    using micro_loop_slots [of ?b 0 slots] at assms(2)
    by (simp add: zap_list_def le64_at micro_list_def zap_consts)
qed

subsection \<open>Fat-ZAP encoding\<close>

definition array_chunk :: "bytes \<Rightarrow> u16 \<Rightarrow> bytes" where
  "array_chunk payload nxt = 251 # payload @ to_le_bytes 2 nxt"

text \<open>A chain of array chunks laid out from chunk \<open>k\<close> on.\<close>

fun array_chunks :: "nat \<Rightarrow> bytes list \<Rightarrow> bytes list" where
  "array_chunks k [] = []"
| "array_chunks k (p # ps) =
     array_chunk p (if ps = [] then - 1 else of_nat (Suc k)) # array_chunks (Suc k) ps"

fun pieces :: "nat \<Rightarrow> bytes \<Rightarrow> bytes list" where
  "pieces 0 bs = []"
| "pieces (Suc n) bs = (take 21 bs @ replicate (21 - length bs) 0) # pieces n (drop 21 bs)"

definition npieces :: "bytes \<Rightarrow> nat" where
  "npieces bs = (length bs + 20) div 21"

lemma length_array_chunks [simp]: "length (array_chunks k ps) = length ps"
  by (induction k ps rule: array_chunks.induct) auto

lemma length_pieces [simp]: "length (pieces n bs) = n"
  by (induction n bs rule: pieces.induct) auto

lemma pieces_21: "list_all (\<lambda>p. length p = 21) (pieces n bs)"
  by (induction n bs rule: pieces.induct) auto

lemma array_chunks_24: "list_all (\<lambda>p. length p = 21) ps \<Longrightarrow> list_all (\<lambda>c. length c = 24) (array_chunks k ps)"
  by (induction k ps rule: array_chunks.induct) (auto simp: array_chunk_def)

lemma take_pieces: "length bs \<le> 21 * n \<Longrightarrow> take (length bs) (concat (pieces n bs)) = bs"
proof (induction n bs rule: pieces.induct)
  case (2 n bs)
  show ?case
  proof (cases "length bs \<le> 21")
    case True
    then show ?thesis by simp
  next
    case False
    then have "take (length bs) (concat (pieces (Suc n) bs)) = take 21 bs @ take (length (drop 21 bs)) (concat (pieces n (drop 21 bs)))"
      by (simp add: min_def)
    also have "\<dots> = take 21 bs @ drop 21 bs" using 2 by (simp only: length_drop) simp
    finally show ?thesis by simp
  qed
qed simp

lemma array_loop_chain:
  assumes "bytes_at leaf (A + 24 * k) (concat (array_chunks k ps))" and "list_all (\<lambda>p. length p = 21) ps"
    and "ps \<noteq> []" and "k + length ps \<le> n" and "n < 65536" and "hops + length ps \<le> n"
  shows "take want (array_loop leaf A n want (of_nat k) hops out) = take want (out @ concat ps)"
  using assms
proof (induction ps arbitrary: k hops out)
  case (Cons p ps)
  let ?co = "A + 24 * k"
  define nx :: u16 where "nx = (if ps = [] then - 1 else of_nat (Suc k))"
  have chunks: "array_chunks k (p # ps) = array_chunk p nx # array_chunks (Suc k) ps" by (simp add: nx_def)
  have len: "length p = 21" "list_all (\<lambda>p. length p = 21) ps" using Cons.prems by simp_all
  have k: "k < n" "k < 65535" and hops: "hops < n" using Cons.prems by simp_all
  have nk: "unat (of_nat k :: u16) = k" using k by (simp add: unat_of_nat)
  then have neq: "(of_nat k :: u16) \<noteq> - 1" using k by (auto simp: unsigned_minus_1_eq_mask mask_eq_exp_minus_1 dest: arg_cong [where f = unat])
  have "length (array_chunk p nx) = 24" using len by (simp add: array_chunk_def)
  then have pieces2: "bytes_at leaf ?co (array_chunk p nx)" "bytes_at leaf (?co + 24) (concat (array_chunks (Suc k) ps))"
    using Cons.prems(1) unfolding chunks concat.simps bytes_at_append by simp_all
  have at: "bytes_at leaf ?co (251 # p @ to_le_bytes 2 nx)" using pieces2(1) unfolding array_chunk_def .
  have "bytes_at leaf ?co ([251] @ p @ to_le_bytes 2 nx)" using at by simp
  then have parts: "bytes_at leaf (?co + 1) p" "bytes_at leaf (?co + 22) (to_le_bytes 2 nx)"
    using len unfolding bytes_at_append by (simp_all add: add.commute)
  have slice: "slice_get leaf (?co + 1) (?co + 22) = Some p" using bytes_at_slice [OF parts(1)] len by (simp add: add.commute)
  show ?case
  proof (cases "length out < want")
    case False
    then show ?thesis using k by (simp add: array_loop.simps)
  next
    case True
    have step: "array_loop leaf A n want (of_nat k) hops out = array_loop leaf A n want nx (Suc hops) (out @ p)"
      using True k hops neq slice u8_at_at [OF at] le16_at [OF parts(2)] nk
      by (subst array_loop.simps) (simp add: zap_consts Let_def mult.commute add.commute)
    show ?thesis
    proof (cases "ps = []")
      case True
      have "array_loop leaf A n want (- 1) (Suc hops) (out @ p) = out @ p" by (simp add: array_loop.simps)
      then show ?thesis using step True by (simp add: nx_def)
    next
      case False
      have "bytes_at leaf (A + 24 * Suc k) (concat (array_chunks (Suc k) ps))"
        using pieces2(2) by (simp add: algebra_simps)
      then show ?thesis
        using Cons.IH [of "Suc k" "Suc hops" "out @ p"] step False Cons.prems by (simp add: nx_def)
    qed
  qed
qed simp

lemma array_bytes_chain:
  assumes "bytes_at leaf (A + 24 * k) (concat (array_chunks k (pieces (npieces bs) bs)))"
    and "k + npieces bs \<le> n" and "n < 65536"
  shows "array_bytes leaf A n (of_nat k) (length bs) = bs"
proof (cases "bs = []")
  case True
  then show ?thesis by (simp add: array_bytes_def)
next
  case False
  then have "0 < length bs" by simp
  then have pos: "0 < npieces bs" unfolding npieces_def by linarith
  have "length bs \<le> 21 * npieces bs" unfolding npieces_def by linarith
  then have "take (length bs) (concat (pieces (npieces bs) bs)) = bs" by (rule take_pieces)
  moreover have "pieces (npieces bs) bs \<noteq> []" using pos by (metis length_pieces length_greater_0_conv)
  ultimately show ?thesis
    using array_loop_chain [OF assms(1) pieces_21, of n 0 "length bs" "[]"] assms(2,3)
    by (simp add: array_bytes_def)
qed

text \<open>
  An entry: its name, the size of one integer of its value, and the value's bytes. It takes one
  entry chunk, then the chain of its name (with the terminating NUL), then that of its value.
\<close>

type_synonym zap_entry = "rstr \<times> nat \<times> bytes"

definition wf_entry :: "zap_entry \<Rightarrow> bool" where
  "wf_entry e \<longleftrightarrow> (case e of (name, isz, val) \<Rightarrow>
     name \<noteq> [] \<and> valid_utf8 name \<and> length name < 65535 \<and> isz < 256 \<and>
     (\<exists>c<65536. length val = isz * c))"

definition entry_chunk :: "nat \<Rightarrow> zap_entry \<Rightarrow> bytes" where
  "entry_chunk k e = (case e of (name, isz, val) \<Rightarrow>
     [252, of_nat isz] @ to_le_bytes 2 (- 1 :: u16) @
     to_le_bytes 2 (of_nat (k + 1) :: u16) @ to_le_bytes 2 (of_nat (length name + 1) :: u16) @
     to_le_bytes 2 (of_nat (k + 1 + npieces (name @ [0])) :: u16) @
     to_le_bytes 2 (of_nat (length val div isz) :: u16) @ replicate 12 0)"

definition entry_chunks :: "nat \<Rightarrow> zap_entry \<Rightarrow> bytes list" where
  "entry_chunks k e = (case e of (name, isz, val) \<Rightarrow>
     entry_chunk k e # array_chunks (k + 1) (pieces (npieces (name @ [0])) (name @ [0])) @
     array_chunks (k + 1 + npieces (name @ [0])) (pieces (npieces val) val))"

definition entry_size :: "zap_entry \<Rightarrow> nat" where
  "entry_size e = (case e of (name, isz, val) \<Rightarrow> 1 + npieces (name @ [0]) + npieces val)"

lemma length_entry_chunks: "length (entry_chunks k e) = entry_size e"
  by (cases e) (simp add: entry_chunks_def entry_size_def)

lemma length_entry_chunk: "length (entry_chunk k e) = 24"
  by (cases e) (simp add: entry_chunk_def)

lemma entry_chunks_24: "list_all (\<lambda>c. length c = 24) (entry_chunks k e)"
  by (cases e) (simp add: entry_chunks_def length_entry_chunk array_chunks_24 pieces_21)

lemma length_concat_24: "list_all (\<lambda>c. length c = 24) cs \<Longrightarrow> length (concat cs) = 24 * length cs"
  by (simp add: length_concat_const)

text \<open>The header of an entry chunk as the readers see it.\<close>

lemma entry_chunk_fields:
  assumes "bytes_at leaf co (entry_chunk k (name, isz, val))"
  shows "u8_at leaf co = 252" "u8_at leaf (co + 1) = of_nat isz" "le_u16 leaf (co + 4) = of_nat (k + 1)"
    "le_u16 leaf (co + 6) = of_nat (length name + 1)" "le_u16 leaf (co + 8) = of_nat (k + 1 + npieces (name @ [0]))"
    "le_u16 leaf (co + 10) = of_nat (length val div isz)"
proof -
  obtain hdr where hdr: "hdr = [252, of_nat isz :: u8]" "length hdr = 2" by simp
  have "bytes_at leaf co (hdr @ to_le_bytes 2 (- 1 :: u16) @
     to_le_bytes 2 (of_nat (k + 1) :: u16) @ to_le_bytes 2 (of_nat (length name + 1) :: u16) @
     to_le_bytes 2 (of_nat (k + 1 + npieces (name @ [0])) :: u16) @
     to_le_bytes 2 (of_nat (length val div isz) :: u16) @ replicate 12 0)"
    using assms by (simp add: entry_chunk_def hdr(1))
  then have h: "bytes_at leaf co hdr" and p:
     "bytes_at leaf (co + 4) (to_le_bytes 2 (of_nat (k + 1) :: u16))"
     "bytes_at leaf (co + 6) (to_le_bytes 2 (of_nat (length name + 1) :: u16))"
     "bytes_at leaf (co + 8) (to_le_bytes 2 (of_nat (k + 1 + npieces (name @ [0])) :: u16))"
     "bytes_at leaf (co + 10) (to_le_bytes 2 (of_nat (length val div isz) :: u16))"
    unfolding bytes_at_append hdr(2) by (simp_all add: add.commute del: add_2_eq_Suc add_2_eq_Suc')
  have "bytes_at leaf co ([252] @ [of_nat isz :: u8])" using h by (simp add: hdr(1))
  then have "bytes_at leaf co [252 :: u8]" "bytes_at leaf (co + 1) [of_nat isz :: u8]"
    unfolding bytes_at_append by simp_all
  note r = this [THEN u8_at_at] p [THEN le16_at]
  show "u8_at leaf co = 252" "u8_at leaf (co + 1) = of_nat isz" "le_u16 leaf (co + 4) = of_nat (k + 1)"
    "le_u16 leaf (co + 6) = of_nat (length name + 1)" "le_u16 leaf (co + 8) = of_nat (k + 1 + npieces (name @ [0]))"
    "le_u16 leaf (co + 10) = of_nat (length val div isz)" by (rule r)+
qed

lemma entry_decodes:
  assumes at: "bytes_at leaf (A + 24 * k) (concat (entry_chunks k (name, isz, val)))"
    and wf: "wf_entry (name, isz, val)" and fit: "k + entry_size (name, isz, val) \<le> n" "n < 65536"
  shows "u8_at leaf (A + 24 * k) = 252" and "entry_name leaf A n (A + 24 * k) = name"
    and "entry_value leaf A n (A + 24 * k) = val"
proof -
  let ?co = "A + 24 * k" and ?ns = "npieces (name @ [0])" and ?e = "(name, isz, val)"
  obtain c where c: "c < 65536" "length val = isz * c" using wf by (auto simp: wf_entry_def)
  have w: "name \<noteq> []" "valid_utf8 name" "length name < 65535" "isz < 256" using wf by (simp_all add: wf_entry_def)
  have chunk: "bytes_at leaf ?co (entry_chunk k ?e)"
    and names: "bytes_at leaf (A + 24 * (k + 1)) (concat (array_chunks (k + 1) (pieces ?ns (name @ [0]))))"
    and vals: "bytes_at leaf (A + 24 * (k + 1 + ?ns)) (concat (array_chunks (k + 1 + ?ns) (pieces (npieces val) val)))"
    using at by (simp_all add: entry_chunks_def bytes_at_append length_entry_chunk length_concat_24 array_chunks_24
      pieces_21 algebra_simps)
  note r = entry_chunk_fields [OF chunk]
  show "u8_at leaf ?co = 252" by (rule r)
  have "unat (of_nat (length name + 1) :: u16) = length (name @ [0])"
    using w(3) by (subst unat_of_nat) simp
  moreover have "array_bytes leaf A n (of_nat (k + 1)) (length (name @ [0])) = name @ [0]"
    using array_bytes_chain [OF names] fit by (simp add: entry_size_def)
  ultimately show "entry_name leaf A n ?co = name"
    using w(2) unfolding entry_name_def r by (simp add: from_utf8_lossy_valid Let_def)
  have sz: "unat (of_nat isz :: u8) = isz" using w(4) by (simp add: unat_of_nat)
  have prod: "isz * unat (of_nat (length val div isz) :: u16) = length val"
    using c by (cases "isz = 0") (simp_all add: unat_of_nat)
  have "isz * c \<le> 256 * 65536" using c w by (intro mult_le_mono) simp_all
  then have "length val \<le> usize_max" using c by (simp add: usize_max_def)
  then have "sat_mul (unat (of_nat isz :: u8)) (unat (of_nat (length val div isz) :: u16)) = length val"
    unfolding sz by (simp only: sat_mul_def prod min_absorb1)
  moreover have "array_bytes leaf A n (of_nat (k + 1 + ?ns)) (length val) = val"
    using array_bytes_chain [OF vals] fit by (simp add: entry_size_def)
  ultimately show "entry_value leaf A n ?co = val" unfolding entry_value_def r by (simp add: Let_def)
qed

text \<open>All entries of a leaf, laid out one after the other from chunk \<open>k\<close>.\<close>

fun leaf_chunks :: "nat \<Rightarrow> zap_entry list \<Rightarrow> bytes list" where
  "leaf_chunks k [] = []"
| "leaf_chunks k (e # es) = entry_chunks k e @ leaf_chunks (k + entry_size e) es"

lemma leaf_chunks_24: "list_all (\<lambda>c. length c = 24) (leaf_chunks k es)"
  by (induction k es rule: leaf_chunks.induct) (auto simp: entry_chunks_24)

lemma length_leaf_chunks: "length (leaf_chunks k es) = sum_list (map entry_size es)"
  by (induction k es rule: leaf_chunks.induct) (auto simp: length_entry_chunks)

lemma array_chunk_not_entry:
  assumes "bytes_at leaf (A + 24 * k) (concat (array_chunks k ps))" and "list_all (\<lambda>p. length p = 21) ps"
    and "j < length ps"
  shows "u8_at leaf (A + 24 * (k + j)) = 251"
  using assms
proof (induction ps arbitrary: k j)
  case (Cons p ps)
  obtain nx where chunks: "array_chunks k (p # ps) = array_chunk p nx # array_chunks (Suc k) ps" by simp
  have "length (array_chunk p nx) = 24" using Cons.prems(2) by (simp add: array_chunk_def)
  then have at: "bytes_at leaf (A + 24 * k) (array_chunk p nx)" "bytes_at leaf (A + 24 * Suc k) (concat (array_chunks (Suc k) ps))"
    using Cons.prems(1) unfolding chunks concat.simps bytes_at_append by (simp_all add: algebra_simps)
  show ?case
  proof (cases j)
    case 0
    then show ?thesis using at(1) unfolding array_chunk_def by (simp add: u8_at_at)
  next
    case (Suc i)
    then show ?thesis using Cons.IH [OF at(2), of i] Cons.prems by simp
  qed
qed simp

text \<open>The listing of a leaf, for any way \<open>g\<close> of reading the value bytes.\<close>

definition entry_at :: "(bytes \<Rightarrow> 'v) \<Rightarrow> bytes \<Rightarrow> usize \<Rightarrow> usize \<Rightarrow> nat \<Rightarrow> (rstr \<times> 'v) option" where
  "entry_at g leaf A n ci =
     (if u8_at leaf (A + ci * 24) \<noteq> 252 then None
      else if entry_name leaf A n (A + ci * 24) \<noteq> []
      then Some (entry_name leaf A n (A + ci * 24), g (entry_value leaf A n (A + ci * 24))) else None)"

lemma fat_leaf_entries_arrays_at:
  "fat_leaf_entries_arrays leaf bs out =
     (if leaf_chunk_area bs \<ge> length leaf then out
      else out @ List.map_filter (entry_at id leaf (leaf_chunk_area bs)
        ((length leaf - leaf_chunk_area bs) div 24)) [0..<(length leaf - leaf_chunk_area bs) div 24])"
  by (simp add: fat_leaf_entries_arrays_def Let_def zap_consts entry_at_def [abs_def] cong: if_cong)

lemma map_filter_append: "List.map_filter f (xs @ ys) = List.map_filter f xs @ List.map_filter f ys"
  by (induction xs) (auto simp: List.map_filter_def)

lemma map_filter_None: "(\<And>x. x \<in> set xs \<Longrightarrow> f x = None) \<Longrightarrow> List.map_filter f xs = []"
  by (induction xs) (auto simp: List.map_filter_def)

lemma entry_at_entry:
  assumes at: "bytes_at leaf (A + 24 * k) (concat (entry_chunks k e))" and wf: "wf_entry e"
    and fit: "k + entry_size e \<le> n" "n < 65536"
  shows "List.map_filter (entry_at g leaf A n) [k..<k + entry_size e] = [(fst e, g (snd (snd e)))]"
proof -
  obtain name isz val where e: "e = (name, isz, val)" by (cases e)
  note d = entry_decodes [OF at [unfolded e] wf [unfolded e] fit [unfolded e]]
  let ?ns = "npieces (name @ [0])" and ?nv = "npieces val"
  have names: "bytes_at leaf (A + 24 * (k + 1)) (concat (array_chunks (k + 1) (pieces ?ns (name @ [0]))))"
    and vals: "bytes_at leaf (A + 24 * (k + 1 + ?ns)) (concat (array_chunks (k + 1 + ?ns) (pieces ?nv val)))"
    using at by (simp_all add: e entry_chunks_def bytes_at_append length_entry_chunk length_concat_24 array_chunks_24
      pieces_21 algebra_simps)
  have "u8_at leaf (A + 24 * i) = 251" if i: "i \<in> set [Suc k..<k + entry_size e]" for i
  proof (cases "i < k + 1 + ?ns")
    case True
    moreover obtain j where "i = k + 1 + j" using i le_Suc_ex [of "k + 1" i] by auto
    ultimately show ?thesis using array_chunk_not_entry [OF names pieces_21, of j] by simp
  next
    case False
    then obtain j where "i = k + 1 + ?ns + j" using le_Suc_ex [of "k + 1 + ?ns" i] by auto
    moreover from this have "j < ?nv" using i by (auto simp: e entry_size_def)
    ultimately show ?thesis using array_chunk_not_entry [OF vals pieces_21, of j] by simp
  qed
  then have "entry_at g leaf A n i = None" if "i \<in> set [Suc k..<k + entry_size e]" for i
    using that by (simp add: entry_at_def mult.commute)
  then have rest: "List.map_filter (entry_at g leaf A n) [Suc k..<k + entry_size e] = []" by (rule map_filter_None)
  have "entry_at g leaf A n k = Some (name, g val)"
    using d wf by (simp add: entry_at_def mult.commute e wf_entry_def)
  moreover have "[k..<k + entry_size e] = k # [Suc k..<k + entry_size e]"
    by (rule upt_conv_Cons) (simp add: e entry_size_def)
  ultimately show ?thesis using rest by (simp add: e List.map_filter_def)
qed

lemma entry_at_leaf:
  assumes "bytes_at leaf (A + 24 * k) (concat (leaf_chunks k es))" and "list_all wf_entry es"
    and "k + sum_list (map entry_size es) \<le> n" and "n < 65536"
  shows "List.map_filter (entry_at g leaf A n) [k..<k + sum_list (map entry_size es)] =
    map (\<lambda>e. (fst e, g (snd (snd e)))) es"
  using assms
proof (induction es arbitrary: k)
  case Nil
  then show ?case by (simp add: List.map_filter_def)
next
  case (Cons e es)
  have at: "bytes_at leaf (A + 24 * k) (concat (entry_chunks k e))"
      "bytes_at leaf (A + 24 * (k + entry_size e)) (concat (leaf_chunks (k + entry_size e) es))"
    using Cons.prems(1) by (simp_all add: bytes_at_append length_concat_24 entry_chunks_24 length_entry_chunks algebra_simps)
  have "[k..<k + sum_list (map entry_size (e # es))] =
      [k..<k + entry_size e] @ [k + entry_size e..<k + entry_size e + sum_list (map entry_size es)]"
    using upt_add_eq_append [of k "k + entry_size e" "sum_list (map entry_size es)"] by (simp add: add.assoc)
  then show ?case
    using entry_at_entry [OF at(1), of n g] Cons.IH [OF at(2)] Cons.prems by (simp add: map_filter_append)
qed

definition free_chunk :: bytes where
  "free_chunk = 253 # replicate 23 0"

lemma length_free_chunk: "length free_chunk = 24"
  by (simp add: free_chunk_def)

text \<open>A leaf block: header, hash table, the entries' chunks, free chunks and a partial tail.\<close>

record zap_leaf =
  zl_head :: bytes
  zl_mid :: bytes
  zl_hash :: bytes
  zl_entries :: "zap_entry list"
  zl_free :: nat
  zl_tail :: bytes

definition leaf_encode :: "zap_leaf \<Rightarrow> bytes" where
  "leaf_encode l = to_le_bytes 8 ZBT_LEAF @ zl_head l @ to_le_bytes 4 ZAP_LEAF_MAGIC @ zl_mid l @ zl_hash l @
     concat (leaf_chunks 0 (zl_entries l)) @ concat (replicate (zl_free l) free_chunk) @ zl_tail l"

definition wf_leaf :: "nat \<Rightarrow> zap_leaf \<Rightarrow> bool" where
  "wf_leaf s l \<longleftrightarrow> length (zl_head l) = 16 \<and> length (zl_mid l) = 20 \<and> length (zl_hash l) = 2 * 2 ^ (s - 5) \<and>
     length (zl_tail l) < 24 \<and> list_all wf_entry (zl_entries l) \<and> zl_entries l \<noteq> [] \<and>
     length (leaf_encode l) = 2 ^ s"

lemma leaf_chunk_area_pow: "leaf_chunk_area (2 ^ s) = 48 + 2 * 2 ^ (s - 5)"
  by (simp add: leaf_chunk_area_def trailing_zeros_pow2 Let_def ZAP_LEAF_HDR_SIZE_def)

lemma leaf_encode_parts:
  assumes "wf_leaf s l"
  shows "le_u64 (leaf_encode l) 0 = ZBT_LEAF" "le_u32 (leaf_encode l) 24 = ZAP_LEAF_MAGIC"
    "bytes_at (leaf_encode l) (leaf_chunk_area (2 ^ s)) (concat (leaf_chunks 0 (zl_entries l)))"
    "bytes_at (leaf_encode l) (leaf_chunk_area (2 ^ s) + 24 * sum_list (map entry_size (zl_entries l)))
       (concat (replicate (zl_free l) free_chunk))"
    "2 ^ s = leaf_chunk_area (2 ^ s) + 24 * (sum_list (map entry_size (zl_entries l)) + zl_free l) + length (zl_tail l)"
proof -
  have "bytes_at (leaf_encode l) 0 (leaf_encode l)" using bytes_at_0 [of "leaf_encode l" "[]"] by simp
  then have parts: "bytes_at (leaf_encode l) 0 (to_le_bytes 8 ZBT_LEAF @ zl_head l @ to_le_bytes 4 ZAP_LEAF_MAGIC @ zl_mid l @ zl_hash l @
     concat (leaf_chunks 0 (zl_entries l)) @ concat (replicate (zl_free l) free_chunk) @ zl_tail l)"
    by (simp add: leaf_encode_def)
  have len: "length (zl_head l) = 16" "length (zl_mid l) = 20" "length (zl_hash l) = 2 * 2 ^ (s - 5)"
      "length (leaf_encode l) = 2 ^ s" using assms by (simp_all add: wf_leaf_def)
  have chunks: "length (concat (leaf_chunks 0 (zl_entries l))) = 24 * sum_list (map entry_size (zl_entries l))"
    by (simp add: length_concat_24 leaf_chunks_24 length_leaf_chunks)
  have free: "length (concat (replicate (zl_free l) free_chunk)) = 24 * zl_free l"
    by (simp add: length_concat_24 free_chunk_def list_all_length)
  show "le_u64 (leaf_encode l) 0 = ZBT_LEAF" "le_u32 (leaf_encode l) 24 = ZAP_LEAF_MAGIC"
    "bytes_at (leaf_encode l) (leaf_chunk_area (2 ^ s)) (concat (leaf_chunks 0 (zl_entries l)))"
    "bytes_at (leaf_encode l) (leaf_chunk_area (2 ^ s) + 24 * sum_list (map entry_size (zl_entries l)))
       (concat (replicate (zl_free l) free_chunk))"
    using parts len chunks unfolding bytes_at_append
    by (simp_all add: le64_at le32_at leaf_chunk_area_pow)
  show "2 ^ s = leaf_chunk_area (2 ^ s) + 24 * (sum_list (map entry_size (zl_entries l)) + zl_free l) + length (zl_tail l)"
    using len chunks free by (simp add: leaf_encode_def leaf_chunk_area_pow)
qed

lemma free_chunks_at:
  "bytes_at leaf off (concat (replicate m free_chunk)) \<Longrightarrow> j < m \<Longrightarrow> u8_at leaf (off + 24 * j) = 253"
proof (induction m arbitrary: off j)
  case (Suc m)
  have at: "bytes_at leaf off free_chunk" "bytes_at leaf (off + 24) (concat (replicate m free_chunk))"
    using Suc.prems(1) length_free_chunk by (simp_all add: bytes_at_append)
  show ?case
  proof (cases j)
    case 0
    then show ?thesis using at(1) unfolding free_chunk_def by (simp add: u8_at_at)
  next
    case (Suc i)
    then show ?thesis using Suc.IH [OF at(2), of i] Suc.prems(2) by (simp add: algebra_simps)
  qed
qed simp

lemma fat_leaf_encoded:
  assumes "wf_leaf s l" and "s \<le> 17"
  shows "fat_leaf_entries_arrays (leaf_encode l) (2 ^ s) out =
    out @ map (\<lambda>e. (fst e, snd (snd e))) (zl_entries l)"
proof -
  note p = leaf_encode_parts [OF assms(1)]
  let ?A = "leaf_chunk_area (2 ^ s)" and ?m = "sum_list (map entry_size (zl_entries l))"
  let ?leaf = "leaf_encode l"
  have len: "length ?leaf = 2 ^ s" and tail: "length (zl_tail l) < 24" and wf: "list_all wf_entry (zl_entries l)"
    and ne: "zl_entries l \<noteq> []" using assms(1) by (simp_all add: wf_leaf_def)
  have n: "(2 ^ s - ?A) div 24 = ?m + zl_free l" using p(5) tail by simp
  have "(2::nat) ^ s \<le> 2 ^ 17" using assms(2) by (rule power_increasing) simp
  then have small: "?m + zl_free l < 65536" using p(5) by simp
  have pos: "0 < ?m" using ne by (cases "zl_entries l") (auto simp: entry_size_def split: prod.splits)
  have entries: "List.map_filter (entry_at id ?leaf ?A (?m + zl_free l)) [0..<?m] =
      map (\<lambda>e. (fst e, snd (snd e))) (zl_entries l)"
    using entry_at_leaf [of ?leaf ?A 0 "zl_entries l" "?m + zl_free l" id] p(3) wf small by simp
  have "entry_at id ?leaf ?A (?m + zl_free l) i = None" if i: "i \<in> set [?m..<?m + zl_free l]" for i
  proof -
    obtain j where "i = ?m + j" "j < zl_free l" using i le_Suc_ex [of ?m i] by auto
    then show ?thesis using free_chunks_at [OF p(4), of j] by (simp add: entry_at_def algebra_simps)
  qed
  then have "List.map_filter (entry_at id ?leaf ?A (?m + zl_free l)) [?m..<?m + zl_free l] = []"
    by (rule map_filter_None)
  moreover have "[0..<?m + zl_free l] = [0..<?m] @ [?m..<?m + zl_free l]"
    using upt_add_eq_append [of 0 ?m "zl_free l"] by simp
  ultimately have "List.map_filter (entry_at id ?leaf ?A (?m + zl_free l)) [0..<?m + zl_free l] =
      map (\<lambda>e. (fst e, snd (snd e))) (zl_entries l)"
    using entries by (simp add: map_filter_append)
  moreover have "\<not> x \<le> a" if "x = a + 24 * (m + f) + t" "0 < m" for x a m f t :: nat
    using that by simp
  from this [OF p(5) pos] have "\<not> 2 ^ s \<le> ?A" .
  ultimately show ?thesis by (simp add: fat_leaf_entries_arrays_at len n)
qed

definition leaf_signature :: "bytes \<Rightarrow> nat \<Rightarrow> bool" where
  "leaf_signature block bs = (le_u64 block bs = ZBT_LEAF \<and> le_u32 block (bs + 24) = ZAP_LEAF_MAGIC)"

definition fat_encode :: "bytes \<Rightarrow> zap_leaf list \<Rightarrow> bytes" where
  "fat_encode hdr leaves = hdr @ concat (map leaf_encode leaves)"

definition wf_fat :: "nat \<Rightarrow> bytes \<Rightarrow> zap_leaf list \<Rightarrow> bool" where
  "wf_fat s hdr leaves \<longleftrightarrow> 9 \<le> s \<and> s \<le> 17 \<and> length hdr = 2 ^ s \<and> le_u64 hdr 0 = ZBT_HEADER \<and>
     list_all (\<lambda>j. \<not> leaf_signature hdr (2 ^ j)) [9..<s] \<and> leaves \<noteq> [] \<and> list_all (wf_leaf s) leaves"

lemma find_first: "(\<And>x. x \<in> set xs \<Longrightarrow> \<not> P x) \<Longrightarrow> P y \<Longrightarrow> List.find P (xs @ y # ys) = Some y"
  by (induction xs) auto

lemma length_fat_encode:
  "wf_fat s hdr leaves \<Longrightarrow> length (fat_encode hdr leaves) = (length leaves + 1) * 2 ^ s"
proof -
  assume wf: "wf_fat s hdr leaves"
  then have "list_all (\<lambda>b. length b = 2 ^ s) (map leaf_encode leaves)"
    by (auto simp: wf_fat_def wf_leaf_def list_all_iff)
  then show ?thesis using wf by (simp add: fat_encode_def length_concat_const wf_fat_def)
qed

lemma block_sizes_within:
  fixes n :: nat
  assumes "9 \<le> s" and "s \<le> 17" and "2 ^ s < n"
  shows "takeWhile (\<lambda>bs. bs < n) (map (\<lambda>s. 2 ^ s) [9..<18]) =
    map (\<lambda>s. 2 ^ s) [9..<s] @ 2 ^ s # takeWhile (\<lambda>bs. bs < n) (map (\<lambda>s. 2 ^ s) [Suc s..<18])"
proof -
  have "[9..<18] = [9..<s] @ s # [Suc s..<18]"
    using upt_add_eq_append [of 9 s "18 - s"] assms upt_conv_Cons [of s 18] by simp
  moreover have "(2::nat) ^ j < n" if "j < s" for j
  proof -
    have "(2::nat) ^ j \<le> 2 ^ s" using that by (intro power_increasing) simp_all
    then show ?thesis using assms(3) by (rule order.strict_trans1)
  qed
  then have "takeWhile (\<lambda>bs. bs < n) (map (\<lambda>s. 2 ^ s) [9..<s] @ ys) =
      map (\<lambda>s. 2 ^ s) [9..<s] @ takeWhile (\<lambda>bs. bs < n) ys" for ys
    by (intro takeWhile_append2) auto
  ultimately show ?thesis using assms(3) by (simp only: map_append list.map takeWhile.simps if_True)
qed

lemma fat_block_size_encode:
  assumes wf: "wf_fat s hdr leaves"
  shows "fat_block_size (fat_encode hdr leaves) = 2 ^ s"
proof -
  let ?b = "fat_encode hdr leaves"
  have s: "9 \<le> s" "s \<le> 17" "length hdr = 2 ^ s" using wf by (simp_all add: wf_fat_def)
  obtain l ls where ls: "leaves = l # ls" "wf_leaf s l" using wf by (cases leaves) (auto simp: wf_fat_def)
  have "(2::nat) ^ 9 \<le> 2 ^ s" using s by (intro power_increasing) simp_all
  then have "28 \<le> length (leaf_encode l)" using ls(2) by (simp add: wf_leaf_def)
  then have first: "leaf_signature ?b (2 ^ s)"
    using leaf_encode_parts(1,2) [OF ls(2)] s(3)
      le64.append_right [of hdr "leaf_encode l @ concat (map leaf_encode ls)" 0]
      le32.append_right [of hdr "leaf_encode l @ concat (map leaf_encode ls)" 24]
    by (simp add: leaf_signature_def fat_encode_def ls(1) le64.append_left le32.append_left)
  have none: "\<not> leaf_signature ?b (2 ^ j)" if j: "9 \<le> j" "j < s" for j
  proof -
    have "(2::nat) ^ Suc j \<le> 2 ^ s" using j by (intro power_increasing) simp_all
    moreover have "(2::nat) ^ 9 \<le> 2 ^ j" using j by (intro power_increasing) simp_all
    ultimately have "2 ^ j + 28 \<le> length hdr" using s by simp
    then have "leaf_signature ?b (2 ^ j) = leaf_signature hdr (2 ^ j)"
      by (simp add: leaf_signature_def fat_encode_def le64.append_left le32.append_left)
    then show ?thesis using wf j by (auto simp: wf_fat_def list_all_iff)
  qed
  have "2 ^ s < length ?b" using length_fat_encode [OF wf] ls(1) by simp
  from block_sizes_within [OF s(1,2) this] have "takeWhile (\<lambda>bs. bs < length ?b) (map (\<lambda>s. 2 ^ s) [9..<18]) =
      map (\<lambda>s. 2 ^ s) [9..<s] @ 2 ^ s # takeWhile (\<lambda>bs. bs < length ?b) (map (\<lambda>s. 2 ^ s) [Suc s..<18])" .
  moreover have "List.find (leaf_signature ?b) (map (\<lambda>s. 2 ^ s) [9..<s] @ 2 ^ s # ys) = Some (2 ^ s)" for ys
    by (rule find_first) (use none first in auto)
  moreover have "(\<lambda>bs. le_u64 ?b bs = ZBT_LEAF \<and> le_u32 ?b (bs + 24) = ZAP_LEAF_MAGIC) = leaf_signature ?b"
    by (simp add: leaf_signature_def [abs_def])
  ultimately show ?thesis by (simp only: fat_block_size_def option.case)
qed

lemma fat_walk_leaves:
  assumes "list_all (\<lambda>b. length b = bs \<and> le_u64 b 0 = ZBT_LEAF \<and> le_u32 b 24 = ZAP_LEAF_MAGIC) leaves" and "48 \<le> bs"
  shows "fat_walk f (pre @ concat leaves) bs (length pre) out = foldl (\<lambda>out b. f b bs out) out leaves"
  using assms(1)
proof (induction leaves arbitrary: pre out)
  case Nil
  then show ?case using assms(2) by (simp add: fat_walk.simps ZAP_LEAF_HDR_SIZE_def)
next
  case (Cons b leaves)
  have "fat_walk f (pre @ concat (b # leaves)) bs (length pre) out =
      fat_walk f ((pre @ b) @ concat leaves) bs (length (pre @ b)) (f b bs out)"
    using Cons.prems assms(2) by (subst fat_walk.simps) (simp add: ZAP_LEAF_HDR_SIZE_def Let_def)
  then show ?case using Cons.IH [of "pre @ b"] Cons.prems by simp
qed

lemma fat_list_arrays_encode:
  assumes wf: "wf_fat s hdr leaves"
  shows "fat_list_arrays (fat_encode hdr leaves) =
    concat (map (\<lambda>l. map (\<lambda>e. (fst e, snd (snd e))) (zl_entries l)) leaves)"
proof -
  have s: "9 \<le> s" "s \<le> 17" "length hdr = 2 ^ s" "list_all (wf_leaf s) leaves" using wf by (simp_all add: wf_fat_def)
  have "(2::nat) ^ 9 \<le> 2 ^ s" using s by (intro power_increasing) simp_all
  then have bs: "48 \<le> (2::nat) ^ s" by simp
  have sig: "list_all (\<lambda>b. length b = 2 ^ s \<and> le_u64 b 0 = ZBT_LEAF \<and> le_u32 b 24 = ZAP_LEAF_MAGIC) (map leaf_encode leaves)"
    using s(4) leaf_encode_parts(1,2) by (auto simp: list_all_iff wf_leaf_def)
  have fold: "foldl (\<lambda>out b. fat_leaf_entries_arrays b (2 ^ s) out) out (map leaf_encode leaves) =
      out @ concat (map (\<lambda>l. map (\<lambda>e. (fst e, snd (snd e))) (zl_entries l)) leaves)" for out
    using s(4)
  proof (induction leaves arbitrary: out)
    case (Cons l leaves)
    then show ?case using fat_leaf_encoded [of s l out] s(2) by simp
  qed simp
  show ?thesis
    using fat_walk_leaves [OF sig bs, of fat_leaf_entries_arrays hdr "[]"] fold [of "[]"] s(3)
      fat_block_size_encode [OF wf]
    by (simp add: fat_list_arrays_def fat_encode_def)
qed

lemma le_u64_fat_encode: "wf_fat s hdr leaves \<Longrightarrow> le_u64 (fat_encode hdr leaves) 0 = ZBT_HEADER"
proof -
  assume wf: "wf_fat s hdr leaves"
  then have "(2::nat) ^ 9 \<le> 2 ^ s" by (intro power_increasing) (simp_all add: wf_fat_def)
  then show ?thesis using wf by (simp add: wf_fat_def fat_encode_def le64.append_left)
qed

lemma zbt_neq: "ZBT_MICRO \<noteq> ZBT_HEADER"
  by (simp add: ZBT_MICRO_def ZBT_HEADER_def)

text \<open>A value of eight big-endian bytes folds to itself.\<close>

lemma unat_shift_in:
  assumes "unat (v :: u64) < 2 ^ 56"
  shows "unat (push_bit 8 v OR ucast (b :: u8)) = unat v * 256 + unat b"
proof -
  have "push_bit 8 v + ucast b = push_bit 8 v OR (ucast b :: u64)"
    by (rule disjunctive_add) (auto simp: bit_simps dest: bit_imp_le_length)
  moreover have "unat (push_bit 8 v) = unat v * 256" using assms by (simp add: unat_push_bit)
  moreover have "unat (ucast b :: u64) = unat b" by (simp add: unat_ucast_up)
  ultimately show ?thesis
    using assms byte_bound [of b] by (simp flip: \<open>push_bit 8 v + ucast b = _\<close> add: unat_word_ariths(1))
qed

lemma fold_shift_in:
  "unat v * 256 ^ length bs + 256 ^ length bs \<le> 2 ^ 64 \<Longrightarrow>
     unat (foldl (\<lambda>v b. push_bit 8 v OR ucast b) (v :: u64) bs) = unat v * 256 ^ length bs + le_nat (rev bs)"
proof (induction bs arbitrary: v)
  case (Cons b bs)
  have "256 * (unat v + 1) \<le> (256 * (unat v + 1)) * 256 ^ length bs" by simp
  also have "\<dots> \<le> 2 ^ 64" using Cons.prems by (simp add: algebra_simps)
  finally have v: "unat v < 2 ^ 56" by simp
  note step = unat_shift_in [OF v, of b]
  have "(unat v * 256 + unat b) * 256 ^ length bs + 256 ^ length bs \<le> (unat v * 256 + 256) * 256 ^ length bs"
    using mult_le_mono1 [of "unat v * 256 + unat b + 1" "unat v * 256 + 256" "256 ^ length bs"] byte_bound [of b]
    by (simp add: algebra_simps)
  also have "\<dots> \<le> 2 ^ 64" using Cons.prems by (simp add: algebra_simps)
  finally have "unat (push_bit 8 v OR ucast b) * 256 ^ length bs + 256 ^ length bs \<le> 2 ^ 64" by (simp only: step)
  from Cons.IH [OF this] show ?case by (simp add: step le_nat_append algebra_simps)
qed simp

lemma fold_value_be: "fold_value (to_be_bytes 8 v @ rest) = v"
proof -
  have "unat (fold_value (to_be_bytes 8 v @ rest)) = le_nat (rev (to_be_bytes 8 v))"
    using fold_shift_in [of 0 "to_be_bytes 8 v"] by (simp add: fold_value_def)
  also have "\<dots> = unat v"
  proof -
    have "unat v < 2 ^ LENGTH(64)" by (rule unsigned_less)
    then show ?thesis by (simp add: to_be_bytes_def le_nat_to_le_bytes)
  qed
  finally show ?thesis by (rule word_eq_unatI)
qed

subsection \<open>Properties\<close>

text \<open>
  C21. A micro-ZAP block lists exactly the named slots that were written, in order, skipping empty
  ones, and lookup answers the first slot of the name.
\<close>

theorem zap_micro_round_trip:
  assumes "length hdr = 56" and "list_all wf_slot slots"
  shows "zap_list (micro_encode hdr slots) = map (\<lambda>s. (fst s, fst (snd s))) (filter (\<lambda>s. fst s \<noteq> []) slots) \<and>
    (name \<noteq> [] \<longrightarrow> zap_lookup (micro_encode hdr slots) name = map_option fst (map_of slots name))"
proof -
  have "find_name name (map (\<lambda>s. (fst s, fst (snd s))) (filter (\<lambda>s. fst s \<noteq> []) slots)) =
      map_option fst (map_of slots name)" if "name \<noteq> []"
    using that by (induction slots) auto
  then show ?thesis using zap_list_micro [OF assms] by (simp add: zap_lookup_def)
qed

lemma zap_micro_round_trip_witness:
  "zap_list (micro_encode (replicate 56 0) [([97, 98], 5, replicate 6 0), ([], 9, replicate 6 0), ([99], 7, replicate 6 1)]) =
     [([97, 98], 5), ([99], 7)] \<and>
   zap_lookup (micro_encode (replicate 56 0) [([97, 98], 5, replicate 6 0), ([], 9, replicate 6 0), ([99], 7, replicate 6 1)]) [99] = Some 7"
  using zap_micro_round_trip [of "replicate 56 0"
      "[([97, 98], 5, replicate 6 0), ([], 9, replicate 6 0), ([99], 7, replicate 6 1)]" "[99]"]
  by (simp add: wf_slot_def valid_utf8_ascii)

text \<open>The folded value is the number the first eight bytes spell in big-endian order.\<close>

lemma fold_value_number: "fold_value bs = from_be_bytes (take 8 bs)"
proof -
  have "256 ^ length (take 8 bs) \<le> (256 :: nat) ^ 8" by (intro power_increasing) simp_all
  then have "unat (fold_value bs) = le_nat (rev (take 8 bs))"
    using fold_shift_in [of 0 "take 8 bs"] by (simp add: fold_value_def)
  moreover have "of_nat (unat (fold_value bs)) = fold_value bs" by simp
  ultimately have "fold_value bs = of_nat (le_nat (rev (take 8 bs)))" by (simp only:)
  then show ?thesis by (simp add: from_be_bytes_def)
qed

text \<open>
  C20. A fat-ZAP lists exactly the entries written to its leaves, leaf after leaf, names and values
  of any length reassembled from their chunk chains; the folded listing gives for each value the
  number its first eight bytes spell in big-endian order, so when the values are eight-byte
  big-endian numbers it lists those numbers.
\<close>

theorem zap_fat_round_trip:
  assumes "wf_fat s hdr leaves"
  shows "zap_list_arrays (fat_encode hdr leaves) =
      concat (map (\<lambda>l. map (\<lambda>e. (fst e, snd (snd e))) (zl_entries l)) leaves) \<and>
    zap_list (fat_encode hdr leaves) =
      concat (map (\<lambda>l. map (\<lambda>e. (fst e, from_be_bytes (take 8 (snd (snd e))))) (zl_entries l)) leaves) \<and>
    (concat (map (\<lambda>l. map (\<lambda>e. snd (snd e)) (zl_entries l)) leaves) = map (to_be_bytes 8) vals \<longrightarrow>
      map snd (zap_list (fat_encode hdr leaves)) = vals)"
proof -
  let ?raw = "concat (map (\<lambda>l. map (\<lambda>e. (fst e, snd (snd e))) (zl_entries l)) leaves)"
  have arrays: "zap_list_arrays (fat_encode hdr leaves) = ?raw"
    and list: "zap_list (fat_encode hdr leaves) = map (\<lambda>(n, v). (n, fold_value v)) ?raw"
    using fat_list_arrays_encode [OF assms] le_u64_fat_encode [OF assms] zbt_neq [symmetric]
    by (simp_all add: zap_list_arrays_def zap_list_def fat_list_fold)
  have "map snd (map (\<lambda>(n, v). (n, fold_value v)) ?raw) =
      map fold_value (concat (map (\<lambda>l. map (\<lambda>e. snd (snd e)) (zl_entries l)) leaves))"
    by (simp add: map_concat comp_def)
  moreover have "fold_value (to_be_bytes 8 v) = v" for v using fold_value_be [of v "[]"] by simp
  ultimately have "concat (map (\<lambda>l. map (\<lambda>e. snd (snd e)) (zl_entries l)) leaves) = map (to_be_bytes 8) vals \<longrightarrow>
      map snd (zap_list (fat_encode hdr leaves)) = vals"
    unfolding list by (simp add: comp_def)
  then show ?thesis
    using arrays list by (simp add: map_concat comp_def fold_value_number)
qed

definition sample_leaf :: zap_leaf where
  "sample_leaf = \<lparr>zl_head = replicate 16 0, zl_mid = replicate 20 0, zl_hash = replicate 32 0,
     zl_entries = [([82, 79, 79, 84], 8, to_be_bytes 8 (34 :: u64))], zl_free = 15, zl_tail = []\<rparr>"

definition sample_fat_header :: bytes where
  "sample_fat_header = to_le_bytes 8 ZBT_HEADER @ replicate 504 0"

lemma wf_sample_leaf: "wf_leaf 9 sample_leaf"
proof -
  have "length (leaf_encode sample_leaf) = 512"
    using length_concat_24 [OF entry_chunks_24, of 0 "([82, 79, 79, 84], 8, to_be_bytes 8 (34 :: u64))"]
      length_concat_24 [of "replicate 15 free_chunk"]
    by (simp add: leaf_encode_def sample_leaf_def length_entry_chunks entry_size_def npieces_def
      length_free_chunk list_all_length)
  moreover have "wf_entry ([82, 79, 79, 84], 8, to_be_bytes 8 (34 :: u64))"
    by (auto simp: wf_entry_def valid_utf8_ascii intro: exI [of _ 1])
  ultimately show ?thesis by (simp add: wf_leaf_def sample_leaf_def)
qed

lemma wf_sample_fat: "wf_fat 9 sample_fat_header [sample_leaf]"
  using wf_sample_leaf le64.read_enc [of ZBT_HEADER "replicate 504 0"]
  by (simp add: wf_fat_def sample_fat_header_def)

lemma zap_fat_round_trip_witness:
  "map snd (zap_list (fat_encode sample_fat_header [sample_leaf])) = [34] \<and>
   zap_list_arrays (fat_encode sample_fat_header [sample_leaf]) = [([82, 79, 79, 84], to_be_bytes 8 (34 :: u64))]"
  using conjunct1 [OF zap_fat_round_trip [OF wf_sample_fat, of "[34]"]]
    conjunct2 [OF conjunct2 [OF zap_fat_round_trip [OF wf_sample_fat, of "[34]"]]]
  by (simp add: sample_leaf_def)

text \<open>
  The two fat-ZAP listings agree: the 64-bit listing is the raw one with the first eight value
  bytes of each entry folded big-endian, entry for entry.
\<close>

lemma zap_fat_listings_agree:
  "fat_list block = map (\<lambda>(n, v). (n, fold_value v)) (fat_list_arrays block)"
  by (rule fat_list_fold)

text \<open>
  Reading a ZAP object yields its leaf blocks in block-id order, up to the 64 MiB cap on the
  number of blocks.
\<close>

lemma read_zap_object_concat:
  assumes "object_tree x img dn tops" and "length (concat tops) = unat (dn_maxblkid dn) + 1"
    and "data_block_size dn \<noteq> 0" and "length (concat tops) < 2 ^ 64"
  shows "read_zap_object x img dn =
    Inr (concat (take (64 * 1024 * 1024 div data_block_size dn) (concat tops)))"
proof -
  have n: "zap_nblocks dn = min (length (concat tops)) (64 * 1024 * 1024 div data_block_size dn)"
    using assms(2,4) by (simp add: zap_nblocks_def Let_def sat_add_def usize_max_def)
  have "concat_blocks (read_dnode_data x img dn) [0..<zap_nblocks dn] [] = Inr (concat (take (zap_nblocks dn) (concat tops)))"
    using read_blocks_concat [OF assms(1)] assms(2) n by simp
  then show ?thesis using assms(3) by (simp add: read_zap_object_def n min_def)
qed

lemma concat_blocks_error:
  "concat_blocks rd is out = Inl err \<Longrightarrow> \<exists>i\<in>set is. rd (of_nat i) = Inl err"
  by (induction "is" arbitrary: out) (auto simp: res_simps)

lemma read_zap_object_error:
  "list_all parsed_ptr (dn_blkptrs dn) \<Longrightarrow> read_zap_object x img dn = Inl err \<Longrightarrow> walk_error err"
  by (auto simp: read_zap_object_def dest!: concat_blocks_error dest: read_dnode_data_error split: if_splits)

text \<open>
  C23. The 64 MiB cap on a ZAP object counts blocks of the size the dnode declares, not the bytes its
  pointers yield: when every leaf has \<open>len\<close> bytes, the object that is read has that many bytes for
  each of \<open>64 MiB / block size\<close> blocks, and \<open>len\<close> may be 32 MiB while the declared size is 512.
\<close>

theorem zap_cap_counts_blocks:
  assumes "object_tree x img dn tops" and "list_all (\<lambda>leaf. length leaf = len) (concat tops)"
    and "length (concat tops) = unat (dn_maxblkid dn) + 1"
    and "data_block_size dn \<noteq> 0" and "length (concat tops) < 2 ^ 64"
  shows "map_option length (res_ok (read_zap_object x img dn)) =
    Some (min (unat (dn_maxblkid dn) + 1) (2 ^ 26 div data_block_size dn) * len)"
proof -
  let ?leaves = "take (64 * 1024 * 1024 div data_block_size dn) (concat tops)"
  have "list_all (\<lambda>leaf. length leaf = len) ?leaves"
    using assms(2) by (simp only: list_all_iff) (blast dest: in_set_takeD)
  then have "length (concat ?leaves) = length ?leaves * len" by (rule length_concat_const)
  then show ?thesis
    using read_zap_object_concat [OF assms(1,3,4,5)] by (simp only: assms(3) length_take) simp
qed

definition wide_hole_object :: dnode where
  "wide_hole_object = (inline_object [])\<lparr>dn_nblkptr := 3, dn_maxblkid := 2,
     dn_blkptrs := replicate 3 (blkptr_default\<lparr>bp_lsize_raw := 0xffff\<rparr>)\<rparr>"

lemma wide_hole_object_tree:
  "object_tree x img wide_hole_object (replicate 3 [replicate (2 ^ 25) 0])"
proof -
  let ?bp = "blkptr_default\<lparr>bp_lsize_raw := 0xffff\<rparr>"
  have "is_hole ?bp" "lsize_bytes ?bp = 2 ^ 25"
    by (simp_all add: is_hole_def lsize_bytes_def blkptr_default_def dva_is_empty_def dva_default_def
      sat_add_def usize_max_def list_all_iff)
  then have "block_tree x img wide_hole_object 0 ?bp [replicate (2 ^ 25) 0]"
    using block_tree.leaf [OF read_block_hole [of ?bp x img]] by (simp add: MAX_BLOCK_SIZE_def)
  moreover have "tree_levels wide_hole_object = 1"
    by (simp add: tree_levels_def wide_hole_object_def inline_object_def MAX_INDIRECT_LEVELS_def min_def)
  ultimately show ?thesis
    by (simp add: object_tree_def shift_overflows_def wide_hole_object_def inline_object_def list_all2_conv_all_nth)
qed

text \<open>Three pointers with a 512-byte declared block: 96 MiB against the 64 MiB of the cap.\<close>

lemma zap_cap_counts_blocks_witness:
  "map_option length (res_ok (read_zap_object no_codecs [] wide_hole_object)) = Some (3 * 2 ^ 25) \<and>
   data_block_size wide_hole_object = 512"
proof -
  have sz: "dn_maxblkid wide_hole_object = 2" "data_block_size wide_hole_object = 512"
    by (simp_all add: wide_hole_object_def inline_object_def data_block_size_def)
  then show ?thesis
    using zap_cap_counts_blocks [OF wide_hole_object_tree [of no_codecs "[]"], of "2 ^ 25"]
    by (simp add: list_all_iff)
qed

subsection \<open>Chains of array chunks\<close>

text \<open>
  The chunk a link leads to, with its payload and its own link, and the finite chains of such links:
  the chunks visited until a link leads nowhere.
\<close>

definition next_chunk :: "bytes \<Rightarrow> usize \<Rightarrow> usize \<Rightarrow> u16 \<Rightarrow> (bytes \<times> u16) option" where
  "next_chunk leaf area n nc =
     (let co = area + unat nc * ZAP_LEAF_CHUNKSIZE in
      if nc = - 1 \<or> n \<le> unat nc \<or> u8_at leaf co \<noteq> ZAP_CHUNK_ARRAY then None
      else map_option (\<lambda>payload. (payload, le_u16 leaf (co + 1 + ZAP_LEAF_ARRAY_BYTES)))
             (slice_get leaf (co + 1) (co + 1 + ZAP_LEAF_ARRAY_BYTES)))"

inductive chunk_chain :: "bytes \<Rightarrow> usize \<Rightarrow> usize \<Rightarrow> u16 \<Rightarrow> (u16 \<times> bytes) list \<Rightarrow> bool" for leaf area n where
  stop: "next_chunk leaf area n nc = None \<Longrightarrow> chunk_chain leaf area n nc []"
| link: "next_chunk leaf area n nc = Some (payload, nxt) \<Longrightarrow> chunk_chain leaf area n nxt cs \<Longrightarrow>
    chunk_chain leaf area n nc ((nc, payload) # cs)"

inductive_simps chunk_chain_Nil: "chunk_chain leaf area n nc []"
inductive_simps chunk_chain_Cons: "chunk_chain leaf area n nc (c # cs)"

lemma array_loop_step:
  "array_loop leaf area n want nc hops out =
     (if hops < n \<and> length out < want then
        (case next_chunk leaf area n nc of
           None \<Rightarrow> out
         | Some (payload, nxt) \<Rightarrow> array_loop leaf area n want nxt (hops + 1) (out @ payload))
      else out)"
  by (subst array_loop.simps)
    (simp add: next_chunk_def Let_def not_less split: option.splits)

lemma next_chunk_Some:
  "next_chunk leaf area n nc = Some (payload, nxt) \<Longrightarrow> unat nc < n \<and> length payload = 21"
  by (auto simp: next_chunk_def Let_def ZAP_LEAF_ARRAY_BYTES_def dest: slice_get_length split: if_splits)

lemma chunk_chain_unique: "chunk_chain leaf area n nc cs \<Longrightarrow> chunk_chain leaf area n nc ds \<Longrightarrow> cs = ds"
proof (induction arbitrary: ds rule: chunk_chain.induct)
  case (stop nc)
  from stop.prems show ?case by cases (simp_all add: stop.hyps)
next
  case (link nc payload nxt cs)
  from link.prems show ?case
    by cases (use link.hyps(1) link.IH in fastforce)+
qed

lemma chunk_chain_suffix: "chunk_chain leaf area n nc (cs @ (c, p) # ds) \<Longrightarrow> chunk_chain leaf area n c ((c, p) # ds)"
  by (induction cs arbitrary: nc) (auto simp: chunk_chain_Cons)

lemma chunk_chain_distinct: "chunk_chain leaf area n nc cs \<Longrightarrow> distinct (map fst cs)"
proof (induction rule: chunk_chain.induct)
  case (link nc payload nxt cs)
  have "nc \<notin> fst ` set cs"
  proof
    assume "nc \<in> fst ` set cs"
    then obtain p where "(nc, p) \<in> set cs" by auto
    then obtain us vs where cs: "cs = us @ (nc, p) # vs" by (meson split_list)
    then have "chunk_chain leaf area n nc ((nc, p) # vs)" using link.hyps(2) chunk_chain_suffix by blast
    then have "(nc, p) # vs = (nc, payload) # cs"
      using chunk_chain_unique chunk_chain.link [OF link.hyps] by blast
    then show False using cs by (auto dest: arg_cong [where f = length])
  qed
  then show ?case using link.IH by simp
qed simp

lemma chunk_chain_range: "chunk_chain leaf area n nc cs \<Longrightarrow> c \<in> set cs \<Longrightarrow> unat (fst c) < n \<and> length (snd c) = 21"
  by (induction rule: chunk_chain.induct) (auto dest: next_chunk_Some)

lemma chunk_chain_length: "chunk_chain leaf area n nc cs \<Longrightarrow> length cs \<le> n"
proof -
  assume chain: "chunk_chain leaf area n nc cs"
  have "distinct (map unat (map fst cs))"
    unfolding distinct_map using chunk_chain_distinct [OF chain]
    by (auto simp: distinct_map inj_on_def word_unat_eq_iff)
  moreover have "set (map unat (map fst cs)) \<subseteq> {..<n}" using chunk_chain_range [OF chain] by auto
  ultimately have "card (set (map unat (map fst cs))) \<le> n"
    by (metis card_lessThan card_mono finite_lessThan)
  then show ?thesis using \<open>distinct (map unat (map fst cs))\<close> distinct_card by fastforce
qed

lemma array_loop_finite:
  "chunk_chain leaf area n nc cs \<Longrightarrow> hops + length cs \<le> n \<Longrightarrow>
     take want (array_loop leaf area n want nc hops out) = take want (out @ concat (map snd cs))"
proof (induction arbitrary: hops out rule: chunk_chain.induct)
  case (stop nc)
  then show ?case by (subst array_loop_step) simp
next
  case (link nc payload nxt cs)
  show ?case
    using link by (subst array_loop_step) simp
qed

lemma array_loop_cycle:
  "(\<nexists>cs. chunk_chain leaf area n nc cs) \<Longrightarrow>
     length (take want (array_loop leaf area n want nc hops out)) = min want (length out + 21 * (n - hops))"
proof (induction "n - hops" arbitrary: nc hops out)
  case 0
  then show ?case by (subst array_loop_step) simp
next
  case (Suc m)
  obtain payload nxt where link_nc: "next_chunk leaf area n nc = Some (payload, nxt)"
    using Suc.prems chunk_chain.stop by fastforce
  then have "\<nexists>cs. chunk_chain leaf area n nxt cs" using Suc.prems chunk_chain.link by blast
  moreover have "m = n - (hops + 1)" using Suc.hyps(2) by simp
  ultimately have "length (take want (array_loop leaf area n want nxt (hops + 1) (out @ payload))) =
      min want (length (out @ payload) + 21 * (n - (hops + 1)))"
    by (intro Suc.hyps(1))
  moreover have "21 * (n - hops) = 21 + 21 * (n - (hops + 1))" "hops < n" using Suc.hyps(2) by simp_all
  ultimately show ?case
    using link_nc next_chunk_Some [OF link_nc]
    by (cases "length out < want"; subst array_loop_step) (simp_all add: add.assoc min_absorb1 min_absorb2)
qed

text \<open>
  C22. Following a chain of array chunks always ends: a finite chain has at most as many chunks as the
  leaf, so the hop budget never cuts it and the bytes are its payloads in order, cut to the wanted
  length; a cyclic chain is stopped by the budget after that many chunks of 21 bytes.
\<close>

theorem array_chain_followed:
  "(chunk_chain leaf area n start cs \<longrightarrow>
      array_bytes leaf area n start want = take want (concat (map snd cs)) \<and> length cs \<le> n) \<and>
   ((\<nexists>cs. chunk_chain leaf area n start cs) \<longrightarrow>
      length (array_bytes leaf area n start want) = min want (21 * n))"
  using array_loop_finite [of leaf area n start cs 0 want "[]"] chunk_chain_length [of leaf area n start cs]
    array_loop_cycle [of leaf area n start want 0 "[]"]
  by (auto simp: array_bytes_def)

definition one_chunk :: "u8 \<Rightarrow> bytes" where
  "one_chunk link = 251 # replicate 21 7 @ [link, link]"

lemma next_one_chunk: "next_chunk (one_chunk l) 0 1 0 = Some (replicate 21 7, le_u16 [l, l] 0)"
proof -
  have "le_u16 ((251 # replicate 21 7) @ [l, l]) (length (251 # replicate 21 (7 :: u8)) + 0) = le_u16 [l, l] 0"
    by (rule le16.append_right)
  then show ?thesis
    by (simp add: next_chunk_def Let_def one_chunk_def ZAP_LEAF_CHUNKSIZE_def ZAP_CHUNK_ARRAY_def
      ZAP_LEAF_ARRAY_BYTES_def u8_at_in slice_get_def)
qed

text \<open>A chunk that ends its chain, and one that links to itself.\<close>

lemma array_chain_followed_witness:
  "array_bytes (one_chunk 255) 0 1 0 30 = replicate 21 7 \<and> length (array_bytes (one_chunk 0) 0 1 0 30) = 21"
proof -
  have "le_u16 [255, 255] 0 = - 1" "le_u16 [0, 0] 0 = 0"
    by (simp_all add: le16.in_range from_le_bytes_def)
  then have n: "next_chunk (one_chunk 255) 0 1 0 = Some (replicate 21 7, - 1)"
      "next_chunk (one_chunk 0) 0 1 0 = Some (replicate 21 7, 0)"
    by (simp_all only: next_one_chunk)
  have "chunk_chain (one_chunk 255) 0 1 (- 1) []" by (simp add: chunk_chain_Nil next_chunk_def)
  with n(1) have finite: "chunk_chain (one_chunk 255) 0 1 0 [(0, replicate 21 7)]" by (rule chunk_chain.link)
  have cycle: "\<nexists>cs. chunk_chain (one_chunk 0) 0 1 0 cs"
  proof (rule notI, elim exE)
    fix cs assume chain: "chunk_chain (one_chunk 0) 0 1 0 cs"
    then show False
      using chunk_chain_unique [OF chain chunk_chain.link [OF n(2) chain]] by simp
  qed
  show ?thesis
    using array_chain_followed [of "one_chunk 255" 0 1 0 "[(0, replicate 21 7)]" 30]
      array_chain_followed [of "one_chunk 0" 0 1 0 _ 30] finite cycle
    by simp
qed

end
