(* ===== verification/Zfs_Sa.thy ===== *)
theory Zfs_Sa
  imports Zfs_Zap
begin

section \<open>System attributes (core/src/sa.rs)\<close>

text \<open>
  The attribute registry and layouts decoded from their ZAPs, the two walks over an SA buffer (the
  fixed-length decoder and the locator of one attribute) and the legacy znode. The lemmas give the
  position of every attribute of a fixed layout and show that both walks agree on it.
\<close>

definition SA_MAGIC :: u32 where "SA_MAGIC = 0x2F505A"
definition SA_TIME_SIZE :: usize where "SA_TIME_SIZE = 16"
definition ZNODE_PHYS_SIZE :: usize where "ZNODE_PHYS_SIZE = 264"

record sa_attr_desc =
  sd_id :: u16
  sd_size :: u16
  sd_bswap :: u8

record sa_registry =
  sr_by_name :: "(rstr \<times> sa_attr_desc) list"

definition sr_lookup :: "sa_registry \<Rightarrow> rstr \<Rightarrow> sa_attr_desc option" where
  "sr_lookup reg name = find_name name (sr_by_name reg)"

definition sr_size_of :: "sa_registry \<Rightarrow> u16 \<Rightarrow> u16 option" where
  "sr_size_of reg i = map_option (\<lambda>p. sd_size (snd p)) (List.find (\<lambda>p. sd_id (snd p) = i) (sr_by_name reg))"

definition sr_len :: "sa_registry \<Rightarrow> usize" where
  "sr_len reg = length (sr_by_name reg)"

definition sr_is_empty :: "sa_registry \<Rightarrow> bool" where
  "sr_is_empty reg = (sr_by_name reg = [])"

record sa_layouts =
  sl_by_num :: "(u64 \<times> u16 list) list"

definition sl_attr_ids :: "sa_layouts \<Rightarrow> u64 \<Rightarrow> u16 list option" where
  "sl_attr_ids lay num = find_name num (sl_by_num lay)"

definition sl_len :: "sa_layouts \<Rightarrow> usize" where
  "sl_len lay = length (sl_by_num lay)"

definition sl_is_empty :: "sa_layouts \<Rightarrow> bool" where
  "sl_is_empty lay = (sl_by_num lay = [])"

interpretation sa_names: name_table sr_by_name sr_lookup
  by unfold_locales (simp add: sr_lookup_def)

interpretation sa_nums: name_table sl_by_num sl_attr_ids
  by unfold_locales (simp add: sl_attr_ids_def)

record zpl_attrs_rec =
  za_mode :: u64
  za_size :: u64
  za_links :: u64
  za_uid :: u64
  za_gid :: u64
  za_gen :: u64
  za_parent :: u64
  za_flags :: u64
  za_atime :: "u64 \<times> u64"
  za_mtime :: "u64 \<times> u64"
  za_ctime :: "u64 \<times> u64"
  za_crtime :: "u64 \<times> u64"
  za_unknown_attr_ids :: "u16 list"

definition zpl_attrs_default :: zpl_attrs_rec where
  "zpl_attrs_default = \<lparr>za_mode = 0, za_size = 0, za_links = 0, za_uid = 0, za_gid = 0, za_gen = 0,
     za_parent = 0, za_flags = 0, za_atime = (0, 0), za_mtime = (0, 0), za_ctime = (0, 0),
     za_crtime = (0, 0), za_unknown_attr_ids = []\<rparr>"

subsection \<open>Registry and layouts\<close>

definition sa_desc_of :: "u64 \<Rightarrow> sa_attr_desc" where
  "sa_desc_of v = \<lparr>sd_id = ucast (v AND 0xFFFF), sd_size = ucast (drop_bit 24 v AND 0xFFFF),
     sd_bswap = ucast (drop_bit 16 v AND 0xFF)\<rparr>"

definition parse_sa_registry :: "bytes \<Rightarrow> sa_registry" where
  "parse_sa_registry block = \<lparr>sr_by_name = map (\<lambda>(name, v). (name, sa_desc_of v)) (zap_list block)\<rparr>"

definition zap_list_arrays_to_layouts :: "bytes \<Rightarrow> (u64 \<times> u16 list) list" where
  "zap_list_arrays_to_layouts block =
     List.map_filter (\<lambda>(name, bs).
       case parse_u64 name of
         None \<Rightarrow> None
       | Some num \<Rightarrow> Some (num, map from_be_bytes (chunks_exact 2 bs))) (zap_list_arrays block)"

definition parse_sa_layouts :: "bytes \<Rightarrow> sa_layouts" where
  "parse_sa_layouts block = \<lparr>sl_by_num = zap_list_arrays_to_layouts block\<rparr>"

subsection \<open>Decoding an SA bonus\<close>

record known_attrs =
  ka_mode :: "u16 option"
  ka_size :: "u16 option"
  ka_links :: "u16 option"
  ka_uid :: "u16 option"
  ka_gid :: "u16 option"
  ka_gen :: "u16 option"
  ka_parent :: "u16 option"
  ka_flags :: "u16 option"
  ka_atime :: "u16 option"
  ka_mtime :: "u16 option"
  ka_ctime :: "u16 option"
  ka_crtime :: "u16 option"

definition known_of :: "sa_registry \<Rightarrow> known_attrs" where
  "known_of reg =
     (let id_of = (\<lambda>name. map_option sd_id (sr_lookup reg (lit name))) in
      \<lparr>ka_mode = id_of ''ZPL_MODE'', ka_size = id_of ''ZPL_SIZE'', ka_links = id_of ''ZPL_LINKS'',
       ka_uid = id_of ''ZPL_UID'', ka_gid = id_of ''ZPL_GID'', ka_gen = id_of ''ZPL_GEN'',
       ka_parent = id_of ''ZPL_PARENT'', ka_flags = id_of ''ZPL_FLAGS'', ka_atime = id_of ''ZPL_ATIME'',
       ka_mtime = id_of ''ZPL_MTIME'', ka_ctime = id_of ''ZPL_CTIME'', ka_crtime = id_of ''ZPL_CRTIME''\<rparr>)"

definition assign_known ::
    "zpl_attrs_rec \<Rightarrow> known_attrs \<Rightarrow> u16 \<Rightarrow> reader \<Rightarrow> bytes \<Rightarrow> usize \<Rightarrow> usize \<Rightarrow> zpl_attrs_rec" where
  "assign_known attrs known i rd bonus off sz =
     (let scalar = rd_u64 rd bonus off; time = (rd_u64 rd bonus off, rd_u64 rd bonus (off + 8)); some = Some i in
      if some = ka_mode known \<and> sz \<ge> 8 then attrs\<lparr>za_mode := scalar\<rparr>
      else if some = ka_size known \<and> sz \<ge> 8 then attrs\<lparr>za_size := scalar\<rparr>
      else if some = ka_links known \<and> sz \<ge> 8 then attrs\<lparr>za_links := scalar\<rparr>
      else if some = ka_uid known \<and> sz \<ge> 8 then attrs\<lparr>za_uid := scalar\<rparr>
      else if some = ka_gid known \<and> sz \<ge> 8 then attrs\<lparr>za_gid := scalar\<rparr>
      else if some = ka_gen known \<and> sz \<ge> 8 then attrs\<lparr>za_gen := scalar\<rparr>
      else if some = ka_parent known \<and> sz \<ge> 8 then attrs\<lparr>za_parent := scalar\<rparr>
      else if some = ka_flags known \<and> sz \<ge> 8 then attrs\<lparr>za_flags := scalar\<rparr>
      else if some = ka_atime known \<and> sz \<ge> SA_TIME_SIZE then attrs\<lparr>za_atime := time\<rparr>
      else if some = ka_mtime known \<and> sz \<ge> SA_TIME_SIZE then attrs\<lparr>za_mtime := time\<rparr>
      else if some = ka_ctime known \<and> sz \<ge> SA_TIME_SIZE then attrs\<lparr>za_ctime := time\<rparr>
      else if some = ka_crtime known \<and> sz \<ge> SA_TIME_SIZE then attrs\<lparr>za_crtime := time\<rparr>
      else attrs)"

text \<open>The attribute loop of \<^verbatim>\<open>decode_sa_bonus\<close>, with its three breaks.\<close>

fun sa_walk :: "sa_registry \<Rightarrow> known_attrs \<Rightarrow> reader \<Rightarrow> bytes \<Rightarrow> u16 list \<Rightarrow> usize \<Rightarrow> zpl_attrs_rec \<Rightarrow> zpl_attrs_rec" where
  "sa_walk reg known rd bonus [] off attrs = attrs"
| "sa_walk reg known rd bonus (i # is) off attrs =
     (case sr_size_of reg i of
        None \<Rightarrow> attrs\<lparr>za_unknown_attr_ids := za_unknown_attr_ids attrs @ [i]\<rparr>
      | Some size16 \<Rightarrow>
          (let sz = unat size16 in
           if sz = 0 then attrs
           else if sat_add off sz > length bonus then attrs
           else sa_walk reg known rd bonus is (off + sz) (assign_known attrs known i rd bonus off sz)))"

definition sa_layout_num :: "bytes \<Rightarrow> u64" where
  "sa_layout_num sa = ucast (le_u16 sa 4 AND 0x3FF)"

definition sa_hdrsz :: "bytes \<Rightarrow> usize" where
  "sa_hdrsz sa = unat (drop_bit 10 (le_u16 sa 4) AND 0x3F) * 2 ^ 3"

definition decode_sa_bonus :: "bytes \<Rightarrow> sa_registry \<Rightarrow> sa_layouts \<Rightarrow> endian \<Rightarrow> zpl_attrs_rec option" where
  "decode_sa_bonus bonus reg layouts e =
     (if le_u32 bonus 0 \<noteq> SA_MAGIC then None
      else case sl_attr_ids layouts (sa_layout_num bonus) of
        None \<Rightarrow> None
      | Some ids \<Rightarrow>
          Some (sa_walk reg (known_of reg) (reader_new e) bonus ids (sa_hdrsz bonus) zpl_attrs_default))"

subsection \<open>Locating one attribute\<close>

fun sa_locate :: "sa_registry \<Rightarrow> bytes \<Rightarrow> usize \<Rightarrow> u16 \<Rightarrow> u16 list \<Rightarrow> nat \<Rightarrow> usize \<Rightarrow> bytes option" where
  "sa_locate reg sa hdrsz want [] var_idx off = None"
| "sa_locate reg sa hdrsz want (i # is) var_idx off =
     do {
       registered \<leftarrow> sr_size_of reg i;
       (sz, var_idx') \<leftarrow>
         (if registered = 0 then
            (let at = 6 + var_idx * 2 in
             if at + 2 > min hdrsz (length sa) then None
             else Some (unat (le_u16 sa at), var_idx + 1))
          else Some (unat registered, var_idx));
       fin \<leftarrow> checked_add off sz;
       (if i = want then slice_get sa off fin else sa_locate reg sa hdrsz want is var_idx' fin)
     }"

definition sa_attr_bytes :: "bytes \<Rightarrow> sa_registry \<Rightarrow> sa_layouts \<Rightarrow> rstr \<Rightarrow> bytes option" where
  "sa_attr_bytes sa reg layouts name =
     (if le_u32 sa 0 \<noteq> SA_MAGIC then None
      else do {
        ids \<leftarrow> sl_attr_ids layouts (sa_layout_num sa);
        want \<leftarrow> sr_lookup reg name;
        sa_locate reg sa (sa_hdrsz sa) (sd_id want) ids 0 (sa_hdrsz sa)
      })"

subsection \<open>The legacy znode\<close>

definition decode_znode_phys :: "bytes \<Rightarrow> endian \<Rightarrow> zpl_attrs_rec option" where
  "decode_znode_phys bonus e =
     (if length bonus < ZNODE_PHYS_SIZE then None
      else let rd = reader_new e; time = (\<lambda>off. (rd_u64 rd bonus off, rd_u64 rd bonus (off + 8))) in
        Some \<lparr>za_mode = rd_u64 rd bonus 72, za_size = rd_u64 rd bonus 80, za_links = rd_u64 rd bonus 96,
          za_uid = 0, za_gid = 0, za_gen = rd_u64 rd bonus 64, za_parent = rd_u64 rd bonus 88, za_flags = 0,
          za_atime = time 0, za_mtime = time 16, za_ctime = time 32, za_crtime = time 48,
          za_unknown_attr_ids = []\<rparr>)"

subsection \<open>The position of an attribute\<close>

text \<open>
  Attributes of fixed registered size lie one after the other from the header's end:
  \<open>attr_pos reg h pre\<close> is where the attribute after \<open>pre\<close> starts.
\<close>

definition fixed_ids :: "sa_registry \<Rightarrow> u16 list \<Rightarrow> bool" where
  "fixed_ids reg ids = list_all (\<lambda>i. sr_size_of reg i \<noteq> None \<and> sr_size_of reg i \<noteq> Some 0) ids"

definition attr_size :: "sa_registry \<Rightarrow> u16 \<Rightarrow> nat" where
  "attr_size reg i = (case sr_size_of reg i of Some s \<Rightarrow> unat s | None \<Rightarrow> 0)"

definition attr_pos :: "sa_registry \<Rightarrow> usize \<Rightarrow> u16 list \<Rightarrow> usize" where
  "attr_pos reg h pre = h + sum_list (map (attr_size reg) pre)"

lemma fixed_ids_simps [simp]:
  "fixed_ids reg []" "fixed_ids reg (i # is) \<longleftrightarrow> sr_size_of reg i \<noteq> None \<and> sr_size_of reg i \<noteq> Some 0 \<and> fixed_ids reg is"
  "fixed_ids reg (xs @ ys) \<longleftrightarrow> fixed_ids reg xs \<and> fixed_ids reg ys"
  by (auto simp: fixed_ids_def)

lemma attr_pos_simps [simp]:
  "attr_pos reg h [] = h" "attr_pos reg h (i # is) = attr_pos reg (h + attr_size reg i) is"
  "attr_pos reg h (xs @ ys) = attr_pos reg (attr_pos reg h xs) ys"
  by (simp_all add: attr_pos_def)

lemma attr_pos_ge: "h \<le> attr_pos reg h is"
  by (simp add: attr_pos_def)

lemma fixed_size:
  "sr_size_of reg i \<noteq> None \<Longrightarrow> sr_size_of reg i \<noteq> Some 0 \<Longrightarrow> \<exists>s. sr_size_of reg i = Some s \<and> unat s = attr_size reg i \<and> 0 < attr_size reg i"
  by (auto simp: attr_size_def unat_gt_0)

lemma sa_locate_fixed:
  assumes "fixed_ids reg (pre @ [i])" and "i \<notin> set pre"
    and "attr_pos reg off (pre @ [i]) \<le> length sa" and "length sa \<le> usize_max"
  shows "sa_locate reg sa h i (pre @ i # post) v off =
    Some (take (attr_size reg i) (drop (attr_pos reg off pre) sa))"
  using assms
proof (induction pre arbitrary: off v)
  case Nil
  then obtain s where "sr_size_of reg i = Some s" "unat s = attr_size reg i" "s \<noteq> 0"
    using fixed_size [of reg i] by (auto simp: unat_gt_0)
  then show ?case
    using Nil by (simp add: checked_add_def slice_get_def attr_pos_def)
next
  case (Cons j pre)
  then obtain s where s: "sr_size_of reg j = Some s" "unat s = attr_size reg j" "s \<noteq> 0"
    using fixed_size [of reg j] by (auto simp: unat_gt_0)
  have "off + attr_size reg j \<le> length sa"
    using Cons.prems(3) attr_pos_ge [of "off + attr_size reg j" reg "pre @ [i]"] by simp
  moreover have "j \<noteq> i" using Cons.prems(2) by auto
  ultimately show ?case
    using Cons.IH [of "off + attr_size reg j" v] Cons.prems s by (simp add: checked_add_def)
qed

lemma sa_walk_prefix:
  assumes "fixed_ids reg pre" and "attr_pos reg off pre \<le> length bonus" and "length bonus \<le> usize_max"
  shows "\<exists>attrs'. sa_walk reg known rd bonus (pre @ ids) off attrs = sa_walk reg known rd bonus ids (attr_pos reg off pre) attrs'"
  using assms
proof (induction pre arbitrary: off attrs)
  case Nil
  then show ?case by auto
next
  case (Cons j pre)
  then obtain s where s: "sr_size_of reg j = Some s" "unat s = attr_size reg j" "0 < attr_size reg j"
    using fixed_size [of reg j] by auto
  have "off + attr_size reg j \<le> length bonus"
    using Cons.prems(2) attr_pos_ge [of "off + attr_size reg j" reg pre] by simp
  then show ?case
    using Cons s by (simp add: sat_add_def Let_def)
qed

lemma assign_known_size:
  "ka_size known \<noteq> Some i \<Longrightarrow> za_size (assign_known attrs known i rd bonus off sz) = za_size attrs"
  by (auto simp: assign_known_def Let_def)

lemma sa_walk_size:
  "ka_size known = Some i \<Longrightarrow> i \<notin> set ids \<Longrightarrow> za_size (sa_walk reg known rd bonus ids off attrs) = za_size attrs"
proof (induction ids arbitrary: off attrs)
  case (Cons j ids)
  then have "ka_size known \<noteq> Some j" by auto
  then show ?case
    using Cons by (auto simp: Let_def assign_known_size split: option.splits)
qed simp

lemma decode_sa_size:
  assumes "le_u32 sa 0 = SA_MAGIC" and "sl_attr_ids layouts (sa_layout_num sa) = Some (pre @ i # post)"
    and "fixed_ids reg (pre @ [i])" and "i \<notin> set post" and "ka_size (known_of reg) = Some i"
    and "ka_mode (known_of reg) \<noteq> Some i" and "8 \<le> attr_size reg i"
    and "attr_pos reg (sa_hdrsz sa) (pre @ [i]) \<le> length sa" and "length sa \<le> usize_max"
  shows "map_option za_size (decode_sa_bonus sa reg layouts e) =
    Some (rd_u64 (reader_new e) sa (attr_pos reg (sa_hdrsz sa) pre))"
proof -
  let ?k = "known_of reg" and ?rd = "reader_new e" and ?p = "attr_pos reg (sa_hdrsz sa) pre"
  have p: "?p \<le> length sa" "?p + attr_size reg i \<le> length sa" using assms(8) by simp_all
  have "fixed_ids reg pre" using assms(3) by simp
  from sa_walk_prefix [OF this p(1) assms(9)]
  obtain attrs' where "sa_walk reg ?k ?rd sa (pre @ i # post) (sa_hdrsz sa) zpl_attrs_default =
      sa_walk reg ?k ?rd sa (i # post) ?p attrs'" by blast
  moreover obtain s where "sr_size_of reg i = Some s" "unat s = attr_size reg i" "0 < attr_size reg i"
    using fixed_size [of reg i] assms(3) by auto
  ultimately show ?thesis
    using assms p sa_walk_size [OF assms(5,4)]
    by (simp add: decode_sa_bonus_def Let_def sat_add_def assign_known_def)
qed

subsection \<open>Encoding the registry and the layouts\<close>

definition sa_reg_value :: "sa_attr_desc \<Rightarrow> u64" where
  "sa_reg_value d = of_nat (pack [(16, unat (sd_id d)), (8, unat (sd_bswap d)), (16, unat (sd_size d))])"

definition sa_reg_slot :: "rstr \<times> sa_attr_desc \<Rightarrow> rstr \<times> u64 \<times> bytes" where
  "sa_reg_slot r = (fst r, sa_reg_value (snd r), replicate 6 0)"

definition sa_layout_entry :: "u64 \<times> u16 list \<Rightarrow> zap_entry" where
  "sa_layout_entry l = (dec_digits (unat (fst l)), 2, concat (map (to_be_bytes 2) (snd l)))"

lemma sa_desc_of_value: "sa_desc_of (sa_reg_value d) = d"
proof -
  let ?fs = "[(16, unat (sd_id d)), (8, unat (sd_bswap d)), (16, unat (sd_size d))]"
  have b: "unat (sd_id d) < 2 ^ 16" "unat (sd_bswap d) < 2 ^ 8" "unat (sd_size d) < 2 ^ 16"
    using unsigned_less [of "sd_id d"] unsigned_less [of "sd_bswap d"] unsigned_less [of "sd_size d"] by simp_all
  have u: "unat (sa_reg_value d) = pack ?fs"
    unfolding sa_reg_value_def by (rule word_of_pack) (use b in simp_all)
  have "ucast (sa_reg_value d AND 0xFFFF) = sd_id d"
    "ucast (drop_bit 24 (sa_reg_value d) AND 0xFFFF) = sd_size d"
    "ucast (drop_bit 16 (sa_reg_value d) AND 0xFF) = sd_bswap d"
    by (rule word_eq_unatI, use b in \<open>simp add: bits_fields u bits_pack del: pack.simps\<close>)+
  then show ?thesis by (simp add: sa_desc_of_def)
qed

lemma be16_words: "map from_be_bytes (chunks_exact 2 (concat (map (to_be_bytes 2) ids))) = (ids :: u16 list)"
proof (induction ids)
  case (Cons i ids)
  then show ?case by (subst chunks_exact.simps) (simp add: be16.length_enc be16.dec_enc)
qed (simp add: chunks_exact.simps)

lemma layouts_of_entries:
  "List.map_filter (\<lambda>(name, bs). case parse_u64 name of None \<Rightarrow> None
      | Some num \<Rightarrow> Some (num, map from_be_bytes (chunks_exact 2 bs)))
    (map (\<lambda>e. (fst e, snd (snd e))) (map sa_layout_entry lays)) = lays"
  by (induction lays) (auto simp: List.map_filter_def sa_layout_entry_def parse_u64_dec be16_words)

subsection \<open>Properties\<close>

text \<open>
  The two walks over an SA buffer agree: on a layout of fixed-size attributes that fits, the
  located bytes of ZPL_SIZE are those at its position, and the size the decoder reports is the
  number those bytes encode in the pool's byte order.
\<close>

lemma sa_walks_agree:
  assumes "le_u32 sa 0 = SA_MAGIC" and "sl_attr_ids layouts (sa_layout_num sa) = Some (pre @ sd_id d # post)"
    and "sr_lookup reg (lit ''ZPL_SIZE'') = Some d"
    and "fixed_ids reg (pre @ [sd_id d])" and "distinct (pre @ sd_id d # post)"
    and "ka_mode (known_of reg) \<noteq> Some (sd_id d)" and "8 \<le> attr_size reg (sd_id d)"
    and "attr_pos reg (sa_hdrsz sa) (pre @ [sd_id d]) \<le> length sa" and "length sa \<le> usize_max"
  shows "sa_attr_bytes sa reg layouts (lit ''ZPL_SIZE'') =
      Some (take (attr_size reg (sd_id d)) (drop (attr_pos reg (sa_hdrsz sa) pre) sa)) \<and>
    map_option za_size (decode_sa_bonus sa reg layouts e) =
      map_option (\<lambda>bs. dec_bytes e (take 8 bs)) (sa_attr_bytes sa reg layouts (lit ''ZPL_SIZE''))"
proof -
  let ?p = "attr_pos reg (sa_hdrsz sa) pre"
  have loc: "sa_attr_bytes sa reg layouts (lit ''ZPL_SIZE'') = Some (take (attr_size reg (sd_id d)) (drop ?p sa))"
    using assms sa_locate_fixed [of reg pre "sd_id d" "sa_hdrsz sa" sa "sa_hdrsz sa" post 0]
    by (simp add: sa_attr_bytes_def)
  have "ka_size (known_of reg) = Some (sd_id d)" using assms(3) by (simp add: known_of_def Let_def)
  from decode_sa_size [OF assms(1,2,4) _ this assms(6-9), of e]
  have "map_option za_size (decode_sa_bonus sa reg layouts e) = Some (rd_u64 (reader_new e) sa ?p)"
    using assms(5) by simp
  moreover have "rd_u64 (reader_new e) sa ?p = dec_bytes e (take 8 (drop ?p sa))"
    using assms(7,8) rd64.in_range [of ?p sa "reader_new e"] by simp
  ultimately show ?thesis using loc assms(7) by (simp add: min_absorb1)
qed

definition sample_registry :: sa_registry where
  "sample_registry = \<lparr>sr_by_name =
     [(lit ''ZPL_MODE'', \<lparr>sd_id = 5, sd_size = 8, sd_bswap = 0\<rparr>),
      (lit ''ZPL_SIZE'', \<lparr>sd_id = 6, sd_size = 8, sd_bswap = 0\<rparr>),
      (lit ''ZPL_XATTR'', \<lparr>sd_id = 14, sd_size = 8, sd_bswap = 0\<rparr>),
      (lit ''ZPL_DXATTR'', \<lparr>sd_id = 19, sd_size = 0, sd_bswap = 3\<rparr>)]\<rparr>"

definition sample_layouts :: sa_layouts where
  "sample_layouts = \<lparr>sl_by_num = [(2, [5, 6]), (3, [5, 6, 19]), (4, [5, 6, 14])]\<rparr>"

text \<open>Layout 2, a 16-byte header, mode 33188 and size 12.\<close>

definition sample_sa :: bytes where
  "sample_sa = to_le_bytes 4 SA_MAGIC @ to_le_bytes 2 (0x802 :: u16) @ replicate 10 0 @ to_le_bytes 8 (33188 :: u64) @ to_le_bytes 8 (12 :: u64)"

lemma sample_sa_header:
  "le_u32 sample_sa 0 = SA_MAGIC" "sa_layout_num sample_sa = 2" "sa_hdrsz sample_sa = 16"
proof -
  have "le_u16 sample_sa 4 = 0x802"
    unfolding sample_sa_def by (rule le16.read_enc_at') simp
  then show "sa_layout_num sample_sa = 2" "sa_hdrsz sample_sa = 16"
    by (simp_all add: sa_layout_num_def sa_hdrsz_def)
  show "le_u32 sample_sa 0 = SA_MAGIC" by (simp add: sample_sa_def le32.read_enc)
qed

lemma sa_walks_agree_witness:
  "sa_attr_bytes sample_sa sample_registry sample_layouts (lit ''ZPL_SIZE'') = Some (to_le_bytes 8 (12 :: u64)) \<and>
   map_option za_size (decode_sa_bonus sample_sa sample_registry sample_layouts Little) = Some 12"
proof -
  let ?d = "\<lparr>sd_id = 6, sd_size = 8, sd_bswap = 0\<rparr>"
  have "sl_attr_ids sample_layouts 2 = Some ([5] @ sd_id ?d # [])"
    by (simp add: sl_attr_ids_def sample_layouts_def find_name_def)
  moreover have "sr_lookup sample_registry (lit ''ZPL_SIZE'') = Some ?d"
    by (simp add: sr_lookup_def sample_registry_def find_name_def lit_def)
  moreover have "fixed_ids sample_registry ([5] @ [sd_id ?d])" "ka_mode (known_of sample_registry) \<noteq> Some (sd_id ?d)"
    "attr_pos sample_registry 16 [5] = 24" "attr_size sample_registry (sd_id ?d) = 8" "attr_size sample_registry 6 = 8"
    by (simp_all add: sample_registry_def fixed_ids_def attr_pos_def attr_size_def sr_size_of_def known_of_def
      sr_lookup_def find_name_def lit_def)
  ultimately show ?thesis
    using sa_walks_agree [of sample_sa sample_layouts "[5]" ?d "[]" sample_registry Little] sample_sa_header
    by (simp add: sample_sa_def usize_max_def dec_bytes_def le64.dec_enc)
qed

text \<open>
  C36. The attribute tables survive their on-disk form: a REGISTRY micro-ZAP yields the registered
  descriptors, and a LAYOUTS fat-ZAP with decimal names and big-endian id arrays yields the
  numbered layouts, in order.
\<close>

theorem sa_tables_round_trip:
  assumes "length mhdr = 56" and "list_all (\<lambda>r. wf_slot (sa_reg_slot r) \<and> fst r \<noteq> []) regs"
    and "wf_fat s hdr leaves" and "concat (map zl_entries leaves) = map sa_layout_entry lays"
  shows "parse_sa_registry (micro_encode mhdr (map sa_reg_slot regs)) = \<lparr>sr_by_name = regs\<rparr> \<and>
    parse_sa_layouts (fat_encode hdr leaves) = \<lparr>sl_by_num = lays\<rparr>"
proof
  have "filter (\<lambda>s. fst s \<noteq> []) (map sa_reg_slot regs) = map sa_reg_slot regs"
    using assms(2) by (induction regs) (auto simp: sa_reg_slot_def)
  moreover have "list_all wf_slot (map sa_reg_slot regs)" using assms(2) by (auto simp: list_all_iff)
  ultimately show "parse_sa_registry (micro_encode mhdr (map sa_reg_slot regs)) = \<lparr>sr_by_name = regs\<rparr>"
    using zap_list_micro [OF assms(1), of "map sa_reg_slot regs"]
    by (simp add: parse_sa_registry_def comp_def sa_reg_slot_def sa_desc_of_value)
  have "zap_list_arrays (fat_encode hdr leaves) = map (\<lambda>e. (fst e, snd (snd e))) (concat (map zl_entries leaves))"
    using fat_list_arrays_encode [OF assms(3)] le_u64_fat_encode [OF assms(3)] zbt_neq [symmetric]
    by (simp add: zap_list_arrays_def map_concat comp_def)
  then show "parse_sa_layouts (fat_encode hdr leaves) = \<lparr>sl_by_num = lays\<rparr>"
    unfolding parse_sa_layouts_def zap_list_arrays_to_layouts_def assms(4) by (simp only: layouts_of_entries)
qed

definition sample_layout_leaf :: zap_leaf where
  "sample_layout_leaf = \<lparr>zl_head = replicate 16 0, zl_mid = replicate 20 0, zl_hash = replicate 32 0,
     zl_entries = map sa_layout_entry (sl_by_num sample_layouts), zl_free = 9, zl_tail = []\<rparr>"

lemma sample_layout_entries:
  "map sa_layout_entry (sl_by_num sample_layouts) =
     [([50], 2, [0, 5, 0, 6]), ([51], 2, [0, 5, 0, 6, 0, 19]), ([52], 2, [0, 5, 0, 6, 0, 14])]"
  by (simp add: sample_layouts_def sa_layout_entry_def dec_digits.simps to_be_bytes_def to_le_bytes_def upt_rec)

lemma wf_sample_layout_fat: "wf_fat 9 sample_fat_header [sample_layout_leaf]"
proof -
  have "length (leaf_encode sample_layout_leaf) = 512"
    using length_concat_24 [OF entry_chunks_24, of 0 "([50], 2, [0, 5, 0, 6])"]
      length_concat_24 [OF entry_chunks_24, of "Suc (Suc (Suc 0))" "([51], 2, [0, 5, 0, 6, 0, 19])"]
      length_concat_24 [OF entry_chunks_24, of "Suc (Suc (Suc (Suc (Suc (Suc 0)))))" "([52], 2, [0, 5, 0, 6, 0, 14])"]
      length_concat_24 [of "replicate 9 free_chunk"]
    by (simp add: leaf_encode_def sample_layout_leaf_def sample_layout_entries length_entry_chunks entry_size_def npieces_def
      length_free_chunk list_all_length)
  moreover have "wf_entry ([50], 2, [0, 5, 0, 6])" "wf_entry ([51], 2, [0, 5, 0, 6, 0, 19])" "wf_entry ([52], 2, [0, 5, 0, 6, 0, 14])"
    by (auto simp: wf_entry_def valid_utf8_ascii intro: exI [of _ 2] exI [of _ 3])
  ultimately have "wf_leaf 9 sample_layout_leaf" by (simp add: wf_leaf_def sample_layout_leaf_def sample_layout_entries)
  then show ?thesis
    using le64.read_enc [of ZBT_HEADER "replicate 504 0"]
    by (simp add: wf_fat_def sample_fat_header_def)
qed

lemma sa_tables_round_trip_witness:
  "parse_sa_registry (micro_encode (replicate 56 0) (map sa_reg_slot (sr_by_name sample_registry))) = sample_registry \<and>
   parse_sa_layouts (fat_encode sample_fat_header [sample_layout_leaf]) = sample_layouts"
proof -
  have "list_all (\<lambda>r. wf_slot (sa_reg_slot r) \<and> fst r \<noteq> []) (sr_by_name sample_registry)"
    by (simp add: sample_registry_def sa_reg_slot_def wf_slot_def lit_def valid_utf8_ascii)
  then show ?thesis
    using sa_tables_round_trip [of "replicate 56 0" "sr_by_name sample_registry" 9 sample_fat_header "[sample_layout_leaf]" "sl_by_num sample_layouts"]
      wf_sample_layout_fat
    by (simp add: sample_layout_leaf_def)
qed

end
