(* ===== verification/Zfs_Zpl.thy ===== *)
theory Zfs_Zpl
  imports Zfs_Sa
begin

section \<open>The ZFS POSIX layer (core/src/zpl.rs)\<close>

text \<open>
  The walk from the MOS to a dataset's objset, its master node and directories, the attribute
  context, file content and path lookup. The lemmas give the content of a file as the flat
  sequence of its leaves and the laws of path lookup.
\<close>

definition ZPL_MASTER_NODE_OBJ :: u64 where "ZPL_MASTER_NODE_OBJ = 1"
definition ZPL_ROOT_NAME :: rstr where "ZPL_ROOT_NAME = lit ''ROOT''"
definition ZPL_SA_ATTRS_NAME :: rstr where "ZPL_SA_ATTRS_NAME = lit ''SA_ATTRS''"
definition SA_REGISTRY_NAME :: rstr where "SA_REGISTRY_NAME = lit ''REGISTRY''"
definition SA_LAYOUTS_NAME :: rstr where "SA_LAYOUTS_NAME = lit ''LAYOUTS''"
definition DMU_OT_SA :: u8 where "DMU_OT_SA = 44"
definition DMU_OT_ZNODE :: u8 where "DMU_OT_ZNODE = 17"
definition ZPL_DIRENT_OBJ_MASK :: u64 where "ZPL_DIRENT_OBJ_MASK = 0x0000ffffffffffff"

definition zpl_objset :: "ext \<Rightarrow> bytes \<Rightarrow> objset \<Rightarrow> objset option" where
  "zpl_objset x img mos = do {
     objdir \<leftarrow> mos_dnode x img mos 1;
     objdir_data \<leftarrow> res_ok (read_zap_object x img objdir);
     root_dataset \<leftarrow> zap_lookup objdir_data (lit ''root_dataset'');
     dsl_dir \<leftarrow> mos_dnode x img mos root_dataset;
     (let head = dsl_dir_head_dataset dsl_dir in
      if head = 0 then None
      else do {
        dataset \<leftarrow> mos_dnode x img mos head;
        blk \<leftarrow> res_ok (read_block x img (dsl_dataset_bp dataset));
        res_ok (objset_parse (blk_data blk) (os_endian mos))
      })
   }"

definition zpl_master_root :: "ext \<Rightarrow> bytes \<Rightarrow> objset \<Rightarrow> u64 option" where
  "zpl_master_root x img zpl = do {
     master \<leftarrow> mos_dnode x img zpl ZPL_MASTER_NODE_OBJ;
     data \<leftarrow> res_ok (read_zap_object x img master);
     zap_lookup data ZPL_ROOT_NAME
   }"

definition zpl_root_dir :: "ext \<Rightarrow> bytes \<Rightarrow> objset \<Rightarrow> dnode option" where
  "zpl_root_dir x img zpl = do {
     root_id \<leftarrow> zpl_master_root x img zpl;
     mos_dnode x img zpl root_id
   }"

definition zpl_list_dir :: "ext \<Rightarrow> bytes \<Rightarrow> objset \<Rightarrow> u64 \<Rightarrow> (rstr \<times> u64) list" where
  "zpl_list_dir x img zpl dir_obj_id =
     (case mos_dnode x img zpl dir_obj_id of
        None \<Rightarrow> []
      | Some dir \<Rightarrow>
          (case read_zap_object x img dir of
             Inl _ \<Rightarrow> []
           | Inr data \<Rightarrow> map (\<lambda>(name, val). (name, val AND ZPL_DIRENT_OBJ_MASK)) (zap_list data)))"

definition zpl_sa_context :: "ext \<Rightarrow> bytes \<Rightarrow> objset \<Rightarrow> (sa_registry \<times> sa_layouts) option" where
  "zpl_sa_context x img zpl = do {
     master \<leftarrow> mos_dnode x img zpl ZPL_MASTER_NODE_OBJ;
     master_data \<leftarrow> res_ok (read_zap_object x img master);
     sa_master_obj \<leftarrow> zap_lookup master_data ZPL_SA_ATTRS_NAME;
     sa_master \<leftarrow> mos_dnode x img zpl sa_master_obj;
     sa_master_data \<leftarrow> res_ok (read_zap_object x img sa_master);
     registry_obj \<leftarrow> zap_lookup sa_master_data SA_REGISTRY_NAME;
     layouts_obj \<leftarrow> zap_lookup sa_master_data SA_LAYOUTS_NAME;
     registry_dnode \<leftarrow> mos_dnode x img zpl registry_obj;
     registry_data \<leftarrow> res_ok (read_zap_object x img registry_dnode);
     layouts_dnode \<leftarrow> mos_dnode x img zpl layouts_obj;
     layouts_data \<leftarrow> res_ok (read_zap_object x img layouts_dnode);
     Some (parse_sa_registry registry_data, parse_sa_layouts layouts_data)
   }"

definition zpl_attrs :: "ext \<Rightarrow> bytes \<Rightarrow> objset \<Rightarrow> sa_registry \<Rightarrow> sa_layouts \<Rightarrow> u64 \<Rightarrow> zpl_attrs_rec option" where
  "zpl_attrs x img zpl reg layouts object_id = do {
     dn \<leftarrow> mos_dnode x img zpl object_id;
     (if dn_bonustype dn = DMU_OT_SA then decode_sa_bonus (dn_bonus dn) reg layouts (dn_endian dn)
      else if dn_bonustype dn = DMU_OT_ZNODE then decode_znode_phys (dn_bonus dn) (dn_endian dn)
      else None)
   }"

subsection \<open>File content\<close>

definition MAX_FILE_BYTES :: usize where "MAX_FILE_BYTES = 512 * 1024 * 1024"

definition file_nblocks :: "dnode \<Rightarrow> usize" where
  "file_nblocks dn =
     (let max_blocks = max (MAX_FILE_BYTES div data_block_size dn) 1
      in min (sat_add (unat (dn_maxblkid dn)) 1) max_blocks)"

definition zpl_read_file_with :: "ext \<Rightarrow> bytes \<Rightarrow> objset \<Rightarrow> u64 \<Rightarrow> u64 option \<Rightarrow> zfs_error + bytes" where
  "zpl_read_file_with x img zpl object_id vsize =
     rbind (ok_or (mos_dnode x img zpl object_id) (Truncated ''zpl file object (absent or empty slot)'' 1 0)) (\<lambda>dn.
       if data_block_size dn = 0 then Inl (Truncated ''zpl file object (zero block size)'' 1 0)
       else rbind (concat_blocks (read_dnode_data x img dn) [0..<file_nblocks dn] []) (\<lambda>out.
         Inr (case vsize of None \<Rightarrow> out | Some sz \<Rightarrow> take (min (unat sz) (length out)) out)))"

definition zpl_read_file :: "ext \<Rightarrow> bytes \<Rightarrow> objset \<Rightarrow> u64 \<Rightarrow> zfs_error + bytes" where
  "zpl_read_file x img zpl object_id =
     (let vsize = map_option za_size (do {
            (reg, layouts) \<leftarrow> zpl_sa_context x img zpl;
            zpl_attrs x img zpl reg layouts object_id })
      in zpl_read_file_with x img zpl object_id vsize)"

subsection \<open>Paths\<close>

definition path_components :: "rstr \<Rightarrow> rstr list" where
  "path_components path = filter (\<lambda>c. c \<noteq> []) (split_on 47 path)"

text \<open>The component loop of \<^verbatim>\<open>zpl_lookup\<close>.\<close>

fun zpl_descend :: "ext \<Rightarrow> bytes \<Rightarrow> objset \<Rightarrow> u64 \<Rightarrow> rstr list \<Rightarrow> u64 option" where
  "zpl_descend x img zpl current [] = Some current"
| "zpl_descend x img zpl current (component # rest) =
     (case find_name component (zpl_list_dir x img zpl current) of
        None \<Rightarrow> None
      | Some obj \<Rightarrow> zpl_descend x img zpl obj rest)"

definition zpl_lookup :: "ext \<Rightarrow> bytes \<Rightarrow> objset \<Rightarrow> rstr \<Rightarrow> (u64 \<times> zpl_attrs_rec) option" where
  "zpl_lookup x img zpl path = do {
     root_id \<leftarrow> zpl_master_root x img zpl;
     (reg, layouts) \<leftarrow> zpl_sa_context x img zpl;
     current \<leftarrow> zpl_descend x img zpl root_id (path_components path);
     attrs \<leftarrow> zpl_attrs x img zpl reg layouts current;
     Some (current, attrs)
   }"

definition zpl_read_path :: "ext \<Rightarrow> bytes \<Rightarrow> objset \<Rightarrow> rstr \<Rightarrow> zfs_error + bytes" where
  "zpl_read_path x img zpl path =
     rbind (ok_or (zpl_lookup x img zpl path) (Truncated ''zpl path (not found)'' 1 0)) (\<lambda>(object_id, attrs).
       zpl_read_file_with x img zpl object_id (Some (za_size attrs)))"

subsection \<open>Content and path lemmas\<close>

lemma file_nblocks_min:
  "file_nblocks dn = min (unat (dn_maxblkid dn) + 1) (max (MAX_FILE_BYTES div data_block_size dn) 1)"
proof -
  have "unat (dn_maxblkid dn) < 2 ^ LENGTH(64)" by (rule unsigned_less)
  moreover obtain q where q: "MAX_FILE_BYTES div data_block_size dn = q" "q \<le> MAX_FILE_BYTES" by simp
  ultimately show ?thesis
    unfolding file_nblocks_def q(1) by (auto simp: Let_def sat_add_def usize_max_def MAX_FILE_BYTES_def min_def max_def)
qed

lemma file_blocks_take:
  assumes "object_tree x img dn tops" and "unat (dn_maxblkid dn) + 1 \<le> length (concat tops)"
  shows "concat_blocks (read_dnode_data x img dn) [0..<file_nblocks dn] [] =
    Inr (concat (take (min (unat (dn_maxblkid dn) + 1) (max (MAX_FILE_BYTES div data_block_size dn) 1)) (concat tops)))"
  using read_blocks_concat [OF assms(1), of "file_nblocks dn"] assms(2) unfolding file_nblocks_min by simp

lemma path_components_append: "path_components (p @ 47 # q) = path_components p @ path_components q"
  by (simp add: path_components_def split_on_append)

lemma path_components_root [simp]: "path_components [] = []" "path_components [47] = []"
  by (simp_all add: path_components_def)

lemma path_components_name: "47 \<notin> set n \<Longrightarrow> n \<noteq> [] \<Longrightarrow> path_components n = [n]"
  by (simp add: path_components_def split_on_no_sep)

lemma zpl_descend_append:
  "zpl_descend x img zpl cur (p @ q) =
     (case zpl_descend x img zpl cur p of None \<Rightarrow> None | Some o1 \<Rightarrow> zpl_descend x img zpl o1 q)"
  by (induction p arbitrary: cur) (auto split: option.splits)

text \<open>The absolute path of a list of names.\<close>

definition path_of :: "rstr list \<Rightarrow> rstr" where
  "path_of ns = concat (map (\<lambda>n. 47 # n) ns)"

definition plain_names :: "rstr list \<Rightarrow> bool" where
  "plain_names ns = list_all (\<lambda>n. n \<noteq> [] \<and> 47 \<notin> set n) ns"

lemma path_components_path_of: "plain_names ns \<Longrightarrow> path_components (path_of ns) = ns"
proof (induction ns rule: rev_induct)
  case (snoc n ns)
  then have "path_components (path_of (ns @ [n])) = path_components (path_of ns @ 47 # n)"
    by (simp add: path_of_def)
  with snoc show ?case by (simp add: plain_names_def path_components_append path_components_name)
qed (simp add: path_of_def)

subsection \<open>Properties\<close>

text \<open>
  C17. The content of a file is the flat sequence of the leaves of its block tree up to the last block
  the dnode declares, cut first at the 512 MiB cap (never below one block) and then at the logical
  size; without a size whole blocks are returned.
\<close>

theorem zpl_read_file_content:
  assumes "mos_dnode x img zpl k = Some dn" and "0 < data_block_size dn"
    and "object_tree x img dn tops" and "unat (dn_maxblkid dn) + 1 \<le> length (concat tops)"
  defines "content \<equiv> concat (take (min (unat (dn_maxblkid dn) + 1) (max (MAX_FILE_BYTES div data_block_size dn) 1)) (concat tops))"
  shows "zpl_read_file_with x img zpl k None = Inr content \<and>
    zpl_read_file_with x img zpl k (Some sz) = Inr (take (unat sz) content)"
  using assms file_blocks_take [OF assms(3,4)]
  by (simp add: zpl_read_file_with_def min_def)

text \<open>
  Path lookup is compositional: looking up \<open>p/q\<close> is walking to \<open>p\<close> from the root and on from
  there along \<open>q\<close>, so repeated, leading and trailing slashes change nothing, and the empty path is
  the root.
\<close>

lemma zpl_lookup_compositional:
  "zpl_lookup x img zpl (p @ 47 # q) = do {
     root \<leftarrow> zpl_master_root x img zpl;
     (reg, layouts) \<leftarrow> zpl_sa_context x img zpl;
     mid \<leftarrow> zpl_descend x img zpl root (path_components p);
     obj \<leftarrow> zpl_descend x img zpl mid (path_components q);
     attrs \<leftarrow> zpl_attrs x img zpl reg layouts obj;
     Some (obj, attrs) } \<and>
   zpl_lookup x img zpl (47 # p) = zpl_lookup x img zpl p \<and> zpl_lookup x img zpl (p @ [47]) = zpl_lookup x img zpl p \<and>
   zpl_lookup x img zpl (p @ 47 # 47 # q) = zpl_lookup x img zpl (p @ 47 # q)"
proof -
  have "path_components (47 # p) = path_components p"
    using path_components_append [of "[]" p] by simp
  moreover have "path_components (p @ [47]) = path_components p"
    using path_components_append [of p "[]"] by simp
  moreover have "path_components (47 # q) = path_components q"
    using path_components_append [of "[]" q] by simp
  ultimately show ?thesis
    by (auto simp: zpl_lookup_def path_components_append zpl_descend_append split: option.splits prod.splits
      intro!: bind_option_cong [OF refl])
qed

text \<open>
  C26. Whatever the image and the object set, reading a file by object or by path either succeeds or
  reports a truncated range, an index out of range or a codec's error; the allocation and nesting
  guards never surface.
\<close>

theorem zpl_read_file_errors:
  "zpl_read_file_with x img zpl k vsize = Inl err \<or> zpl_read_file x img zpl k = Inl err \<or>
     zpl_read_path x img zpl path = Inl err \<Longrightarrow> walk_error err"
proof -
  have "walk_error err" if "zpl_read_file_with x img zpl k vsize = Inl err" for k vsize
    using that mos_dnode_parsed read_dnode_data_error
    by (fastforce simp: zpl_read_file_with_def res_simps ok_or_def
      dest!: concat_blocks_error split: if_splits option.splits)
  then show "zpl_read_file_with x img zpl k vsize = Inl err \<or> zpl_read_file x img zpl k = Inl err \<or>
      zpl_read_path x img zpl path = Inl err \<Longrightarrow> ?thesis"
    by (auto simp: zpl_read_file_def zpl_read_path_def Let_def res_simps ok_or_def split: option.splits prod.splits)
qed

text \<open>An object that declares no level of blocks: its dnode is found, its first block is not.\<close>

lemma zpl_read_file_errors_witness:
  "zpl_read_file_with no_codecs [] (one_object [19, 14, 0, 1, 0, 0, 0, 0, 1]) 0 None = Inl (OutOfRange ''dn_nlevels'' 0 8) \<and>
   walk_error (OutOfRange ''dn_nlevels'' 0 8)"
proof -
  let ?p = "[19, 14, 0, 1, 0, 0, 0, 0, 1] :: bytes"
  obtain dn where dn: "dnode_parse (?p @ replicate (512 - length ?p) 0) Little = Some dn"
      and m: "mos_dnode no_codecs [] (one_object ?p) 0 = Some dn"
    by (rule one_object_exists [of ?p]) simp_all
  have "dn_nlevels dn = 0" using dn by (auto simp: dnode_parse_def Let_def u8_at_in split: if_splits)
  then have block: "read_dnode_data no_codecs [] dn 0 = Inl (OutOfRange ''dn_nlevels'' 0 8)"
    by (simp add: read_dnode_data_def MAX_INDIRECT_LEVELS_def)
  have "?p @ replicate (512 - length ?p) 0 = [19, 14, 0, 1, 0, 0, 0, 0] @ enc_bytes Little 2 (1 :: u16) @ replicate 502 0"
    using replicate_Suc [of 502 "0 :: u8"] by (simp add: enc_bytes_def to_le_bytes_def upt_rec)
  then have "dn_datablkszsec dn = 1"
    using dn rd16.read_enc_at' [of 8 "[19, 14, 0, 1, 0, 0, 0, 0]" "reader_new Little" 1 "replicate 502 0"]
    by (auto simp: dnode_parse_def Let_def split: if_splits)
  then have "data_block_size dn = 512" by (simp add: data_block_size_def)
  moreover have "[0..<file_nblocks dn] = 0 # [1..<file_nblocks dn]"
    using upt_conv_Cons [of 0 "file_nblocks dn"] by (simp add: file_nblocks_min)
  ultimately have "zpl_read_file_with no_codecs [] (one_object ?p) 0 None = Inl (OutOfRange ''dn_nlevels'' 0 8)"
    using m block by (simp add: zpl_read_file_with_def res_simps ok_or_def)
  then show ?thesis using zpl_read_file_errors by blast
qed

end
