(* ===== verification/Zfs_Mkfs.thy ===== *)
theory Zfs_Mkfs
  imports Zfs_Zpl
begin

section \<open>A reference formatter\<close>

text \<open>
  A writer for the structures the reader decodes: an object set of one-block objects on an
  uncompressed single-vdev image, and on it a file system (master node, attribute registry and
  layouts, directories, files). The reader is proved to read such an image back. The formatter is
  specification, not a model of code in the repository.
\<close>

subsection \<open>Blocks and objects\<close>

text \<open>An uncompressed block of \<open>n\<close> sectors at sector \<open>k\<close> of the first vdev, without a checksum.\<close>

definition sector_ptr :: "nat \<Rightarrow> nat \<Rightarrow> blkptr" where
  "sector_ptr k n = blkptr_default\<lparr>bp_lsize_raw := of_nat (n - 1), bp_psize_raw := of_nat (n - 1),
     bp_compression := 2, bp_byteorder := Little, bp_dvas :=
     [dva_default\<lparr>dva_asize_sectors := of_nat n, dva_offset_sectors := of_nat k\<rparr>, dva_default, dva_default]\<rparr>"

lemma unat_small32: "n \<le> 65536 \<Longrightarrow> unat (of_nat n :: u32) = n"
  by (simp add: unat_of_nat)

lemma wf_sector_ptr: "0 < n \<Longrightarrow> n \<le> 65536 \<Longrightarrow> k < 2 ^ 50 \<Longrightarrow> wf_blkptr (sector_ptr k n)"
  using unat_small32 [of "n - 1"] unat_small32 [of n]
  by (simp add: sector_ptr_def wf_blkptr_def blkptr_default_def wf_dva_def dva_default_def unat_of_nat)

lemma sector_ptr_not_hole: "0 < n \<Longrightarrow> n \<le> 65536 \<Longrightarrow> \<not> is_hole (sector_ptr k n)"
  using unat_small32 [of n] by (auto simp: is_hole_def sector_ptr_def dva_is_empty_def)

text \<open>The bytes at a sector: sector 0 lies behind the labels and boot block.\<close>

definition sector_at :: "bytes \<Rightarrow> nat \<Rightarrow> bytes \<Rightarrow> bool" where
  "sector_at img k data = bytes_at img (0x400000 + 512 * k) data"

lemma sector_at_append:
  "length xs = 512 * n \<Longrightarrow> sector_at img k (xs @ ys) \<longleftrightarrow> sector_at img k xs \<and> sector_at img (k + n) ys"
  by (simp add: sector_at_def bytes_at_append algebra_simps)

lemma sector_at_image:
  assumes "length skew = 0x400000" and "length pre = 512 * k"
  shows "sector_at (skew @ pre @ data @ post) k data"
proof -
  have "bytes_at (skew @ pre @ data @ post) 0 (skew @ pre @ data @ post)"
    using bytes_at_0 [of "skew @ pre @ data @ post" "[]"] by simp
  then show ?thesis using assms by (simp add: bytes_at_append sector_at_def)
qed

lemma sector_ptr_sizes:
  assumes "0 < n" and "n \<le> 65535"
  shows "lsize_bytes (sector_ptr k n) = 512 * n" "psize_bytes (sector_ptr k n) = 512 * n"
proof -
  obtain m where m: "n = Suc m" using assms(1) by (cases n) auto
  have "unat (of_nat m :: u32) = m" using assms(2) m by (intro unat_small32) simp
  then show "lsize_bytes (sector_ptr k n) = 512 * n" "psize_bytes (sector_ptr k n) = 512 * n"
    using assms(2) by (simp_all add: lsize_bytes_def psize_bytes_def sector_ptr_def blkptr_default_def m sat_add_def usize_max_def)
qed

lemma sector_ptr_offset:
  "k < 2 ^ 40 \<Longrightarrow> unat (physical_byte_offset (bp_dvas (sector_ptr k n) ! 0)) = 0x400000 + 512 * k"
  by (simp add: unat_physical_byte_offset sector_ptr_def unat_of_nat)

lemma read_sector_ptr:
  assumes "0 < n" "n \<le> 65535" "k < 2 ^ 40" and "sector_at img k data" and "length data = 512 * n"
  shows "read_block x img (sector_ptr k n) = Inr \<lparr>blk_data = data, blk_checksum_valid = None, blk_dva_used = 0\<rparr>"
proof -
  note size = sector_ptr_sizes [OF assms(1,2), of k] and off = sector_ptr_offset [OF assms(3), of n]
  have s: "sat_add (0x400000 + 512 * k) (512 * n) = 0x400000 + 512 * k + 512 * n"
    using assms(2,3) by (simp add: sat_add_def usize_max_def)
  have "slice_get img (0x400000 + 512 * k) (0x400000 + 512 * k + 512 * n) = Some data"
    using bytes_at_slice [OF assms(4) [unfolded sector_at_def]] assms(5) by simp
  then have raw: "copy_bytes img (sector_ptr k n) (bp_dvas (sector_ptr k n) ! 0) = Some data"
    using assms(1,2) unat_small32 [of n] unfolding copy_bytes_def off size s
    by (auto simp: dva_is_empty_def sector_ptr_def)
  have comp: "compress_from_raw (bp_compression (sector_ptr k n)) = CzOff" "checksum_from_raw (bp_checksum (sector_ptr k n)) = CkInherit"
    by (simp_all add: sector_ptr_def blkptr_default_def compress_from_raw_def checksum_from_raw_def)
  have "copy_block x img (sector_ptr k n) 0 (bp_dvas (sector_ptr k n) ! 0) =
      Some \<lparr>blk_data = data, blk_checksum_valid = None, blk_dva_used = 0\<rparr>"
    using assms(5) unfolding copy_block_def raw comp size
    by (simp add: decompress_def decompress_off_def Let_def verify_def)
  moreover have "on_disk (sector_ptr k n)"
    using assms(1,2) sector_ptr_not_hole [of n k] size
    by (simp add: on_disk_def sector_ptr_def blkptr_default_def MAX_BLOCK_SIZE_def)
  moreover obtain d ds where "bp_dvas (sector_ptr k n) = d # ds" by (simp add: sector_ptr_def)
  ultimately show ?thesis by (simp only: read_block_on_disk read_dvas_Inr_iff) simp
qed

record raw_obj =
  ro_type :: u8
  ro_bonustype :: u8
  ro_bonus :: bytes
  ro_data :: bytes

definition ro_sectors :: "raw_obj \<Rightarrow> nat" where
  "ro_sectors ob = length (ro_data ob) div 512"

definition wf_obj :: "raw_obj \<Rightarrow> bool" where
  "wf_obj ob \<longleftrightarrow> ro_type ob \<noteq> 0 \<and> length (ro_bonus ob) \<le> 320 \<and>
     length (ro_data ob) = 512 * ro_sectors ob \<and> 0 < ro_sectors ob \<and> ro_sectors ob \<le> 65535"

text \<open>The dnode of an object whose data lies at sector \<open>k\<close>, and its slot.\<close>

definition obj_record :: "nat \<Rightarrow> raw_obj \<Rightarrow> dnode" where
  "obj_record k ob = \<lparr>dn_type = ro_type ob, dn_indblkshift = 14, dn_nlevels = 1, dn_nblkptr = 1, dn_bonustype = ro_bonustype ob,
     dn_checksum = 0, dn_compress = 0, dn_flags = 0, dn_datablkszsec = of_nat (ro_sectors ob),
     dn_bonuslen = of_nat (length (ro_bonus ob)), dn_extra_slots = 0, dn_maxblkid = 0, dn_used = 0, dn_endian = Little,
     dn_blkptrs = [sector_ptr k (ro_sectors ob)], dn_bonus = ro_bonus ob\<rparr>"

definition obj_slot :: "nat \<Rightarrow> raw_obj \<Rightarrow> bytes" where
  "obj_slot k ob = dnode_encode [[0, 0, 0]] (obj_record k ob) (replicate (320 - length (ro_bonus ob)) 0)"

lemma wf_obj_record:
  assumes "wf_obj ob" and "k < 2 ^ 40"
  shows "wf_dnode (obj_record k ob)" "wf_pads [[0, 0, 0]] (obj_record k ob)"
  using assms wf_sector_ptr [of "ro_sectors ob" k]
  by (simp_all add: obj_record_def wf_dnode_def wf_pads_def wf_obj_def unat_of_nat)

lemma length_obj_slot: "wf_obj ob \<Longrightarrow> k < 2 ^ 40 \<Longrightarrow> length (obj_slot k ob) = 512"
  using length_dnode_encode [OF wf_obj_record] by (simp add: obj_slot_def) (simp add: obj_record_def wf_obj_def)

text \<open>What the slot of an object decodes to, its data at sector \<open>k\<close>.\<close>

definition obj_dnode :: "nat \<Rightarrow> raw_obj \<Rightarrow> dnode \<Rightarrow> bool" where
  "obj_dnode k ob dn \<longleftrightarrow> dn_type dn = ro_type ob \<and> dn_nlevels dn = 1 \<and> dn_bonustype dn = ro_bonustype ob \<and>
     unat (dn_datablkszsec dn) = ro_sectors ob \<and> dn_maxblkid dn = 0 \<and> dn_endian dn = Little \<and>
     dn_flags dn = 0 \<and> dn_blkptrs dn = [sector_ptr k (ro_sectors ob)] \<and> dn_bonus dn = ro_bonus ob"

lemma obj_record_dnode: "wf_obj ob \<Longrightarrow> obj_dnode k ob (obj_record k ob)"
  by (simp add: obj_dnode_def obj_record_def wf_obj_def unat_of_nat)

lemma obj_slot_parse_ext:
  assumes "wf_obj ob" and "k < 2 ^ 40"
  shows "\<exists>dn. dnode_parse (obj_slot k ob @ post) Little = Some dn \<and> obj_dnode k ob dn"
proof -
  have "dn_endian (obj_record k ob) = Little" by (simp add: obj_record_def)
  then show ?thesis
    using dnode_parse_encode [OF wf_obj_record [OF assms]] obj_record_dnode [OF assms(1)]
    by (auto simp: obj_slot_def dnode_encode_append)
qed

lemma obj_slot_parse:
  "wf_obj ob \<Longrightarrow> k < 2 ^ 40 \<Longrightarrow> \<exists>dn. dnode_parse (obj_slot k ob) Little = Some dn \<and> obj_dnode k ob dn"
  using obj_slot_parse_ext [of ob k "[]"] by simp

fun obj_slots :: "nat \<Rightarrow> raw_obj list \<Rightarrow> bytes list" where
  "obj_slots k [] = []"
| "obj_slots k (ob # obs) = obj_slot k ob # obj_slots (k + ro_sectors ob) obs"

definition obj_start :: "nat \<Rightarrow> raw_obj list \<Rightarrow> nat \<Rightarrow> nat" where
  "obj_start b obs i = b + Suc (length obs) + sum_list (map ro_sectors (take i obs))"

text \<open>
  Object \<open>i + 1\<close> is \<open>obs ! i\<close>; object 0 is unallocated. At sector \<open>b\<close> the object array is one
  block, the objects' data follow it in order.
\<close>

definition array_data :: "nat \<Rightarrow> raw_obj list \<Rightarrow> bytes" where
  "array_data b obs = replicate 512 0 @ concat (obj_slots (b + Suc (length obs)) obs)"

definition array_obj :: "nat \<Rightarrow> raw_obj list \<Rightarrow> raw_obj" where
  "array_obj b obs = \<lparr>ro_type = 10, ro_bonustype = 0, ro_bonus = [], ro_data = array_data b obs\<rparr>"

definition region :: "nat \<Rightarrow> raw_obj list \<Rightarrow> bytes" where
  "region b obs = array_data b obs @ concat (map ro_data obs)"

definition region_sectors :: "raw_obj list \<Rightarrow> nat" where
  "region_sectors obs = Suc (length obs) + sum_list (map ro_sectors obs)"

definition wf_objs :: "nat \<Rightarrow> raw_obj list \<Rightarrow> bool" where
  "wf_objs b obs \<longleftrightarrow> list_all wf_obj obs \<and> length obs < 65535 \<and> b + region_sectors obs < 2 ^ 40"

text \<open>The 1024-byte object-set block, and what it decodes to.\<close>

definition objset_bytes :: "nat \<Rightarrow> u64 \<Rightarrow> raw_obj list \<Rightarrow> bytes" where
  "objset_bytes b ost obs = obj_slot b (array_obj b obs) @ replicate 192 0 @ to_le_bytes 8 ost @ replicate 312 0"

definition objset_on :: "bytes \<Rightarrow> nat \<Rightarrow> raw_obj list \<Rightarrow> objset \<Rightarrow> bool" where
  "objset_on img b obs os \<longleftrightarrow> wf_objs b obs \<and> sector_at img b (region b obs) \<and> os_endian os = Little \<and>
     obj_dnode b (array_obj b obs) (meta_dnode os)"

lemma length_obj_slots [simp]: "length (obj_slots k obs) = length obs"
  by (induction obs arbitrary: k) simp_all

lemma nth_obj_slots: "i < length obs \<Longrightarrow> obj_slots k obs ! i = obj_slot (k + sum_list (map ro_sectors (take i obs))) (obs ! i)"
proof (induction obs arbitrary: k i)
  case (Cons ob obs)
  then show ?case by (cases i) (simp_all add: add.assoc)
qed simp

lemma obj_slots_512: "list_all wf_obj obs \<Longrightarrow> k + sum_list (map ro_sectors obs) < 2 ^ 40 \<Longrightarrow>
    list_all (\<lambda>s. length s = 512) (obj_slots k obs)"
  by (induction obs arbitrary: k) (auto simp: length_obj_slot)

lemma sum_sectors_take_le: "sum_list (map ro_sectors (take i obs)) \<le> sum_list (map ro_sectors obs)"
  using sum_list_append [of "map ro_sectors (take i obs)" "map ro_sectors (drop i obs)"]
  by (simp flip: map_append)

lemma length_data_concat: "list_all wf_obj obs \<Longrightarrow> length (concat (map ro_data obs)) = 512 * sum_list (map ro_sectors obs)"
  by (induction obs) (auto simp: wf_obj_def)

lemma one_block_tree:
  assumes "dn_nlevels dn = 1" and "dn_blkptrs dn = [bp]" and "read_block x img bp = Inr b"
  shows "object_tree x img dn [[blk_data b]]"
proof -
  have "tree_levels dn = 1" using assms(1) by (simp add: tree_levels_def MAX_INDIRECT_LEVELS_def min_def)
  then show ?thesis
    using assms block_tree.leaf [OF assms(3), of dn] by (simp add: object_tree_def shift_overflows_def)
qed

lemma length_array_data: "wf_objs b obs \<Longrightarrow> length (array_data b obs) = 512 * Suc (length obs)"
proof -
  assume "wf_objs b obs"
  then have "list_all (\<lambda>s. length s = 512) (obj_slots (b + Suc (length obs)) obs)"
    by (intro obj_slots_512) (simp_all add: wf_objs_def region_sectors_def)
  then show ?thesis by (simp add: array_data_def length_concat_const)
qed

lemma length_region: "wf_objs b obs \<Longrightarrow> length (region b obs) = 512 * region_sectors obs"
  by (simp add: region_def length_array_data length_data_concat region_sectors_def wf_objs_def)

lemma wf_array_obj: "wf_objs b obs \<Longrightarrow> wf_obj (array_obj b obs) \<and> ro_sectors (array_obj b obs) = Suc (length obs)"
  using length_array_data [of b obs] by (simp add: array_obj_def wf_obj_def ro_sectors_def wf_objs_def)

lemma length_objset_bytes: "wf_objs b obs \<Longrightarrow> length (objset_bytes b ost obs) = 1024"
  using wf_array_obj [of b obs] by (simp add: objset_bytes_def length_obj_slot wf_objs_def)

lemma objset_parse_bytes:
  assumes "wf_objs b obs" and "sector_at img b (region b obs)"
  shows "\<exists>os. objset_parse (objset_bytes b ost obs) Little = Inr os \<and> objset_on img b obs os \<and> os_type os = ost"
proof -
  let ?slot = "obj_slot b (array_obj b obs)" and ?raw = "objset_bytes b ost obs"
  have b: "b < 2 ^ 40" using assms(1) by (simp add: wf_objs_def)
  note wf = wf_array_obj [OF assms(1)]
  have len: "length ?slot = 512" using length_obj_slot [of "array_obj b obs" b] wf b by simp
  let ?bonus = "replicate 320 (0 :: u8)" and ?post = "replicate 192 0 @ to_le_bytes 8 ost @ replicate 312 (0 :: u8)"
  obtain dn where dn: "dnode_parse ?slot Little = Some dn" "obj_dnode b (array_obj b obs) dn"
    using obj_slot_parse [of "array_obj b obs" b] wf b by blast
  have ext: "\<exists>dn'. dnode_parse (?slot @ ?post) Little = Some dn' \<and> obj_dnode b (array_obj b obs) dn'"
    by (rule obj_slot_parse_ext) (use wf b in simp_all)
  have ty: "rd_u64 (reader_new Little) ?raw 704 = ost"
    using rd64.read_enc_at' [of 704 "?slot @ replicate 192 0" "reader_new Little" ost "replicate 312 0"] len
    by (simp add: objset_bytes_def enc_bytes_def)
  from ext obtain dn' where "dnode_parse ?raw Little = Some dn'" "obj_dnode b (array_obj b obs) dn'"
    by (auto simp: objset_bytes_def)
  then show ?thesis
    using ty assms length_objset_bytes [OF assms(1), of ost]
    by (auto simp: objset_parse_def Let_def OBJSET_MIN_SIZE_def OS_TYPE_OFFSET_def objset_on_def)
qed

text \<open>Where the data of object \<open>i\<close> lies.\<close>

lemma mkfs_data_at:
  assumes on: "objset_on img b obs os" and i: "i < length obs"
  shows "sector_at img (obj_start b obs i) (ro_data (obs ! i))" "obj_start b obs i < 2 ^ 40"
    "0 < ro_sectors (obs ! i)" "ro_sectors (obs ! i) \<le> 65535" "length (ro_data (obs ! i)) = 512 * ro_sectors (obs ! i)"
proof -
  let ?ob = "obs ! i" and ?k = "obj_start b obs i"
  have wf: "wf_objs b obs" and at: "sector_at img b (region b obs)" using on by (simp_all add: objset_on_def)
  have all: "list_all wf_obj obs" using wf by (simp add: wf_objs_def)
  then show ob: "0 < ro_sectors ?ob" "ro_sectors ?ob \<le> 65535" "length (ro_data ?ob) = 512 * ro_sectors ?ob"
    using i by (auto simp: list_all_length wf_obj_def)
  show "?k < 2 ^ 40" using wf sum_sectors_take_le [of i obs] by (simp add: obj_start_def wf_objs_def region_sectors_def)
  have "list_all wf_obj (take i obs)" using all by (auto simp: list_all_iff dest: in_set_takeD)
  then have pre: "length (array_data b obs @ concat (map ro_data (take i obs))) =
      512 * (Suc (length obs) + sum_list (map ro_sectors (take i obs)))"
    using length_array_data [OF wf] by (simp add: length_data_concat)
  have "concat (map ro_data obs) = concat (map ro_data (take i obs)) @ ro_data ?ob @ concat (map ro_data (drop (Suc i) obs))"
    by (subst id_take_nth_drop [OF i]) simp
  then have "sector_at img b ((array_data b obs @ concat (map ro_data (take i obs))) @ ro_data ?ob @
      concat (map ro_data (drop (Suc i) obs)))"
    using at by (simp add: region_def)
  then show "sector_at img ?k (ro_data ?ob)"
    unfolding sector_at_append [OF pre] sector_at_append [OF ob(3)] by (simp add: obj_start_def add.assoc)
qed

lemma mkfs_data_tree:
  assumes "objset_on img b obs os" and "i < length obs" and "obj_dnode (obj_start b obs i) (obs ! i) dn"
  shows "object_tree x img dn [[ro_data (obs ! i)]]"
  using one_block_tree [OF _ _ read_sector_ptr [OF mkfs_data_at(3,4,2,1,5) [OF assms(1,2)], of x], of dn] assms(3)
  by (simp add: obj_dnode_def)

lemma mkfs_mos_dnode:
  assumes on: "objset_on img b obs os" and i: "i < length obs"
  shows "\<exists>dn. mos_dnode x img os (of_nat (Suc i)) = Some dn \<and> obj_dnode (obj_start b obs i) (obs ! i) dn"
proof -
  let ?n = "Suc (length obs)" and ?md = "meta_dnode os" and ?flat = "array_data b obs"
  let ?slots = "obj_slots (b + ?n) obs"
  have wf: "wf_objs b obs" and at: "sector_at img b (region b obs)" and le: "os_endian os = Little"
    and md': "obj_dnode b (array_obj b obs) ?md" using on by (simp_all add: objset_on_def)
  have all: "list_all wf_obj obs" and n: "?n \<le> 65535" and k: "b + ?n + sum_list (map ro_sectors obs) < 2 ^ 40"
    and b: "b < 2 ^ 40"
    using wf by (simp_all add: wf_objs_def region_sectors_def)
  note s512 = obj_slots_512 [OF all k]
  note len = length_array_data [OF wf]
  have "sector_at img b ?flat" using at by (simp add: region_def sector_at_append [OF len])
  from read_sector_ptr [OF _ n b this len, of x]
  have rd: "read_block x img (sector_ptr b ?n) = Inr \<lparr>blk_data = ?flat, blk_checksum_valid = None, blk_dva_used = 0\<rparr>"
    by simp
  have md: "dn_nlevels ?md = 1" "dn_blkptrs ?md = [sector_ptr b ?n]" "dn_maxblkid ?md = 0" "data_block_size ?md = 512 * ?n"
    using md' wf_array_obj [OF wf] by (simp_all add: obj_dnode_def data_block_size_def)
  have tree: "object_tree x img ?md [[?flat]]" using one_block_tree [OF md(1,2) rd] by simp
  have ui: "unat (of_nat (Suc i) :: u64) = Suc i" using n i by (subst unat_of_nat) simp
  have "mos_dnode x img os (of_nat (Suc i)) = slot_dnode (concat (concat [[?flat]])) (Suc i) Little"
  proof (subst mos_dnode_flat [OF tree])
    show "list_all (\<lambda>b. length b = data_block_size ?md) (concat [[?flat]])" using len by (simp add: md)
    show "0 < data_block_size ?md" by (simp add: md)
    show "unat (dn_maxblkid ?md) + 1 \<le> length (concat [[?flat]])" by (simp add: md)
    show "512 * unat (of_nat (Suc i) :: u64) + 512 \<le> data_block_size ?md * (unat (dn_maxblkid ?md) + 1)"
      using i unfolding ui by (simp add: md)
    show "slot_dnode (concat (concat [[?flat]])) (unat (of_nat (Suc i) :: u64)) (os_endian os) =
        slot_dnode (concat (concat [[?flat]])) (Suc i) Little"
      unfolding ui le ..
  qed
  moreover have "take 512 (drop (512 * Suc i) ?flat) = ?slots ! i"
    using drop_concat_const [OF s512, of i 0 512] i s512 by (simp add: array_data_def mult.commute list_all_length)
  moreover have "?slots ! i = obj_slot (obj_start b obs i) (obs ! i)"
    using nth_obj_slots [OF i] by (simp add: obj_start_def)
  moreover have "obj_start b obs i < 2 ^ 40" using k sum_sectors_take_le [of i obs] by (simp add: obj_start_def)
  moreover have "wf_obj (obs ! i)" using all i by (simp add: list_all_length)
  ultimately show ?thesis
    using obj_slot_parse [of "obs ! i" "obj_start b obs i"]
    by (fastforce simp: slot_dnode_def obj_dnode_def wf_obj_def)
qed

text \<open>An object of the image, read through every layer below the ZPL.\<close>

lemma mkfs_object:
  assumes on: "objset_on img b obs os" and i: "i < length obs"
  shows "\<exists>dn. mos_dnode x img os (of_nat (Suc i)) = Some dn \<and>
    obj_dnode (obj_start b obs i) (obs ! i) dn \<and> data_block_size dn = length (ro_data (obs ! i)) \<and>
    0 < data_block_size dn \<and> object_tree x img dn [[ro_data (obs ! i)]] \<and>
    read_zap_object x img dn = Inr (ro_data (obs ! i))"
proof -
  obtain dn where dn: "mos_dnode x img os (of_nat (Suc i)) = Some dn"
      "obj_dnode (obj_start b obs i) (obs ! i) dn" using mkfs_mos_dnode [OF assms] by blast
  have ob: "0 < ro_sectors (obs ! i)" "ro_sectors (obs ! i) \<le> 65535" "length (ro_data (obs ! i)) = 512 * ro_sectors (obs ! i)"
    using assms by (auto simp: objset_on_def list_all_length wf_obj_def wf_objs_def)
  have sz: "data_block_size dn = length (ro_data (obs ! i))"
    using dn(2) ob by (simp add: data_block_size_def obj_dnode_def)
  note tree = mkfs_data_tree [OF assms dn(2), of x]
  have "1 \<le> 64 * 1024 * 1024 div data_block_size dn" using ob sz by (simp add: div_greater_zero_iff Suc_le_eq)
  then obtain m where "64 * 1024 * 1024 div data_block_size dn = Suc m" by (cases "64 * 1024 * 1024 div data_block_size dn") auto
  moreover have "dn_maxblkid dn = 0" using dn(2) by (simp add: obj_dnode_def)
  ultimately have "zap_nblocks dn = 1" by (simp add: zap_nblocks_def Let_def sat_add_def usize_max_def)
  then have "read_zap_object x img dn = Inr (ro_data (obs ! i))"
    using read_blocks_concat [OF tree, of 1] ob sz by (simp add: read_zap_object_def)
  then show ?thesis using dn tree sz ob by (intro exI [of _ dn]) simp
qed

lemma mkfs_read:
  assumes "objset_on img b obs os" and "i < length obs"
  shows "zpl_read_file_with x img os (of_nat (Suc i)) (Some sz) = Inr (take (unat sz) (ro_data (obs ! i)))"
proof -
  obtain dn where dn: "mos_dnode x img os (of_nat (Suc i)) = Some dn" "0 < data_block_size dn"
      "object_tree x img dn [[ro_data (obs ! i)]]" "dn_maxblkid dn = 0"
    using mkfs_object [OF assms, of x] unfolding obj_dnode_def by blast
  then show ?thesis
    using file_blocks_take [OF dn(3)] by (simp add: zpl_read_file_with_def min_def take_Cons' max_def del: of_nat_Suc)
qed

lemma mkfs_list_dir:
  assumes "objset_on img b obs os" and "i < length obs"
  shows "zpl_list_dir x img os (of_nat (Suc i)) =
    map (\<lambda>(n, v). (n, v AND ZPL_DIRENT_OBJ_MASK)) (zap_list (ro_data (obs ! i)))"
  using mkfs_object [OF assms, of x] by (auto simp: zpl_list_dir_def simp del: of_nat_Suc)

subsection \<open>ZAP and file data\<close>

definition blank_slot :: "rstr \<times> u64 \<times> bytes" where
  "blank_slot = ([], 0, replicate 6 0)"

text \<open>A micro-ZAP block padded with empty slots to whole sectors.\<close>

definition zap_data :: "(rstr \<times> u64) list \<Rightarrow> bytes" where
  "zap_data es = micro_encode (replicate 56 0)
     (map (\<lambda>(n, v). (n, v, replicate 6 0)) es @ replicate (7 - length es mod 8) blank_slot)"

definition wf_zap_name :: "rstr \<Rightarrow> bool" where
  "wf_zap_name n \<longleftrightarrow> n \<noteq> [] \<and> length n \<le> 50 \<and> 0 \<notin> set n \<and> valid_utf8 n"

definition pad_sectors :: "bytes \<Rightarrow> bytes" where
  "pad_sectors bs = bs @ replicate (512 - length bs mod 512) 0"

lemma round_up: "0 < m \<Longrightarrow> n + (m - n mod m) = m * (n div m + 1)" for n m :: nat
proof -
  assume "0 < m"
  have *: "a = m * q + r \<Longrightarrow> r < m \<Longrightarrow> a + (m - r) = m * (q + 1)" for a q r :: nat by simp
  show ?thesis by (rule *) (simp_all add: \<open>0 < m\<close>)
qed

lemma length_pad_sectors: "length (pad_sectors bs) = 512 * (length bs div 512 + 1)"
  using round_up [of 512 "length bs"] by (simp add: pad_sectors_def)

lemma wf_blank_slot: "wf_slot blank_slot"
  by (simp add: blank_slot_def wf_slot_def valid_utf8.simps)

lemma wf_zap_slots:
  "list_all (\<lambda>e. wf_zap_name (fst e)) es \<Longrightarrow> list_all wf_slot (map (\<lambda>(n, v). (n, v, replicate 6 0)) es @ replicate p blank_slot)"
  using wf_blank_slot by (induction es) (auto simp: list_all_iff wf_slot_def wf_zap_name_def)

lemma zap_slots_kept:
  "list_all (\<lambda>e. wf_zap_name (fst e)) es \<Longrightarrow>
     map (\<lambda>s. (fst s, fst (snd s))) (filter (\<lambda>s. fst s \<noteq> []) (map (\<lambda>(n, v). (n, v, replicate 6 0)) es @ replicate p blank_slot)) = es"
  by (induction es) (auto simp: wf_zap_name_def blank_slot_def)

lemma zap_list_data: "list_all (\<lambda>e. wf_zap_name (fst e)) es \<Longrightarrow> zap_list (zap_data es) = es"
  unfolding zap_data_def by (subst zap_list_micro) (simp_all only: length_replicate wf_zap_slots zap_slots_kept)

lemma length_micro_encode:
  "length hdr = 56 \<Longrightarrow> list_all wf_slot slots \<Longrightarrow> length (micro_encode hdr slots) = 64 * (length slots + 1)"
  by (simp add: micro_encode_def length_micro_slots)

lemma length_zap_data:
  assumes "list_all (\<lambda>e. wf_zap_name (fst e)) es"
  shows "length (zap_data es) = 512 * (length es div 8 + 1)"
proof -
  have "length (zap_data es) = 64 * (length es + (7 - length es mod 8) + 1)"
    unfolding zap_data_def
    by (subst length_micro_encode) (simp_all only: wf_zap_slots [OF assms] length_replicate, simp)
  moreover have "n + (7 - n mod 8) + 1 = 8 * (n div 8 + 1)" for n :: nat
  proof -
    have "n mod 8 < 8" by simp
    then have "n + (7 - n mod 8) + 1 = n + (8 - n mod 8)" by linarith
    then show ?thesis using round_up [of 8 n] by simp
  qed
  ultimately show ?thesis by simp
qed

text \<open>A ZAP block stays one when zeros follow: they are empty slots.\<close>

lemma concat_blank_slots: "concat (map (\<lambda>(n, v, cd). micro_slot n v cd) (replicate m blank_slot)) = replicate (64 * m) 0"
proof (induction m)
  case (Suc m)
  have "micro_slot [] 0 (replicate 6 0) = replicate 64 0"
    by (simp add: micro_slot_def to_le_bytes_def upt_rec numeral_eq_Suc)
  with Suc show ?case by (simp add: blank_slot_def replicate_add)
qed simp

lemma zap_list_data_padded:
  assumes "list_all (\<lambda>e. wf_zap_name (fst e)) es"
  shows "zap_list (pad_sectors (zap_data es)) = es"
proof -
  have "length (zap_data es) mod 512 = 0" using length_zap_data [OF assms] by simp
  then have "pad_sectors (zap_data es) = zap_data es @ replicate (64 * 8) 0" by (simp add: pad_sectors_def)
  also have "\<dots> = micro_encode (replicate 56 0)
      (map (\<lambda>(n, v). (n, v, replicate 6 0)) es @ replicate ((7 - length es mod 8) + 8) blank_slot)"
    unfolding zap_data_def micro_encode_def replicate_add
    by (simp only: map_append concat_append concat_blank_slots append_assoc)
  finally show ?thesis
    by (simp only:) (subst zap_list_micro, simp_all only: length_replicate wf_zap_slots [OF assms] zap_slots_kept [OF assms])
qed

subsection \<open>Attributes\<close>

definition sa_bonus :: "u64 \<Rightarrow> u64 \<Rightarrow> bytes" where
  "sa_bonus mode sz = to_le_bytes 4 SA_MAGIC @ to_le_bytes 2 (0x802 :: u16) @ replicate 10 0 @
     to_le_bytes 8 mode @ to_le_bytes 8 sz"

lemma length_sa_bonus [simp]: "length (sa_bonus mode sz) = 32"
  by (simp add: sa_bonus_def)

lemma decode_sa_bonus_encoded:
  "decode_sa_bonus (sa_bonus mode sz) sample_registry sample_layouts Little =
     Some (zpl_attrs_default\<lparr>za_mode := mode, za_size := sz\<rparr>)"
proof -
  let ?b = "sa_bonus mode sz" and ?r = "reader_new Little"
  have "le_u16 ?b 4 = 0x802" unfolding sa_bonus_def by (rule le16.read_enc_at') simp
  then have h: "sa_layout_num ?b = 2" "sa_hdrsz ?b = 16" by (simp_all add: sa_layout_num_def sa_hdrsz_def)
  have m: "le_u32 ?b 0 = SA_MAGIC" by (simp add: sa_bonus_def le32.read_enc)
  have "?b = (to_le_bytes 4 SA_MAGIC @ to_le_bytes 2 (0x802 :: u16) @ replicate 10 0) @ to_le_bytes 8 mode @ to_le_bytes 8 sz"
    by (simp add: sa_bonus_def)
  then have md: "le_u64 ?b 16 = mode" by (simp only:) (rule le64.read_enc_at', simp)
  have "?b = (to_le_bytes 4 SA_MAGIC @ to_le_bytes 2 (0x802 :: u16) @ replicate 10 0 @ to_le_bytes 8 mode) @ to_le_bytes 8 sz @ []"
    by (simp add: sa_bonus_def)
  then have s: "le_u64 ?b 24 = sz" by (simp only:) (rule le64.read_enc_at', simp)
  have ids: "sl_attr_ids sample_layouts 2 = Some [5, 6]" by (simp add: sl_attr_ids_def sample_layouts_def)
  have known: "ka_mode (known_of sample_registry) = Some 5" "ka_size (known_of sample_registry) = Some 6"
    by (simp_all add: known_of_def sample_registry_def sr_lookup_def lit_def)
  have sizes: "sr_size_of sample_registry 5 = Some 8" "sr_size_of sample_registry 6 = Some 8"
    by (simp_all add: sample_registry_def sr_size_of_def)
  show ?thesis
    using m by (simp add: decode_sa_bonus_def h ids sizes known sat_add_def usize_max_def assign_known_def Let_def
      rd_u64_def md s)
qed

subsection \<open>File systems\<close>

text \<open>
  Nodes are numbered; node 0 is the root. A directory entry is a name, a dirent type and the
  number of the child.
\<close>

datatype fs_node =
    FDir "(rstr \<times> nat \<times> nat) list"
  | FFile bytes

definition node_id :: "nat \<Rightarrow> u64" where
  "node_id j = of_nat (5 + j)"

definition dirent_val :: "nat \<Rightarrow> nat \<Rightarrow> u64" where
  "dirent_val t c = of_nat (pack [(48, 5 + c), (12, 0), (4, t)])"

definition dir_entries_of :: "(rstr \<times> nat \<times> nat) list \<Rightarrow> (rstr \<times> u64) list" where
  "dir_entries_of es = map (\<lambda>(n, t, c). (n, dirent_val t c)) es"

fun node_obj :: "fs_node \<Rightarrow> raw_obj" where
  "node_obj (FDir es) = \<lparr>ro_type = 20, ro_bonustype = 44, ro_bonus = sa_bonus 16877 (of_nat (length es)),
     ro_data = zap_data (dir_entries_of es)\<rparr>"
| "node_obj (FFile bs) = \<lparr>ro_type = 19, ro_bonustype = 44, ro_bonus = sa_bonus 33188 (of_nat (length bs)),
     ro_data = pad_sectors bs\<rparr>"

definition zap_obj :: "bytes \<Rightarrow> raw_obj" where
  "zap_obj data = \<lparr>ro_type = 21, ro_bonustype = 0, ro_bonus = [], ro_data = data\<rparr>"

text \<open>Master node, attribute master, REGISTRY and LAYOUTS are objects 1 to 4, node \<open>j\<close> is object \<open>5 + j\<close>.\<close>

definition sys_objs :: "raw_obj list" where
  "sys_objs =
     [zap_obj (zap_data [(ZPL_ROOT_NAME, node_id 0), (ZPL_SA_ATTRS_NAME, 2)]),
      zap_obj (zap_data [(SA_REGISTRY_NAME, 3), (SA_LAYOUTS_NAME, 4)]),
      zap_obj (zap_data (map (\<lambda>(n, d). (n, sa_reg_value d)) (sr_by_name sample_registry))),
      zap_obj (fat_encode sample_fat_header [sample_layout_leaf])]"

definition fs_objs :: "fs_node list \<Rightarrow> raw_obj list" where
  "fs_objs fs = sys_objs @ map node_obj fs"

lemma length_sys_objs [simp]: "length sys_objs = 4"
  by (simp add: sys_objs_def)

definition wf_node :: "nat \<Rightarrow> fs_node \<Rightarrow> bool" where
  "wf_node n nd \<longleftrightarrow> wf_obj (node_obj nd) \<and>
     (case nd of FFile _ \<Rightarrow> True
      | FDir es \<Rightarrow> list_all (\<lambda>(nm, t, c). wf_zap_name nm \<and> 47 \<notin> set nm \<and> t < 16 \<and> c < n) es)"

definition wf_fs :: "fs_node list \<Rightarrow> bool" where
  "wf_fs fs \<longleftrightarrow> list_all (wf_node (length fs)) fs \<and> fs \<noteq> [] \<and> length fs < 65000"

text \<open>The file system \<open>fs\<close> lies at sector \<open>b\<close> of the image, and \<open>os\<close> is its object set.\<close>

definition fs_on :: "bytes \<Rightarrow> nat \<Rightarrow> fs_node list \<Rightarrow> objset \<Rightarrow> bool" where
  "fs_on img b fs os \<longleftrightarrow> wf_fs fs \<and> objset_on img b (fs_objs fs) os"

text \<open>The specification of path resolution.\<close>

fun fs_walk :: "fs_node list \<Rightarrow> nat \<Rightarrow> rstr list \<Rightarrow> nat option" where
  "fs_walk fs j [] = Some j"
| "fs_walk fs j (n # ns) =
     (case fs ! j of
        FFile _ \<Rightarrow> None
      | FDir es \<Rightarrow>
          (case find_name n es of None \<Rightarrow> None | Some (t, c) \<Rightarrow> fs_walk fs c ns))"

subsection \<open>Reading the formatted image\<close>

lemma wf_zap_obj: "length data = 512 * m \<Longrightarrow> 0 < m \<Longrightarrow> m \<le> 65535 \<Longrightarrow> wf_obj (zap_obj data)"
  by (simp add: wf_obj_def zap_obj_def ro_sectors_def)

lemma wf_names [simp]: "wf_zap_name (lit ''ROOT'')" "wf_zap_name (lit ''SA_ATTRS'')" "wf_zap_name (lit ''REGISTRY'')"
  "wf_zap_name (lit ''LAYOUTS'')" "wf_zap_name (lit ''ZPL_MODE'')" "wf_zap_name (lit ''ZPL_SIZE'')"
  "wf_zap_name (lit ''ZPL_XATTR'')" "wf_zap_name (lit ''ZPL_DXATTR'')"
  by (simp_all add: wf_zap_name_def lit_def valid_utf8_ascii)

lemmas fs_name_defs = ZPL_ROOT_NAME_def ZPL_SA_ATTRS_NAME_def SA_REGISTRY_NAME_def SA_LAYOUTS_NAME_def

lemma wf_sys_objs: "list_all wf_obj sys_objs" "sum_list (map ro_sectors sys_objs) = 5"
proof -
  have fat: "length (fat_encode sample_fat_header [sample_layout_leaf]) = 512 * 2"
    using length_fat_encode [OF wf_sample_layout_fat] by simp
  have z: "length (zap_data es) = 512 * (length es div 8 + 1)" if "list_all (\<lambda>e. wf_zap_name (fst e)) es" for es
    by (rule length_zap_data [OF that])
  show "list_all wf_obj sys_objs"
    using wf_zap_obj [OF fat] by (simp add: sys_objs_def) (simp add: wf_zap_obj z fs_name_defs sample_registry_def)
  show "sum_list (map ro_sectors sys_objs) = 5"
    by (simp add: sys_objs_def ro_sectors_def zap_obj_def fat z fs_name_defs sample_registry_def)
qed

lemma wf_fs_objs: "wf_fs fs \<Longrightarrow> b + region_sectors (fs_objs fs) < 2 ^ 40 \<Longrightarrow> wf_objs b (fs_objs fs)"
proof -
  assume wf: "wf_fs fs" "b + region_sectors (fs_objs fs) < 2 ^ 40"
  then have "list_all wf_obj (fs_objs fs)"
    using wf_sys_objs(1) by (auto simp: fs_objs_def wf_fs_def wf_node_def list_all_iff)
  moreover have "length (fs_objs fs) = 4 + length fs" by (simp add: fs_objs_def)
  ultimately show ?thesis using wf by (simp add: wf_objs_def wf_fs_def)
qed

lemma fs_object:
  assumes "fs_on img b fs os" and "i < 4 + length fs" and "k = of_nat (Suc i)"
  shows "\<exists>dn. mos_dnode x img os k = Some dn \<and>
    obj_dnode (obj_start b (fs_objs fs) i) (fs_objs fs ! i) dn \<and> data_block_size dn = length (ro_data (fs_objs fs ! i)) \<and>
    0 < data_block_size dn \<and> object_tree x img dn [[ro_data (fs_objs fs ! i)]] \<and>
    read_zap_object x img dn = Inr (ro_data (fs_objs fs ! i))"
  unfolding assms(3)
  by (rule mkfs_object [where os = os]) (use assms(1,2) in \<open>simp_all add: fs_objs_def fs_on_def\<close>)

text \<open>The system objects name the root and the attribute tables, whatever other objects follow.\<close>

lemma sys_context:
  assumes "objset_on img b (sys_objs @ obs) os"
  shows "zpl_master_root x img os = Some (node_id 0)"
    and "zpl_sa_context x img os = Some (sample_registry, sample_layouts)"
proof -
  obtain d1 d2 d3 d4 where d:
    "mos_dnode x img os 1 = Some d1" "read_zap_object x img d1 = Inr (ro_data ((sys_objs @ obs) ! 0))"
    "mos_dnode x img os 2 = Some d2" "read_zap_object x img d2 = Inr (ro_data ((sys_objs @ obs) ! 1))"
    "mos_dnode x img os 3 = Some d3" "read_zap_object x img d3 = Inr (ro_data ((sys_objs @ obs) ! 2))"
    "mos_dnode x img os 4 = Some d4" "read_zap_object x img d4 = Inr (ro_data ((sys_objs @ obs) ! 3))"
    using mkfs_object [OF assms, of 0 x] mkfs_object [OF assms, of 1 x] mkfs_object [OF assms, of 2 x]
      mkfs_object [OF assms, of 3 x]
    by auto
  note d = d [unfolded sys_objs_def zap_obj_def, simplified]
  have l1: "zap_list (zap_data [(ZPL_ROOT_NAME, node_id 0), (ZPL_SA_ATTRS_NAME, 2)]) = [(ZPL_ROOT_NAME, node_id 0), (ZPL_SA_ATTRS_NAME, 2)]"
    and l2: "zap_list (zap_data [(SA_REGISTRY_NAME, 3), (SA_LAYOUTS_NAME, 4)]) = [(SA_REGISTRY_NAME, 3), (SA_LAYOUTS_NAME, 4)]"
    by (rule zap_list_data, simp add: fs_name_defs)+
  have "zap_list (zap_data (map (\<lambda>(n, d). (n, sa_reg_value d)) (sr_by_name sample_registry))) =
      map (\<lambda>(n, d). (n, sa_reg_value d)) (sr_by_name sample_registry)"
    by (rule zap_list_data) (simp add: sample_registry_def)
  then have reg: "parse_sa_registry (zap_data (map (\<lambda>(n, d). (n, sa_reg_value d)) (sr_by_name sample_registry))) = sample_registry"
    by (simp add: parse_sa_registry_def sa_desc_of_value) (simp add: sample_registry_def sa_desc_of_value)
  have "zap_list_arrays (fat_encode sample_fat_header [sample_layout_leaf]) =
      map (\<lambda>e. (fst e, snd (snd e))) (map sa_layout_entry (sl_by_num sample_layouts))"
    using fat_list_arrays_encode [OF wf_sample_layout_fat] le_u64_fat_encode [OF wf_sample_layout_fat] zbt_neq [symmetric]
    by (simp add: zap_list_arrays_def sample_layout_leaf_def)
  then have lay: "parse_sa_layouts (fat_encode sample_fat_header [sample_layout_leaf]) = sample_layouts"
    unfolding parse_sa_layouts_def zap_list_arrays_to_layouts_def by (simp only: layouts_of_entries) simp
  have neq: "ZPL_ROOT_NAME \<noteq> ZPL_SA_ATTRS_NAME" "SA_REGISTRY_NAME \<noteq> SA_LAYOUTS_NAME"
    by (simp_all add: fs_name_defs lit_def)
  show "zpl_master_root x img os = Some (node_id 0)"
    by (simp add: zpl_master_root_def ZPL_MASTER_NODE_OBJ_def d zap_lookup_def l1)
  show "zpl_sa_context x img os = Some (sample_registry, sample_layouts)"
    using neq by (simp add: zpl_sa_context_def ZPL_MASTER_NODE_OBJ_def d zap_lookup_def l1 l2 reg lay)
qed

lemma fs_master:
  assumes "fs_on img b fs os"
  shows "zpl_master_root x img os = Some (node_id 0)"
    and "zpl_sa_context x img os = Some (sample_registry, sample_layouts)"
  using sys_context [of img b "map node_obj fs" os x] assms by (simp_all add: fs_on_def fs_objs_def)

lemma dirent_mask: "t < 16 \<Longrightarrow> 5 + c < 2 ^ 48 \<Longrightarrow> dirent_val t c AND ZPL_DIRENT_OBJ_MASK = node_id c"
proof -
  assume a: "t < 16" "5 + c < 2 ^ 48"
  have m: "ZPL_DIRENT_OBJ_MASK = mask 48" by (simp add: ZPL_DIRENT_OBJ_MASK_def mask_eq_exp_minus_1)
  let ?fs = "[(48, 5 + c), (12, 0), (4, t)]"
  have u: "unat (dirent_val t c) = pack ?fs"
    unfolding dirent_val_def by (rule word_of_pack) (use a in simp_all)
  have "unat (dirent_val t c AND ZPL_DIRENT_OBJ_MASK) = bits 0 48 (pack ?fs)"
    unfolding unat_and_mask [OF m] u by (simp add: bits_def)
  also have "\<dots> = 5 + c" using a(2) by (simp only: bits_pack_here)
  also have "\<dots> = unat (node_id c)" using a(2) unfolding node_id_def by (subst unat_of_nat) simp
  finally show ?thesis by (rule word_eq_unatI)
qed

lemma dir_entries_masked:
  "list_all (\<lambda>(nm, t, c). wf_zap_name nm \<and> 47 \<notin> set nm \<and> t < 16 \<and> c < n) es \<Longrightarrow> n < 65000 \<Longrightarrow>
     map (\<lambda>(nm, v). (nm, v AND ZPL_DIRENT_OBJ_MASK)) (zap_list (zap_data (dir_entries_of es))) =
     map (\<lambda>(n, t, c). (n, node_id c)) es"
proof -
  assume es: "list_all (\<lambda>(nm, t, c). wf_zap_name nm \<and> 47 \<notin> set nm \<and> t < 16 \<and> c < n) es" "n < 65000"
  have "zap_list (zap_data (dir_entries_of es)) = dir_entries_of es"
    by (rule zap_list_data) (use es in \<open>auto simp: dir_entries_of_def list_all_iff\<close>)
  moreover have "map (\<lambda>(nm, v). (nm, v AND ZPL_DIRENT_OBJ_MASK)) (dir_entries_of es) = map (\<lambda>(n, t, c). (n, node_id c)) es"
    using es unfolding dir_entries_of_def by (induction es) (auto simp: dirent_mask)
  ultimately show ?thesis by simp
qed

lemma node_size_small:
  assumes "wf_node n (FFile bs)"
  shows "unat (of_nat (length bs) :: u64) = length bs"
proof -
  have "wf_obj (node_obj (FFile bs))" using assms by (simp add: wf_node_def)
  then have "length bs div 512 + 1 \<le> 65535" by (simp add: wf_obj_def ro_sectors_def length_pad_sectors)
  then have "length bs < 65535 * 512" by (simp add: div_less_iff_less_mult [symmetric])
  then show ?thesis by (simp add: unat_of_nat)
qed

lemma fs_node_object:
  assumes "fs_on img b fs os" and "j < length fs"
  shows "\<exists>dn k. mos_dnode x img os (node_id j) = Some dn \<and> obj_dnode k (node_obj (fs ! j)) dn \<and>
    data_block_size dn = length (ro_data (node_obj (fs ! j))) \<and> 0 < data_block_size dn \<and>
    object_tree x img dn [[ro_data (node_obj (fs ! j))]] \<and>
    read_zap_object x img dn = Inr (ro_data (node_obj (fs ! j)))"
proof -
  have "fs_objs fs ! (4 + j) = node_obj (fs ! j)"
    using assms(2) by (simp add: fs_objs_def nth_append)
  then show ?thesis
    using fs_object [OF assms(1), of "4 + j" "node_id j" x] assms(2)
    by (auto simp: node_id_def eval_nat_numeral)
qed

lemma wf_fs_node: "fs_on img b fs os \<Longrightarrow> j < length fs \<Longrightarrow> wf_node (length fs) (fs ! j)"
  by (simp add: fs_on_def wf_fs_def list_all_length)

lemma wf_fs_dir:
  "fs_on img b fs os \<Longrightarrow> j < length fs \<Longrightarrow> fs ! j = FDir es \<Longrightarrow>
     list_all (\<lambda>(nm, t, c). wf_zap_name nm \<and> 47 \<notin> set nm \<and> t < 16 \<and> c < length fs) es"
  using wf_fs_node [of img b fs os j] by (simp add: wf_node_def)

text \<open>Listing a node masks the dirent types off; a file is listed like the ZAP its bytes make.\<close>

lemma fs_node_at:
  assumes "fs_on img b fs os" and "j < length fs"
  shows "objset_on img b (fs_objs fs) os" "4 + j < length (fs_objs fs)" "fs_objs fs ! (4 + j) = node_obj (fs ! j)"
    "of_nat (Suc (4 + j)) = node_id j"
  using assms by (simp_all add: fs_on_def fs_objs_def nth_append node_id_def)

lemma fs_list_dir:
  assumes "fs_on img b fs os" and "j < length fs" and "fs ! j = FDir es"
  shows "zpl_list_dir x img os (node_id j) = map (\<lambda>(n, t, c). (n, node_id c)) es"
proof -
  note t = fs_node_at [OF assms(1,2)]
  have "map (\<lambda>(nm, v). (nm, v AND ZPL_DIRENT_OBJ_MASK)) (zap_list (zap_data (dir_entries_of es))) =
      map (\<lambda>(n, t, c). (n, node_id c)) es"
    using assms(1) by (intro dir_entries_masked [OF wf_fs_dir [OF assms]]) (simp add: fs_on_def wf_fs_def)
  then show ?thesis using mkfs_list_dir [OF t(1,2), of x] unfolding t(3,4) by (simp add: assms(3))
qed

lemma fs_list_file:
  assumes "fs_on img b fs os" and "j < length fs" and "fs ! j = FFile (zap_data es)" and "list_all (\<lambda>e. wf_zap_name (fst e)) es"
  shows "zpl_list_dir x img os (node_id j) = map (\<lambda>(n, v). (n, v AND ZPL_DIRENT_OBJ_MASK)) es"
proof -
  note t = fs_node_at [OF assms(1,2)]
  show ?thesis
    using mkfs_list_dir [OF t(1,2), of x] unfolding t(3,4) by (simp add: assms(3) zap_list_data_padded [OF assms(4)])
qed

definition node_attrs :: "fs_node \<Rightarrow> zpl_attrs_rec" where
  "node_attrs nd = (case nd of
     FDir es \<Rightarrow> zpl_attrs_default\<lparr>za_mode := 16877, za_size := of_nat (length es)\<rparr>
   | FFile bs \<Rightarrow> zpl_attrs_default\<lparr>za_mode := 33188, za_size := of_nat (length bs)\<rparr>)"

lemma fs_attrs:
  assumes "fs_on img b fs os" and "j < length fs"
  shows "zpl_attrs x img os sample_registry sample_layouts (node_id j) = Some (node_attrs (fs ! j))"
  using fs_node_object [OF assms, of x]
  by (cases "fs ! j") (auto simp: zpl_attrs_def obj_dnode_def DMU_OT_SA_def decode_sa_bonus_encoded node_attrs_def)

lemma fs_read:
  assumes "fs_on img b fs os" and "j < length fs"
  shows "zpl_read_file_with x img os (node_id j) (Some sz) = Inr (take (unat sz) (ro_data (node_obj (fs ! j))))"
  using mkfs_read [OF fs_node_at(1,2) [OF assms], of x sz] unfolding fs_node_at(3,4) [OF assms] .

lemma file_size_small:
  assumes "fs_on img b fs os" and "j < length fs" and "fs ! j = FFile bs"
  shows "unat (of_nat (length bs) :: u64) = length bs"
  using wf_fs_node [OF assms(1,2)] unfolding assms(3) by (rule node_size_small)

lemma fs_read_file:
  assumes "fs_on img b fs os" and "j < length fs" and "fs ! j = FFile bs"
  shows "zpl_read_file_with x img os (node_id j) (Some (of_nat (length bs))) = Inr bs"
  using fs_read [OF assms(1,2)] file_size_small [OF assms] by (simp add: assms(3) pad_sectors_def)

lemma fs_descend:
  assumes "fs_on img b fs os" and "j < length fs" and "fs_walk fs j names = Some m"
  shows "zpl_descend x img os (node_id j) names = Some (node_id m) \<and> m < length fs"
  using assms(2,3)
proof (induction names arbitrary: j)
  case (Cons n ns)
  obtain es where es: "fs ! j = FDir es" using Cons.prems(2) by (cases "fs ! j") simp_all
  then obtain t c where c: "find_name n es = Some (t, c)" "fs_walk fs c ns = Some m"
    using Cons.prems(2) by (auto split: option.splits)
  have "(n, t, c) \<in> set es" using c(1) by (rule find_name_SomeD)
  moreover have "list_all (\<lambda>(nm, t, c). wf_zap_name nm \<and> 47 \<notin> set nm \<and> t < 16 \<and> c < length fs) es"
    using wf_fs_dir [OF assms(1) Cons.prems(1) es] .
  ultimately have "c < length fs" by (auto simp: list_all_iff)
  moreover have "find_name n (map (\<lambda>(n, t, c). (n, node_id c)) es) = Some (node_id c)"
    using find_name_map_val [of n "\<lambda>p. node_id (snd p)" es] c(1) by (simp add: case_prod_unfold)
  ultimately show ?case
    using Cons.IH [of c] c(2) fs_list_dir [OF assms(1) Cons.prems(1) es, of x] by simp
qed simp

lemma fs_lookup:
  assumes "fs_on img b fs os" and "plain_names names" and "fs_walk fs 0 names = Some j"
  shows "zpl_lookup x img os (path_of names) = Some (node_id j, node_attrs (fs ! j)) \<and> j < length fs"
proof -
  have "0 < length fs" using assms(1) by (simp add: fs_on_def wf_fs_def)
  from fs_descend [OF assms(1) this assms(3), of x] show ?thesis
    using fs_master [OF assms(1), of x] fs_attrs [OF assms(1), of j x]
    by (simp add: zpl_lookup_def path_components_path_of [OF assms(2)])
qed

subsection \<open>Properties\<close>

text \<open>
  C1. End to end, a file read back is the file written: on an image formatted from any tree of
  directories and files, looking up the absolute path of a node walks the directories as the tree
  does and reports the node's object, mode and size, and reading the path of a file returns
  exactly its bytes.
\<close>

theorem formatted_path_reads_back:
  assumes "fs_on img b fs os" and "plain_names names" and "fs_walk fs 0 names = Some j"
  shows "zpl_lookup x img os (path_of names) = Some (node_id j, node_attrs (fs ! j)) \<and>
    (fs ! j = FFile bs \<longrightarrow> zpl_read_path x img os (path_of names) = Inr bs)"
  using fs_lookup [OF assms, of x] fs_read_file [OF assms(1), of j bs x]
  by (auto simp: zpl_read_path_def node_attrs_def)


text \<open>The root holds a directory \<open>etc\<close>, which holds a two-byte file \<open>a\<close> and a file whose bytes are a ZAP block.\<close>

definition sample_fs :: "fs_node list" where
  "sample_fs = [FDir [(lit ''etc'', 4, 1)], FDir [(lit ''a'', 8, 2), (lit ''z'', 8, 3)],
     FFile [104, 105], FFile (zap_data [(lit ''p'', 7)])]"

lemma wf_sample_fs: "wf_fs sample_fs"
proof -
  have names: "wf_zap_name (lit ''etc'')" "wf_zap_name (lit ''a'')" "wf_zap_name (lit ''z'')" "wf_zap_name (lit ''p'')"
    by (simp_all add: wf_zap_name_def lit_def valid_utf8_ascii)
  have sectors: "ro_sectors (node_obj (FDir [(lit ''etc'', 4, 1)])) = 1"
    "ro_sectors (node_obj (FDir [(lit ''a'', 8, 2), (lit ''z'', 8, 3)])) = 1"
    "ro_sectors (node_obj (FFile [104, 105])) = 1" "ro_sectors (node_obj (FFile (zap_data [(lit ''p'', 7)]))) = 2"
    using names by (simp_all add: ro_sectors_def length_zap_data length_pad_sectors dir_entries_of_def)
  have lens: "length (zap_data [(lit ''p'', 7)]) = 512" using names by (simp add: length_zap_data)
  show ?thesis
    unfolding wf_fs_def sample_fs_def wf_node_def wf_obj_def list.map comp_def sectors list.pred_inject fs_node.case
    using names by (simp add: length_zap_data length_pad_sectors dir_entries_of_def lens lit_def)
qed

definition sample_image :: bytes where
  "sample_image = replicate 0x400000 0 @ [] @ region 0 (fs_objs sample_fs) @ []"

definition sample_objset :: objset where
  "sample_objset = (case objset_parse (objset_bytes 0 DMU_OST_ZFS (fs_objs sample_fs)) Little of Inr os \<Rightarrow> os)"

lemma node_sectors: "wf_node n nd \<Longrightarrow> ro_sectors (node_obj nd) \<le> 65535"
  by (simp add: wf_node_def wf_obj_def)

lemma fs_region_sectors: "wf_fs fs \<Longrightarrow> region_sectors (fs_objs fs) \<le> 10 + 65536 * length fs"
proof -
  assume "wf_fs fs"
  then have "list_all (wf_node (length fs)) fs" by (simp add: wf_fs_def)
  then have "sum_list (map (ro_sectors \<circ> node_obj) gs) \<le> 65535 * length gs" if "set gs \<subseteq> set fs" for gs
    using that by (induction gs) (auto simp: list_all_iff dest!: node_sectors)
  from this [of fs] have "sum_list (map ro_sectors (fs_objs fs)) \<le> 5 + 65535 * length fs"
    by (simp add: fs_objs_def wf_sys_objs)
  moreover have "length (fs_objs fs) = 4 + length fs" by (simp add: fs_objs_def)
  ultimately show ?thesis by (simp add: region_sectors_def)
qed

lemma sample_fs_on: "fs_on sample_image 0 sample_fs sample_objset"
proof -
  have wf: "wf_objs 0 (fs_objs sample_fs)"
    using wf_fs_objs [OF wf_sample_fs, of 0] fs_region_sectors [OF wf_sample_fs] by (simp add: sample_fs_def)
  have "sector_at sample_image 0 (region 0 (fs_objs sample_fs))"
    unfolding sample_image_def by (rule sector_at_image) simp_all
  from objset_parse_bytes [OF wf this, of DMU_OST_ZFS] show ?thesis
    using wf_sample_fs by (auto simp: fs_on_def sample_objset_def)
qed

lemma formatted_path_reads_back_witness:
  "zpl_read_path no_codecs sample_image sample_objset (lit ''/etc/a'') = Inr [104, 105]"
proof -
  have "path_of [lit ''etc'', lit ''a''] = lit ''/etc/a''" "plain_names [lit ''etc'', lit ''a'']"
    by (simp_all add: path_of_def plain_names_def lit_def)
  moreover have "fs_walk sample_fs 0 [lit ''etc'', lit ''a''] = Some 2" by (simp add: sample_fs_def)
  ultimately show ?thesis
    using formatted_path_reads_back [OF sample_fs_on, of "[lit ''etc'', lit ''a'']" 2 no_codecs "[104, 105]"]
    by (simp add: sample_fs_def)
qed

text \<open>
  C38. A regular file whose bytes form a ZAP block is listed like a directory, dirent types masked
  off, and path lookup and reading go on through it: a path that leads to the file and then names one
  of those entries resolves to the object the entry refers to and reads its content.
\<close>

theorem directory_listing_ignores_type:
  assumes "fs_on img b fs os" and "fs_walk fs 0 names = Some j" and "plain_names (names @ [n])"
    and "fs ! j = FFile (zap_data zs)" and "list_all (\<lambda>e. wf_zap_name (fst e)) zs"
    and "find_name n zs = Some v" and "v AND ZPL_DIRENT_OBJ_MASK = node_id c" and "c < length fs"
  shows "zpl_list_dir x img os (node_id j) = map (\<lambda>(n, v). (n, v AND ZPL_DIRENT_OBJ_MASK)) zs \<and>
    zpl_lookup x img os (path_of (names @ [n])) = Some (node_id c, node_attrs (fs ! c)) \<and>
    (fs ! c = FFile bs \<longrightarrow> zpl_read_path x img os (path_of (names @ [n])) = Inr bs)"
proof -
  have root: "0 < length fs" using assms(1) by (simp add: fs_on_def wf_fs_def)
  note walk = fs_descend [OF assms(1) root assms(2), of x]
  have list: "zpl_list_dir x img os (node_id j) = map (\<lambda>(n, v). (n, v AND ZPL_DIRENT_OBJ_MASK)) zs"
    using walk by (intro fs_list_file [OF assms(1) _ assms(4,5)]) simp
  have "find_name n (map (\<lambda>(n, v). (n, v AND ZPL_DIRENT_OBJ_MASK)) zs) = Some (node_id c)"
    using find_name_map_val [of n "\<lambda>v. v AND ZPL_DIRENT_OBJ_MASK" zs] assms(6,7) by simp
  then have "zpl_descend x img os (node_id 0) (names @ [n]) = Some (node_id c)"
    using walk by (simp add: zpl_descend_append list)
  then have lookup: "zpl_lookup x img os (path_of (names @ [n])) = Some (node_id c, node_attrs (fs ! c))"
    using fs_master [OF assms(1), of x] fs_attrs [OF assms(1,8), of x]
    by (simp add: zpl_lookup_def path_components_path_of [OF assms(3)])
  then show ?thesis
    using list fs_read_file [OF assms(1,8), of bs x] by (auto simp: zpl_read_path_def node_attrs_def)
qed

lemma directory_listing_ignores_type_witness:
  "zpl_read_path no_codecs sample_image sample_objset (path_of [lit ''etc'', lit ''z'', lit ''p'']) = Inr [104, 105]"
proof -
  have "fs_walk sample_fs 0 [lit ''etc'', lit ''z''] = Some 3" by (simp add: sample_fs_def lit_def)
  from directory_listing_ignores_type [OF sample_fs_on this, of "lit ''p''" "[(lit ''p'', 7)]" 7 2 no_codecs "[104, 105]"]
  show ?thesis
    by (simp add: sample_fs_def node_id_def plain_names_def wf_zap_name_def lit_def valid_utf8_ascii ZPL_DIRENT_OBJ_MASK_def)
qed

lemma zpl_read_file_content_witness:
  "zpl_read_file_with no_codecs sample_image sample_objset (node_id 2) None = Inr ([104, 105] @ replicate 510 0) \<and>
   zpl_read_file_with no_codecs sample_image sample_objset (node_id 2) (Some 1) = Inr [104]"
proof -
  obtain dn where dn: "mos_dnode no_codecs sample_image sample_objset (node_id 2) = Some dn" "0 < data_block_size dn"
      "object_tree no_codecs sample_image dn [[[104, 105] @ replicate 510 0]]" "dn_maxblkid dn = 0"
    using fs_node_object [OF sample_fs_on, of 2 no_codecs] by (auto simp: obj_dnode_def sample_fs_def pad_sectors_def)
  from zpl_read_file_content [OF dn(1-3), of 1] dn(4) show ?thesis by (simp add: take_Cons' max_def)
qed

end
