(* ===== verification/Zfs_Xattr.thy ===== *)
theory Zfs_Xattr
  imports Zfs_Mkfs Zfs_Nvlist
begin

section \<open>Extended attributes (core/src/xattr.rs)\<close>

text \<open>
  Both storage modes: the packed nvlist of the \<^verbatim>\<open>ZPL_DXATTR\<close> attribute and the hidden attribute
  directory named by \<^verbatim>\<open>ZPL_XATTR\<close>.
\<close>

definition DNODE_FLAG_SPILL_BLKPTR :: u8 where "DNODE_FLAG_SPILL_BLKPTR = push_bit 2 1"
definition ZPL_DXATTR :: rstr where "ZPL_DXATTR = lit ''ZPL_DXATTR''"
definition ZPL_XATTR :: rstr where "ZPL_XATTR = lit ''ZPL_XATTR''"

record xattr =
  xa_name :: rstr
  xa_value :: bytes

definition dxattr_pairs :: "bytes \<Rightarrow> xattr list" where
  "dxattr_pairs packed =
     (case nvlist_parse packed of
        Inl _ \<Rightarrow> []
      | Inr nv \<Rightarrow> List.map_filter (\<lambda>p. case snd p of
            NvBytes b \<Rightarrow> Some \<lparr>xa_name = fst p, xa_value = b\<rparr> | _ \<Rightarrow> None) (nv_pairs nv))"

definition sa_xattrs :: "ext \<Rightarrow> bytes \<Rightarrow> objset \<Rightarrow> dnode \<Rightarrow> xattr list" where
  "sa_xattrs x img zpl dn =
     (case zpl_sa_context x img zpl of
        None \<Rightarrow> []
      | Some (reg, layouts) \<Rightarrow>
          (case sa_attr_bytes (dn_bonus dn) reg layouts ZPL_DXATTR of
             None \<Rightarrow> []
           | Some packed \<Rightarrow> dxattr_pairs packed))"

definition xattr_dir_object :: "bytes \<Rightarrow> u64 option" where
  "xattr_dir_object raw = do {
     bs \<leftarrow> slice_get raw 0 8;
     (let obj = from_le_bytes bs in if obj = 0 then None else Some obj)
   }"

definition dir_xattrs :: "ext \<Rightarrow> bytes \<Rightarrow> objset \<Rightarrow> dnode \<Rightarrow> xattr list" where
  "dir_xattrs x img zpl dn =
     (case zpl_sa_context x img zpl of
        None \<Rightarrow> []
      | Some (reg, layouts) \<Rightarrow>
          (case Option.bind (sa_attr_bytes (dn_bonus dn) reg layouts ZPL_XATTR) xattr_dir_object of
             None \<Rightarrow> []
           | Some dir_obj \<Rightarrow>
               List.map_filter (\<lambda>(name, obj). do {
                 val \<leftarrow> res_ok (zpl_read_file x img zpl obj);
                 Some \<lparr>xa_name = name, xa_value = val\<rparr> }) (zpl_list_dir x img zpl dir_obj)))"

definition list_xattrs :: "ext \<Rightarrow> bytes \<Rightarrow> objset \<Rightarrow> u64 \<Rightarrow> xattr list" where
  "list_xattrs x img zpl object_id =
     (case mos_dnode x img zpl object_id of
        None \<Rightarrow> []
      | Some dn \<Rightarrow>
          (let out = sa_xattrs x img zpl dn in
           if out = [] then dir_xattrs x img zpl dn else out))"

definition has_unread_spill_xattrs :: "ext \<Rightarrow> bytes \<Rightarrow> objset \<Rightarrow> u64 \<Rightarrow> bool" where
  "has_unread_spill_xattrs x img zpl object_id =
     (case mos_dnode x img zpl object_id of
        None \<Rightarrow> False
      | Some dn \<Rightarrow> dn_flags dn AND DNODE_FLAG_SPILL_BLKPTR \<noteq> 0 \<and> sa_xattrs x img zpl dn = [])"

subsection \<open>Properties\<close>

lemma dxattr_pairs_encode:
  assumes "wf_nvlist l" and "length (nvlist_encode l @ rest) < 2 ^ 63"
  shows "dxattr_pairs (nvlist_encode l @ rest) =
    map (\<lambda>p. case snd p of NvBytes b \<Rightarrow> \<lparr>xa_name = fst p, xa_value = b\<rparr>)
      (filter (\<lambda>p. \<exists>b. snd p = NvBytes b) (nv_pairs l))"
proof -
  have "List.map_filter (\<lambda>p. case snd p of NvBytes b \<Rightarrow> Some \<lparr>xa_name = fst p, xa_value = b\<rparr> | _ \<Rightarrow> None) ps =
      map (\<lambda>p. case snd p of NvBytes b \<Rightarrow> \<lparr>xa_name = fst p, xa_value = b\<rparr>) (filter (\<lambda>p. \<exists>b. snd p = NvBytes b) ps)" for ps
    by (induction ps) (auto simp: List.map_filter_def split: nv_value.splits)
  then show ?thesis using nvlist_parse_encode [OF assms] by (simp add: dxattr_pairs_def)
qed

text \<open>
  The attributes of a packed nvlist are exactly its byte-array pairs, in order and with their
  values unchanged; a pair of any other type is left out, not reported empty.
\<close>

lemma dxattr_round_trip:
  assumes "wf_nvlist l" and "length (nvlist_encode l @ rest) < 2 ^ 63"
  shows "map xa_name (dxattr_pairs (nvlist_encode l @ rest)) = map fst (filter (\<lambda>p. \<exists>b. snd p = NvBytes b) (nv_pairs l)) \<and>
    map (NvBytes \<circ> xa_value) (dxattr_pairs (nvlist_encode l @ rest)) = map snd (filter (\<lambda>p. \<exists>b. snd p = NvBytes b) (nv_pairs l))"
  unfolding dxattr_pairs_encode [OF assms] by (auto split: nv_value.splits)

definition sample_xattrs :: nvlist where
  "sample_xattrs = NvList [(lit ''user.a'', NvBytes [1, 2, 3]), (lit ''n'', NvU64 7), (lit ''user.b'', NvBytes [])]"

lemma dxattr_round_trip_witness:
  "map xa_name (dxattr_pairs (nvlist_encode sample_xattrs @ [])) = [lit ''user.a'', lit ''user.b''] \<and>
   map (NvBytes \<circ> xa_value) (dxattr_pairs (nvlist_encode sample_xattrs @ [])) = [NvBytes [1, 2, 3], NvBytes []]"
proof -
  have "wf_nvlist sample_xattrs"
    by (simp add: sample_xattrs_def wf_nvlist_def length_pair_bytes length_xdr_pad lit_def valid_utf8_ascii xdr_string_def)
  moreover have "length (nvlist_encode sample_xattrs @ []) < 2 ^ 63"
    by (simp add: nvlist_encode_def sample_xattrs_def length_pair_bytes length_xdr_pad xdr_string_def)
  ultimately show ?thesis
    using dxattr_round_trip [of sample_xattrs "[]"] by (simp add: sample_xattrs_def)
qed

end
