(* ===== verification/Zfs_Pool.thy ===== *)
theory Zfs_Pool
  imports Zfs_Mkfs Zfs_Label
begin

section \<open>A reference pool\<close>

text \<open>
  The formatter for a whole pool: the MOS with its object directory, DSL directory and one DSL
  dataset per file system (the live one first, its snapshots after it, newest first), and the file
  systems behind it. The lemmas read the pool back down to the ZPL object set of every dataset.
\<close>

definition dataset_bonus :: "u64 \<Rightarrow> blkptr \<Rightarrow> bytes" where
  "dataset_bonus prev bp = replicate 8 0 @ to_le_bytes 8 prev @ replicate 112 0 @ blkptr_encode Little [0, 0, 0] bp"

text \<open>Dataset \<open>j\<close> is MOS object \<open>3 + j\<close>; each refers to the next older one, the last to none.\<close>

definition dataset_id :: "nat \<Rightarrow> u64" where
  "dataset_id j = of_nat (3 + j)"

definition prev_id :: "nat \<Rightarrow> nat \<Rightarrow> u64" where
  "prev_id n j = (if Suc j < n then dataset_id (Suc j) else 0)"

definition dataset_obj :: "u64 \<Rightarrow> nat \<Rightarrow> raw_obj" where
  "dataset_obj prev c = \<lparr>ro_type = 16, ro_bonustype = 18, ro_bonus = dataset_bonus prev (sector_ptr c 2),
     ro_data = replicate 512 0\<rparr>"

fun fs_starts :: "nat \<Rightarrow> fs_node list list \<Rightarrow> nat list" where
  "fs_starts c [] = []"
| "fs_starts c (fs # fss) = c # fs_starts (c + 2 + region_sectors (fs_objs fs)) fss"

fun fs_bodies :: "nat \<Rightarrow> fs_node list list \<Rightarrow> bytes" where
  "fs_bodies c [] = []"
| "fs_bodies c (fs # fss) =
     objset_bytes (c + 2) DMU_OST_ZFS (fs_objs fs) @ region (c + 2) (fs_objs fs) @
     fs_bodies (c + 2 + region_sectors (fs_objs fs)) fss"

fun fss_end :: "nat \<Rightarrow> fs_node list list \<Rightarrow> nat" where
  "fss_end c [] = c"
| "fss_end c (fs # fss) = fss_end (c + 2 + region_sectors (fs_objs fs)) fss"

definition first_fs :: "nat \<Rightarrow> nat" where
  "first_fs n = 7 + 2 * n"

definition mos_objs :: "fs_node list list \<Rightarrow> raw_obj list" where
  "mos_objs fss =
     [zap_obj (zap_data [(lit ''root_dataset'', 2)]),
      \<lparr>ro_type = 12, ro_bonustype = 12, ro_bonus = replicate 8 0 @ to_le_bytes 8 (dataset_id 0), ro_data = replicate 512 0\<rparr>] @
     map (\<lambda>j. dataset_obj (prev_id (length fss) j) (fs_starts (first_fs (length fss)) fss ! j)) [0..<length fss]"

definition pool_body :: "fs_node list list \<Rightarrow> bytes" where
  "pool_body fss = objset_bytes 2 DMU_OST_META (mos_objs fss) @ region 2 (mos_objs fss) @
     fs_bodies (first_fs (length fss)) fss"

definition wf_pool :: "fs_node list list \<Rightarrow> bool" where
  "wf_pool fss \<longleftrightarrow> fss \<noteq> [] \<and> length fss < 60000 \<and> list_all wf_fs fss \<and> fss_end (first_fs (length fss)) fss < 2 ^ 40"

text \<open>The pool lies on the image, and the first label leads to it.\<close>

definition pool_on :: "bytes \<Rightarrow> fs_node list list \<Rightarrow> vdev_label \<Rightarrow> bool" where
  "pool_on img fss lab \<longleftrightarrow> wf_pool fss \<and> sector_at img 0 (pool_body fss) \<and>
     (\<exists>l0. slice_get img 0 LABEL_SIZE = Some l0 \<and> vdev_label_parse l0 = Inr lab) \<and>
     ub_endian (vl_active_uberblock lab) = Little \<and> rootbp_full (vl_active_uberblock lab) = sector_ptr 0 2"

lemma length_dataset_bonus: "c < 2 ^ 40 \<Longrightarrow> length (dataset_bonus prev (sector_ptr c 2)) = 256"
  using wf_sector_ptr [of 2 c] by (simp add: dataset_bonus_def length_blkptr_encode)

lemma length_fs_starts [simp]: "length (fs_starts c fss) = length fss"
  by (induction fss arbitrary: c) simp_all

lemma fss_end_ge: "c \<le> fss_end c fss"
  by (induction fss arbitrary: c) (simp, metis add.assoc add_leD1 fss_end.simps(2))

lemma fs_starts_bound: "j < length fss \<Longrightarrow> fs_starts c fss ! j + 2 + region_sectors (fs_objs (fss ! j)) \<le> fss_end c fss"
proof (induction fss arbitrary: c j)
  case (Cons fs fss)
  then show ?case using fss_end_ge [of "c + 2 + region_sectors (fs_objs fs)" fss] by (cases j) simp_all
qed simp

lemma mos_objs_wf:
  assumes "wf_pool fss"
  shows "list_all wf_obj (mos_objs fss)" "length (mos_objs fss) = 2 + length fss"
    "region_sectors (mos_objs fss) = 5 + 2 * length fss"
proof -
  let ?d = "\<lambda>j. dataset_obj (prev_id (length fss) j) (fs_starts (first_fs (length fss)) fss ! j)"
  have c: "fs_starts (first_fs (length fss)) fss ! j < 2 ^ 40" if "j < length fss" for j
    using fs_starts_bound [OF that, of "first_fs (length fss)"] assms by (simp add: wf_pool_def)
  have ds: "wf_obj (?d j)" if "j < length fss" for j
    using c [OF that] by (simp add: dataset_obj_def wf_obj_def ro_sectors_def length_dataset_bonus)
  have "wf_zap_name (lit ''root_dataset'')" by (simp add: wf_zap_name_def lit_def valid_utf8_ascii)
  then have z: "length (zap_data [(lit ''root_dataset'', 2)]) = 512" by (simp add: length_zap_data)
  let ?dir = "\<lparr>ro_type = 12, ro_bonustype = 12, ro_bonus = replicate 8 0 @ to_le_bytes 8 (dataset_id 0), ro_data = replicate 512 0\<rparr>"
  have "wf_obj (zap_obj (zap_data [(lit ''root_dataset'', 2)]))" by (rule wf_zap_obj [of _ 1]) (simp_all add: z)
  moreover have "wf_obj ?dir" by (simp add: wf_obj_def ro_sectors_def)
  ultimately show "list_all wf_obj (mos_objs fss)"
    using ds unfolding mos_objs_def by (auto simp: list_all_iff)
  show "length (mos_objs fss) = 2 + length fss" by (simp add: mos_objs_def)
  have "sum_list (map (\<lambda>j. ro_sectors (?d j)) [0..<n]) = n" for n
    by (induction n) (simp_all add: dataset_obj_def ro_sectors_def)
  moreover have "ro_sectors (zap_obj (zap_data [(lit ''root_dataset'', 2)])) = 1" "ro_sectors ?dir = 1"
    using z by (simp_all add: ro_sectors_def zap_obj_def)
  ultimately show "region_sectors (mos_objs fss) = 5 + 2 * length fss"
    by (simp add: region_sectors_def mos_objs_def comp_def)
qed

lemma fs_bodies_on:
  assumes "sector_at img c (fs_bodies c fss)" and "list_all wf_fs fss" and "fss_end c fss < 2 ^ 40" and "j < length fss"
  defines "b \<equiv> fs_starts c fss ! j + 2"
  shows "sector_at img (fs_starts c fss ! j) (objset_bytes b DMU_OST_ZFS (fs_objs (fss ! j))) \<and>
    wf_objs b (fs_objs (fss ! j)) \<and> sector_at img b (region b (fs_objs (fss ! j)))"
  using assms(1-4) unfolding b_def
proof (induction fss arbitrary: c j)
  case (Cons fs fss)
  let ?r = "region_sectors (fs_objs fs)"
  have wf: "wf_objs (c + 2) (fs_objs fs)"
    using Cons.prems(2,3) fss_end_ge [of "c + 2 + ?r" fss] by (intro wf_fs_objs) simp_all
  note l = length_objset_bytes [OF wf, of DMU_OST_ZFS] length_region [OF wf]
  have o: "length (objset_bytes (c + 2) DMU_OST_ZFS (fs_objs fs)) = 512 * 2" using l(1) by simp
  have at: "sector_at img c (objset_bytes (c + 2) DMU_OST_ZFS (fs_objs fs))"
      "sector_at img (c + 2) (region (c + 2) (fs_objs fs))"
      "sector_at img (c + 2 + ?r) (fs_bodies (c + 2 + ?r) fss)"
    using Cons.prems(1) by (simp_all add: sector_at_append [OF o] sector_at_append [OF l(2)] del: add_2_eq_Suc add_2_eq_Suc')
  show ?case
  proof (cases j)
    case 0
    then show ?thesis using at wf by simp
  next
    case (Suc i)
    then show ?thesis using Cons.IH [OF at(3), of i] Cons.prems by simp
  qed
qed simp

subsection \<open>Reading the pool\<close>

lemma dataset_bonus_fields:
  assumes "dn_bonus dn = dataset_bonus prev (sector_ptr c 2)" and "dn_endian dn = Little" and "c < 2 ^ 40"
  shows "dsl_dataset_prev_snap dn = prev" "dsl_dataset_bp dn = sector_ptr c 2"
proof -
  have wf: "wf_blkptr (sector_ptr c 2)" using assms(3) by (intro wf_sector_ptr) simp_all
  show "dsl_dataset_prev_snap dn = prev"
    using le64.read_enc_at' [of 8 "replicate 8 0" prev]
    by (simp add: dsl_dataset_prev_snap_def DS_PREV_SNAP_OBJ_def assms(1) dataset_bonus_def)
  let ?b = "blkptr_encode Little [0, 0, 0] (sector_ptr c 2)" and ?pre = "replicate 8 0 @ to_le_bytes 8 prev @ replicate 112 0"
  have "length ?b = 128" using wf by (simp add: length_blkptr_encode)
  then have "slice_get (?pre @ ?b @ []) 128 256 = Some ?b"
    using slice_get_prefix [of ?b 128 ?pre "[]"] by simp
  then show "dsl_dataset_bp dn = sector_ptr c 2"
    using blkptr_parse_encode [OF wf, of "[0, 0, 0]" Little "[]"]
    by (simp add: dsl_dataset_bp_def DS_BP_OFFSET_def assms(1,2) dataset_bonus_def)
qed

lemma wf_mos_objs: "wf_pool fss \<Longrightarrow> wf_objs 2 (mos_objs fss)"
proof -
  assume wf: "wf_pool fss"
  have "first_fs (length fss) < 2 ^ 40" using wf fss_end_ge [of "first_fs (length fss)" fss] by (simp add: wf_pool_def)
  then show ?thesis using mos_objs_wf [OF wf] wf by (simp add: wf_objs_def wf_pool_def first_fs_def)
qed

lemma pool_body_on:
  assumes "wf_pool fss" and "sector_at img 0 (pool_body fss)"
  shows "sector_at img 0 (objset_bytes 2 DMU_OST_META (mos_objs fss))" "sector_at img 2 (region 2 (mos_objs fss))"
    "sector_at img (first_fs (length fss)) (fs_bodies (first_fs (length fss)) fss)"
proof -
  note wf = wf_mos_objs [OF assms(1)]
  have o: "length (objset_bytes 2 DMU_OST_META (mos_objs fss)) = 512 * 2"
    and r: "length (region 2 (mos_objs fss)) = 512 * (5 + 2 * length fss)"
    using length_objset_bytes [OF wf] length_region [OF wf] mos_objs_wf(3) [OF assms(1)] by simp_all
  have "0 + 2 + (5 + 2 * length fss) = first_fs (length fss)" by (simp add: first_fs_def)
  then show "sector_at img 0 (objset_bytes 2 DMU_OST_META (mos_objs fss))" "sector_at img 2 (region 2 (mos_objs fss))"
    "sector_at img (first_fs (length fss)) (fs_bodies (first_fs (length fss)) fss)"
    using assms(2) unfolding pool_body_def sector_at_append [OF o] sector_at_append [OF r]
    by (simp_all del: add_2_eq_Suc add_2_eq_Suc')
qed

definition mos_on :: "bytes \<Rightarrow> fs_node list list \<Rightarrow> objset \<Rightarrow> bool" where
  "mos_on img fss mos \<longleftrightarrow> wf_pool fss \<and> sector_at img 0 (pool_body fss) \<and> objset_on img 2 (mos_objs fss) mos"

lemma pool_mos:
  assumes "wf_pool fss" and "sector_at img 0 (pool_body fss)"
  shows "\<exists>blk mos. read_block x img (sector_ptr 0 2) = Inr blk \<and> objset_parse (blk_data blk) Little = Inr mos \<and> mos_on img fss mos"
proof -
  note at = pool_body_on [OF assms] and wf = wf_mos_objs [OF assms(1)]
  have "length (objset_bytes 2 DMU_OST_META (mos_objs fss)) = 512 * 2" using length_objset_bytes [OF wf] by simp
  from read_sector_ptr [OF _ _ _ at(1) this, of x] objset_parse_bytes [OF wf at(2), of DMU_OST_META] assms
  show ?thesis by (auto simp: mos_on_def)
qed

lemma fs_start_bound:
  "wf_pool fss \<Longrightarrow> j < length fss \<Longrightarrow> fs_starts (first_fs (length fss)) fss ! j < 2 ^ 40"
  using fs_starts_bound [of j fss "first_fs (length fss)"] by (simp add: wf_pool_def)

lemma pool_dataset:
  assumes "mos_on img fss mos" and "j < length fss"
  shows "\<exists>dn. mos_dnode x img mos (dataset_id j) = Some dn \<and> dn_endian dn = Little \<and>
    dsl_dataset_prev_snap dn = prev_id (length fss) j \<and>
    dsl_dataset_bp dn = sector_ptr (fs_starts (first_fs (length fss)) fss ! j) 2"
proof -
  have "mos_objs fss ! (2 + j) = dataset_obj (prev_id (length fss) j) (fs_starts (first_fs (length fss)) fss ! j)"
    using assms(2) by (simp add: mos_objs_def del: upt_Suc)
  moreover have "2 + j < length (mos_objs fss)" using assms by (simp add: mos_objs_wf mos_on_def)
  moreover have "dataset_id j = of_nat (Suc (2 + j))" by (simp add: dataset_id_def)
  ultimately obtain dn where "mos_dnode x img mos (dataset_id j) = Some dn" "dn_endian dn = Little"
      "dn_bonus dn = dataset_bonus (prev_id (length fss) j) (sector_ptr (fs_starts (first_fs (length fss)) fss ! j) 2)"
    using mkfs_mos_dnode [of img 2 "mos_objs fss" mos "2 + j" x] assms(1)
    by (auto simp: mos_on_def obj_dnode_def dataset_obj_def)
  then show ?thesis
    using dataset_bonus_fields [of dn] fs_start_bound assms by (auto simp: mos_on_def)
qed

lemma pool_fs:
  assumes "mos_on img fss mos" and "j < length fss"
  shows "\<exists>blk os. read_block x img (sector_ptr (fs_starts (first_fs (length fss)) fss ! j) 2) = Inr blk \<and>
    objset_parse (blk_data blk) Little = Inr os \<and> os_type os = DMU_OST_ZFS \<and>
    fs_on img (fs_starts (first_fs (length fss)) fss ! j + 2) (fss ! j) os"
proof -
  let ?c = "fs_starts (first_fs (length fss)) fss ! j"
  have wf: "wf_pool fss" and body: "sector_at img 0 (pool_body fss)" using assms(1) by (simp_all add: mos_on_def)
  have fs: "sector_at img ?c (objset_bytes (?c + 2) DMU_OST_ZFS (fs_objs (fss ! j)))"
      "wf_objs (?c + 2) (fs_objs (fss ! j))" "sector_at img (?c + 2) (region (?c + 2) (fs_objs (fss ! j)))"
    using fs_bodies_on [OF pool_body_on(3) [OF wf body] _ _ assms(2)] wf by (simp_all add: wf_pool_def)
  have "length (objset_bytes (?c + 2) DMU_OST_ZFS (fs_objs (fss ! j))) = 512 * 2"
    using length_objset_bytes [OF fs(2)] by simp
  from read_sector_ptr [OF _ _ fs_start_bound [OF wf assms(2)] fs(1) this, of x]
    objset_parse_bytes [OF fs(2,3), of DMU_OST_ZFS]
  show ?thesis using wf assms(2) by (auto simp: fs_on_def wf_pool_def list_all_length)
qed

lemma pool_directory:
  assumes "mos_on img fss mos"
  shows "\<exists>objdir dsl_dir. mos_dnode x img mos 1 = Some objdir \<and>
    (\<exists>data. read_zap_object x img objdir = Inr data \<and> zap_lookup data (lit ''root_dataset'') = Some 2) \<and>
    mos_dnode x img mos 2 = Some dsl_dir \<and> dsl_dir_head_dataset dsl_dir = dataset_id 0"
proof -
  have n: "mos_objs fss \<noteq> []" "1 < length (mos_objs fss)" and on: "objset_on img 2 (mos_objs fss) mos"
    using assms mos_objs_wf(2) [of fss] by (auto simp: mos_on_def wf_pool_def)
  have name: "wf_zap_name (lit ''root_dataset'')" by (simp add: wf_zap_name_def lit_def valid_utf8_ascii)
  obtain d1 where d1: "mos_dnode x img mos 1 = Some d1" "read_zap_object x img d1 = Inr (ro_data (mos_objs fss ! 0))"
    using mkfs_object [OF on, of 0 x] n by auto
  obtain d2 where d2: "mos_dnode x img mos 2 = Some d2" "dn_bonus d2 = replicate 8 0 @ to_le_bytes 8 (dataset_id 0)"
    using mkfs_mos_dnode [OF on, of 1 x] n by (auto simp: obj_dnode_def mos_objs_def)
  have "zap_list (ro_data (mos_objs fss ! 0)) = [(lit ''root_dataset'', 2)]"
    using zap_list_data [of "[(lit ''root_dataset'', 2)]"] name by (simp add: mos_objs_def zap_obj_def)
  moreover have "dsl_dir_head_dataset d2 = dataset_id 0"
    using le64.read_enc_at' [of 8 "replicate 8 0" "dataset_id 0" "[]"]
    by (simp add: dsl_dir_head_dataset_def DD_HEAD_DATASET_OBJ_def d2)
  ultimately show ?thesis using d1 d2 by (auto simp: zap_lookup_def)
qed

lemma unat_dataset_id: "j < 2 ^ 32 \<Longrightarrow> unat (dataset_id j) = 3 + j"
  unfolding dataset_id_def by (subst unat_of_nat) (rule mod_less, simp)

lemma dataset_id_nz: "j < 2 ^ 32 \<Longrightarrow> dataset_id j \<noteq> 0"
  using unat_dataset_id [of j] by auto

lemma dataset_id_inj: "i < 2 ^ 32 \<Longrightarrow> j < 2 ^ 32 \<Longrightarrow> dataset_id i = dataset_id j \<longleftrightarrow> i = j"
  by (metis add_left_cancel unat_dataset_id)

lemma pool_zpl_objset:
  assumes "mos_on img fss mos"
  shows "\<exists>os. zpl_objset x img mos = Some os \<and> os_type os = DMU_OST_ZFS \<and> fs_on img (first_fs (length fss) + 2) (fss ! 0) os"
proof -
  have n: "0 < length fss" and le: "os_endian mos = Little"
    using assms by (simp_all add: mos_on_def wf_pool_def objset_on_def)
  have c: "fs_starts (first_fs (length fss)) fss ! 0 = first_fs (length fss)" using n by (cases fss) simp_all
  obtain dn where "mos_dnode x img mos (dataset_id 0) = Some dn" "dsl_dataset_bp dn = sector_ptr (first_fs (length fss)) 2"
    using pool_dataset [OF assms n, of x] c by auto
  moreover obtain blk os where "read_block x img (sector_ptr (first_fs (length fss)) 2) = Inr blk"
      "objset_parse (blk_data blk) Little = Inr os" "os_type os = DMU_OST_ZFS" "fs_on img (first_fs (length fss) + 2) (fss ! 0) os"
    using pool_fs [OF assms n, of x] c by auto
  ultimately show ?thesis
    using pool_directory [OF assms, of x] dataset_id_nz [of 0] le
    by (auto simp: zpl_objset_def Let_def)
qed

subsection \<open>A pool image\<close>

text \<open>The whole image of a pool: a label in front, the boot area, then the pool.\<close>

definition pool_image :: "fs_node list list \<Rightarrow> bytes" where
  "pool_image fss = root_label (sector_ptr 0 2) @ replicate 3932160 0 @ pool_body fss"

lemma pool_image_on:
  assumes "wf_pool fss"
  shows "pool_on (pool_image fss) fss (root_vdev_label (sector_ptr 0 2))"
proof -
  let ?bp = "sector_ptr 0 2"
  have bp: "wf_blkptr ?bp" by (intro wf_sector_ptr) simp_all
  note lab = root_label_facts [OF bp]
  let ?front = "root_label ?bp @ replicate 3932160 0"
  have "sector_at (?front @ [] @ pool_body fss @ []) 0 (pool_body fss)"
    using lab(1) by (intro sector_at_image) (simp_all add: LABEL_SIZE_def)
  then have "sector_at (pool_image fss) 0 (pool_body fss)" by (simp add: pool_image_def)
  moreover have "slice_get (pool_image fss) 0 LABEL_SIZE = Some (root_label ?bp)"
    using lab(1) by (simp add: slice_get_def pool_image_def)
  ultimately show ?thesis
    using assms lab(2) by (simp add: pool_on_def root_vdev_label_def rootbp_root_uberblock [OF bp])
qed


text \<open>
  A live tree that kept one file, a snapshot that also holds a second, and an older one with an
  earlier version of the second and a third.
\<close>

definition sample_pool :: "fs_node list list" where
  "sample_pool =
     [[FDir [(lit ''keep'', 8, 1)], FFile [1]],
      [FDir [(lit ''keep'', 8, 1), (lit ''gone'', 8, 2)], FFile [1], FFile [104, 105]],
      [FDir [(lit ''gone'', 8, 1), (lit ''old'', 8, 2)], FFile [104], FFile [7, 8, 9]]]"

lemma wf_sample_pool: "wf_pool sample_pool"
proof -
  have names: "wf_zap_name (lit ''keep'')" "wf_zap_name (lit ''gone'')" "wf_zap_name (lit ''old'')"
    by (simp_all add: wf_zap_name_def lit_def valid_utf8_ascii)
  have wf: "list_all wf_fs sample_pool"
    using names by (simp add: sample_pool_def wf_fs_def wf_node_def wf_obj_def ro_sectors_def length_zap_data length_pad_sectors
      dir_entries_of_def lit_def)
  then have r: "region_sectors (fs_objs (sample_pool ! j)) \<le> 10 + 65536 * length (sample_pool ! j)" if "j < 3" for j
    using that fs_region_sectors by (simp add: list_all_length sample_pool_def)
  have "fss_end (first_fs 3) sample_pool < 2 ^ 40"
    using r [of 0] r [of 1] r [of 2] by (simp add: sample_pool_def first_fs_def)
  moreover have "length sample_pool = 3" "sample_pool \<noteq> []" by (simp_all add: sample_pool_def)
  ultimately show ?thesis using wf by (simp add: wf_pool_def)
qed

end
