(* ===== verification/Zfs_Forensic.thy ===== *)
theory Zfs_Forensic
  imports Zfs_Zpl Zfs_Label
begin

section \<open>The auditor and snapshot recovery (forensic/src/lib.rs)\<close>

text \<open>
  The anomaly kinds with their codes, notes and evidence, the image audit (root checksum, label
  divergence, meta-dnode sweep) and the recovery of deleted files from the snapshot chain. The
  report types are third-party: \<open>severity\<close>, \<open>location\<close> and \<open>evidence\<close> hold the variants and
  fields the source uses, and the conversion to a finding is a parameter.
\<close>

datatype severity = High

datatype location =
    LocOther rstr u64
  | LocByteOffset u64

record evidence =
  ev_field :: rstr
  ev_value :: rstr
  ev_location :: "location option"

record report_source =
  rs_analyzer :: rstr
  rs_scope :: rstr
  rs_version :: "rstr option"

subsection \<open>Anomalies\<close>

datatype anomaly_kind =
    UberblockChecksumMismatch u64 usize
  | LabelDivergence string usize rstr
  | BlkptrChecksumMismatch u64 u8
  | ImpossibleGeometry string u64 u64

fun kind_severity :: "anomaly_kind \<Rightarrow> severity" where
  "kind_severity (UberblockChecksumMismatch txg slot) = High"
| "kind_severity (LabelDivergence fld label reason) = High"
| "kind_severity (BlkptrChecksumMismatch dva_offset object_type) = High"
| "kind_severity (ImpossibleGeometry fld val limit) = High"

fun kind_code :: "anomaly_kind \<Rightarrow> string" where
  "kind_code (UberblockChecksumMismatch txg slot) = ''ZFS-UBERBLOCK-CHECKSUM-MISMATCH''"
| "kind_code (LabelDivergence fld label reason) = ''ZFS-LABEL-DIVERGENCE''"
| "kind_code (BlkptrChecksumMismatch dva_offset object_type) = ''ZFS-BLKPTR-CHECKSUM-MISMATCH''"
| "kind_code (ImpossibleGeometry fld val limit) = ''ZFS-IMPOSSIBLE-GEOMETRY''"

text \<open>The em dash of the notes, U+2014 in UTF-8.\<close>

definition em_dash :: rstr where "em_dash = [0xE2, 0x80, 0x94]"

definition dec_u64 :: "u64 \<Rightarrow> rstr" where "dec_u64 v = dec_digits (unat v)"

fun kind_note :: "anomaly_kind \<Rightarrow> rstr" where
  "kind_note (UberblockChecksumMismatch txg slot) =
     lit ''active uberblock (txg '' @ dec_u64 txg @ lit '', ring slot '' @ dec_digits slot @
     lit ''): ub_rootbp checksum does not verify against the MOS block it points at '' @ em_dash @
     lit '' consistent with corruption or post-write tampering of the pool root''"
| "kind_note (LabelDivergence fld label reason) =
     lit ''vdev label L'' @ dec_digits label @ lit '' '' @ lit fld @ lit '': '' @ reason @ lit '' '' @ em_dash @
     lit '' consistent with a torn or tampered vdev label''"
| "kind_note (BlkptrChecksumMismatch dva_offset object_type) =
     lit ''metadata block (DMU type '' @ dec_digits (unat object_type) @ lit '') at byte '' @ dec_u64 dva_offset @
     lit '': blkptr checksum does not verify '' @ em_dash @
     lit '' consistent with a dead, corrupt, or tampered block''"
| "kind_note (ImpossibleGeometry fld val limit) =
     lit ''geometry field '' @ lit fld @ lit '' = '' @ dec_u64 val @ lit '' exceeds the sane bound '' @ dec_u64 limit @
     lit '' for this image '' @ em_dash @ lit '' consistent with corruption or an allocation-bomb''"

fun kind_evidence :: "anomaly_kind \<Rightarrow> evidence list" where
  "kind_evidence (UberblockChecksumMismatch txg slot) =
     [\<lparr>ev_field = lit ''ub_rootbp'',
       ev_value = lit ''txg '' @ dec_u64 txg @ lit '' slot '' @ dec_digits slot @ lit '': checksum mismatch'',
       ev_location = Some (LocOther (lit ''zfs:uberblock_slot'') (of_nat slot))\<rparr>]"
| "kind_evidence (LabelDivergence fld label reason) =
     [\<lparr>ev_field = lit fld, ev_value = lit ''L'' @ dec_digits label @ lit '': '' @ reason,
       ev_location = Some (LocOther (lit ''zfs:vdev_label'') (of_nat label))\<rparr>]"
| "kind_evidence (BlkptrChecksumMismatch dva_offset object_type) =
     [\<lparr>ev_field = lit ''blkptr'', ev_value = lit ''DMU type '' @ dec_digits (unat object_type),
       ev_location = Some (LocByteOffset dva_offset)\<rparr>]"
| "kind_evidence (ImpossibleGeometry fld val limit) =
     [\<lparr>ev_field = lit fld, ev_value = dec_u64 val @ lit '' (limit '' @ dec_u64 limit @ lit '')'', ev_location = None\<rparr>]"

record anomaly =
  an_severity :: severity
  an_code :: string
  an_kind :: anomaly_kind
  an_note :: rstr

definition anomaly_new :: "anomaly_kind \<Rightarrow> anomaly" where
  "anomaly_new kind = \<lparr>an_severity = kind_severity kind, an_code = kind_code kind, an_kind = kind,
     an_note = kind_note kind\<rparr>"

text \<open>What an anomaly tells as an observation.\<close>

definition obs_severity :: "anomaly \<Rightarrow> severity option" where "obs_severity a = Some (an_severity a)"
definition obs_code :: "anomaly \<Rightarrow> string" where "obs_code a = an_code a"
definition obs_note :: "anomaly \<Rightarrow> rstr" where "obs_note a = an_note a"
definition obs_evidence :: "anomaly \<Rightarrow> evidence list" where "obs_evidence a = kind_evidence (an_kind a)"

subsection \<open>Checksum verdicts\<close>

datatype checksum_verdict = VOk | VMismatch | VUnverified | VUnreadable | VAllocationBomb u64 u64

definition AUDIT_MAX_BLOCK_SIZE :: u64 where
  "AUDIT_MAX_BLOCK_SIZE = 32 * 1024 * 1024"

text \<open>The loop over the copies: the first one inside the image decides.\<close>

fun verdict_dvas :: "ext \<Rightarrow> bytes \<Rightarrow> blkptr \<Rightarrow> checksum_type \<Rightarrow> usize \<Rightarrow> dva list \<Rightarrow> checksum_verdict" where
  "verdict_dvas x img bp kind psize [] = VUnreadable"
| "verdict_dvas x img bp kind psize (d # ds) =
     (if dva_is_empty d then verdict_dvas x img bp kind psize ds
      else let phys = unat (physical_byte_offset d) in
        case slice_get img phys (sat_add phys psize) of
          None \<Rightarrow> verdict_dvas x img bp kind psize ds
        | Some raw \<Rightarrow>
            if list_all (\<lambda>b. b = 0) raw then VUnreadable
            else case verify x kind (bp_byteorder bp) raw (bp_checksum_words bp) of
              Some True \<Rightarrow> VOk
            | Some False \<Rightarrow> VMismatch
            | None \<Rightarrow> VUnverified)"

definition blkptr_checksum_verdict :: "ext \<Rightarrow> bytes \<Rightarrow> blkptr \<Rightarrow> checksum_verdict" where
  "blkptr_checksum_verdict x img bp =
     (if bp_embedded bp \<or> is_hole bp then VUnverified
      else let lsize = of_nat (lsize_bytes bp) in
        if lsize = 0 \<or> lsize > AUDIT_MAX_BLOCK_SIZE then VAllocationBomb lsize AUDIT_MAX_BLOCK_SIZE
        else let kind = checksum_from_raw (bp_checksum bp) in
          if kind = CkOff \<or> kind = CkInherit \<or> kind = CkOn then VUnverified
          else verdict_dvas x img bp kind (psize_bytes bp) (bp_dvas bp))"

subsection \<open>The image audit\<close>

definition push_impossible_rootbp :: "anomaly list \<Rightarrow> u64 \<Rightarrow> u64 \<Rightarrow> anomaly list" where
  "push_impossible_rootbp out val cap = out @ [anomaly_new (ImpossibleGeometry ''ub_rootbp LSIZE'' val cap)]"

definition check_uberblock_rootbp :: "ext \<Rightarrow> anomaly list \<Rightarrow> bytes \<Rightarrow> vdev_label \<Rightarrow> anomaly list" where
  "check_uberblock_rootbp x out img l0 =
     (let ub = vl_active_uberblock l0; bp = rootbp_full ub in
      case blkptr_checksum_verdict x img bp of
        VMismatch \<Rightarrow> out @ [anomaly_new (UberblockChecksumMismatch (ub_txg ub) (vl_active_slot l0))]
      | VAllocationBomb val cap \<Rightarrow> push_impossible_rootbp out val cap
      | _ \<Rightarrow> out)"

definition label_identity :: "bytes \<Rightarrow> u64 \<Rightarrow> (u64 \<times> u64 \<times> u64) option" where
  "label_identity img off = do {
     (let start = unat off in do {
       bs \<leftarrow> slice_get img start (sat_add start LABEL_SIZE);
       _ \<leftarrow> slice_get bs NVLIST_OFFSET (sat_add NVLIST_OFFSET NVLIST_SIZE);
       label \<leftarrow> res_ok (vdev_label_parse bs);
       guid \<leftarrow> nv_get_u64 (vl_config label) (lit ''pool_guid'');
       (let txg = (case nv_get_u64 (vl_config label) (lit ''txg'') of Some v \<Rightarrow> v | None \<Rightarrow> 0);
            ashift = (case nv_vdev_tree (vl_config label) of None \<Rightarrow> 0 | Some v \<Rightarrow> vt_ashift v)
        in Some (guid, txg, ashift))
     })
   }"

definition torn_reason :: rstr where
  "torn_reason = lit ''vdev label config could not be parsed while the other labels did '' @ em_dash @
     lit '' consistent with a torn label in an otherwise well-formed vdev''"

definition differs_reason :: "string \<Rightarrow> u64 \<Rightarrow> u64 \<Rightarrow> rstr" where
  "differs_reason fld val base =
     lit fld @ lit '' '' @ dec_u64 val @ lit '' differs from L0 baseline '' @ dec_u64 base"

text \<open>What one compared label adds.\<close>

definition compare_label :: "bytes \<Rightarrow> u64 \<Rightarrow> u64 \<Rightarrow> usize \<times> u64 \<Rightarrow> anomaly list" where
  "compare_label img base_guid base_ashift c =
     (case c of (idx, off) \<Rightarrow>
        case label_identity img off of
          None \<Rightarrow> [anomaly_new (LabelDivergence ''config'' idx torn_reason)]
        | Some (guid, txg, ashift) \<Rightarrow>
            (if guid \<noteq> base_guid
             then [anomaly_new (LabelDivergence ''pool_guid'' idx (differs_reason ''pool_guid'' guid base_guid))] else []) @
            (if ashift \<noteq> base_ashift
             then [anomaly_new (LabelDivergence ''ashift'' idx (differs_reason ''ashift'' ashift base_ashift))] else []))"

definition check_label_divergence :: "anomaly list \<Rightarrow> bytes \<Rightarrow> vdev_label \<Rightarrow> anomaly list" where
  "check_label_divergence out img l0 =
     (case nv_get_u64 (vl_config l0) (lit ''pool_guid'') of
        None \<Rightarrow> out
      | Some base_guid \<Rightarrow>
          (let base_ashift = (case nv_vdev_tree (vl_config l0) of None \<Rightarrow> 0 | Some v \<Rightarrow> vt_ashift v);
               image_len = of_nat (length img)
           in if image_len < 4 * of_nat LABEL_SIZE then out
              else let l3_off = image_len - of_nat LABEL_SIZE in
                if label_identity img l3_off = None then out
                else out @ concat (map (compare_label img base_guid base_ashift)
                  [(1, of_nat LABEL_SIZE), (2, image_len - 2 * of_nat LABEL_SIZE), (3, l3_off)])))"

text \<open>The sweep over the top-level pointers, with its budget.\<close>

fun sweep_blkptrs :: "ext \<Rightarrow> bytes \<Rightarrow> nat \<Rightarrow> blkptr list \<Rightarrow> anomaly list \<Rightarrow> anomaly list" where
  "sweep_blkptrs x img budget [] out = out"
| "sweep_blkptrs x img budget (bp # bps) out =
     (if budget = 0 then out
      else if bp_embedded bp \<or> is_hole bp then sweep_blkptrs x img (budget - 1) bps out
      else if blkptr_checksum_verdict x img bp = VMismatch then
        (let dva_offset = (case List.find (\<lambda>d. \<not> dva_is_empty d) (bp_dvas bp) of
               None \<Rightarrow> 0 | Some d \<Rightarrow> physical_byte_offset d)
         in sweep_blkptrs x img (budget - 1) bps
              (out @ [anomaly_new (BlkptrChecksumMismatch dva_offset (bp_object_type bp))]))
      else sweep_blkptrs x img (budget - 1) bps out)"

definition sweep_reachable_blkptrs :: "ext \<Rightarrow> anomaly list \<Rightarrow> bytes \<Rightarrow> vdev_label \<Rightarrow> anomaly list" where
  "sweep_reachable_blkptrs x out img l0 =
     (let ub = vl_active_uberblock l0; rootbp = rootbp_full ub in
      case read_block x img rootbp of
        Inl _ \<Rightarrow> out
      | Inr mos_block \<Rightarrow>
          (case objset_parse (blk_data mos_block) (ub_endian ub) of
             Inl _ \<Rightarrow> out
           | Inr mos \<Rightarrow> sweep_blkptrs x img 4096 (dn_blkptrs (meta_dnode mos)) out))"

definition audit_image :: "ext \<Rightarrow> bytes \<Rightarrow> anomaly list" where
  "audit_image x img =
     (case slice_get img 0 LABEL_SIZE of
        None \<Rightarrow> []
      | Some l0_bytes \<Rightarrow>
          (case vdev_label_parse l0_bytes of
             Inl _ \<Rightarrow> []
           | Inr l0 \<Rightarrow>
               (let out = check_uberblock_rootbp x [] img l0;
                    out = check_label_divergence out img l0
                in sweep_reachable_blkptrs x out img l0)))"

definition audit_findings :: "(anomaly \<Rightarrow> report_source \<Rightarrow> 'f) \<Rightarrow> ext \<Rightarrow> bytes \<Rightarrow> rstr \<Rightarrow> 'f list" where
  "audit_findings to_finding x img scope =
     (let source = \<lparr>rs_analyzer = lit ''zfs-forensic'', rs_scope = scope, rs_version = None\<rparr>
      in map (\<lambda>a. to_finding a source) (audit_image x img))"

subsection \<open>Recovery of deleted files\<close>

record recovered_file =
  rf_path :: rstr
  rf_source :: rstr
  rf_inode :: u64
  rf_size :: u64
  rf_content :: bytes
  rf_content_sha256 :: rstr

definition open_mos :: "ext \<Rightarrow> bytes \<Rightarrow> (objset \<times> endian) option" where
  "open_mos x img = do {
     l0_bytes \<leftarrow> slice_get img 0 LABEL_SIZE;
     l0 \<leftarrow> res_ok (vdev_label_parse l0_bytes);
     (let e = ub_endian (vl_active_uberblock l0); rootbp = rootbp_full (vl_active_uberblock l0) in do {
       blk \<leftarrow> res_ok (read_block x img rootbp);
       mos \<leftarrow> res_ok (objset_parse (blk_data blk) e);
       Some (mos, e)
     })
   }"

definition dataset_zpl_objset :: "ext \<Rightarrow> bytes \<Rightarrow> dnode \<Rightarrow> endian \<Rightarrow> objset option" where
  "dataset_zpl_objset x img dataset e = do {
     blk \<leftarrow> res_ok (read_block x img (dsl_dataset_bp dataset));
     res_ok (objset_parse (blk_data blk) e)
   }"

definition dataset_root_names :: "ext \<Rightarrow> bytes \<Rightarrow> dnode \<Rightarrow> endian \<Rightarrow> (rstr \<times> u64) list" where
  "dataset_root_names x img dataset e =
     (case dataset_zpl_objset x img dataset e of
        None \<Rightarrow> []
      | Some zpl \<Rightarrow>
          (case zpl_master_root x img zpl of None \<Rightarrow> [] | Some root \<Rightarrow> zpl_list_dir x img zpl root))"

definition sha256_hex :: "ext \<Rightarrow> bytes \<Rightarrow> rstr" where
  "sha256_hex x data = concat (map (\<lambda>w. hex_fixed 16 (unat w)) (sha256 x data))"

text \<open>The loop over a snapshot's entries.\<close>

fun recover_entries ::
    "ext \<Rightarrow> bytes \<Rightarrow> objset \<Rightarrow> rstr \<Rightarrow> (rstr \<times> u64) list \<Rightarrow> (rstr \<times> u64) list \<Rightarrow> recovered_file list \<Rightarrow> recovered_file list" where
  "recover_entries x img zpl source live_names [] out = out"
| "recover_entries x img zpl source live_names ((name, obj) # es) out =
     (if list_ex (\<lambda>p. fst p = name) live_names then recover_entries x img zpl source live_names es out
      else if list_ex (\<lambda>r. rf_path r = name) out then recover_entries x img zpl source live_names es out
      else case zpl_read_file x img zpl obj of
        Inl _ \<Rightarrow> recover_entries x img zpl source live_names es out
      | Inr content \<Rightarrow>
          recover_entries x img zpl source live_names es
            (out @ [\<lparr>rf_path = name, rf_source = source, rf_inode = obj, rf_size = of_nat (length content),
               rf_content = content, rf_content_sha256 = sha256_hex x content\<rparr>]))"

definition snapshot_source :: "u64 \<Rightarrow> rstr" where
  "snapshot_source snap_obj = lit ''snapshot obj '' @ dec_u64 snap_obj"

definition recover_from_snapshot ::
    "ext \<Rightarrow> bytes \<Rightarrow> dnode \<Rightarrow> u64 \<Rightarrow> endian \<Rightarrow> (rstr \<times> u64) list \<Rightarrow> recovered_file list \<Rightarrow> recovered_file list" where
  "recover_from_snapshot x img snap_ds snap_obj e live_names out =
     (case dataset_zpl_objset x img snap_ds e of
        None \<Rightarrow> out
      | Some zpl \<Rightarrow>
          (case zpl_master_root x img zpl of
             None \<Rightarrow> out
           | Some root \<Rightarrow>
               recover_entries x img zpl (snapshot_source snap_obj) live_names (zpl_list_dir x img zpl root) out))"

text \<open>The chain walk, with its budget and its list of objects seen.\<close>

fun snapshot_loop ::
    "ext \<Rightarrow> bytes \<Rightarrow> objset \<Rightarrow> endian \<Rightarrow> (rstr \<times> u64) list \<Rightarrow> nat \<Rightarrow> u64 list \<Rightarrow> u64 \<Rightarrow> recovered_file list \<Rightarrow> recovered_file list" where
  "snapshot_loop x img mos e live_names 0 seen snap_obj out = out"
| "snapshot_loop x img mos e live_names (Suc budget) seen snap_obj out =
     (if snap_obj = 0 then out
      else if snap_obj \<in> set seen then out
      else case mos_dnode x img mos snap_obj of
        None \<Rightarrow> out
      | Some snap_ds \<Rightarrow>
          snapshot_loop x img mos e live_names budget (seen @ [snap_obj]) (dsl_dataset_prev_snap snap_ds)
            (recover_from_snapshot x img snap_ds snap_obj e live_names out))"

text \<open>The hops from the MOS object directory to the live head dataset.\<close>

definition head_dataset :: "ext \<Rightarrow> bytes \<Rightarrow> objset \<Rightarrow> dnode option" where
  "head_dataset x img mos = do {
     objdir \<leftarrow> mos_dnode x img mos 1;
     objdir_data \<leftarrow> res_ok (read_zap_object x img objdir);
     root_dataset \<leftarrow> zap_lookup objdir_data (lit ''root_dataset'');
     dsl_dir \<leftarrow> mos_dnode x img mos root_dataset;
     (let head = dsl_dir_head_dataset dsl_dir in
      if head = 0 then None else mos_dnode x img mos head)
   }"

definition recover_deleted :: "ext \<Rightarrow> bytes \<Rightarrow> recovered_file list" where
  "recover_deleted x img =
     (case open_mos x img of
        None \<Rightarrow> []
      | Some (mos, e) \<Rightarrow>
          (case head_dataset x img mos of
             None \<Rightarrow> []
           | Some head_ds \<Rightarrow>
               snapshot_loop x img mos e (dataset_root_names x img head_ds e) 4096 []
                 (dsl_dataset_prev_snap head_ds) []))"

subsection \<open>Recovery as the first record of every name\<close>

text \<open>
  The records a snapshot can contribute, before duplicates are dropped: its readable entries whose
  name is absent from the live root.
\<close>

definition recovered_record :: "ext \<Rightarrow> rstr \<Rightarrow> rstr \<Rightarrow> u64 \<Rightarrow> bytes \<Rightarrow> recovered_file" where
  "recovered_record x source name obj content =
     \<lparr>rf_path = name, rf_source = source, rf_inode = obj, rf_size = of_nat (length content),
      rf_content = content, rf_content_sha256 = sha256_hex x content\<rparr>"

definition deleted_files :: "ext \<Rightarrow> bytes \<Rightarrow> objset \<Rightarrow> rstr \<Rightarrow> (rstr \<times> u64) list \<Rightarrow> (rstr \<times> u64) list \<Rightarrow> recovered_file list" where
  "deleted_files x img zpl source live es =
     List.map_filter (\<lambda>(name, obj).
       if find_name name live \<noteq> None then None
       else map_option (recovered_record x source name obj) (res_ok (zpl_read_file x img zpl obj))) es"

definition snapshot_candidates :: "ext \<Rightarrow> bytes \<Rightarrow> endian \<Rightarrow> (rstr \<times> u64) list \<Rightarrow> u64 \<times> dnode \<Rightarrow> recovered_file list" where
  "snapshot_candidates x img e live s =
     (case dataset_zpl_objset x img (snd s) e of
        None \<Rightarrow> []
      | Some zpl \<Rightarrow>
          (case zpl_master_root x img zpl of
             None \<Rightarrow> []
           | Some root \<Rightarrow>
               deleted_files x img zpl (snapshot_source (fst s)) live (zpl_list_dir x img zpl root)))"

definition same_path :: "recovered_file \<Rightarrow> recovered_file \<Rightarrow> bool" where
  "same_path r q \<longleftrightarrow> rf_path q = rf_path r"

fun keep_first :: "recovered_file list \<Rightarrow> recovered_file list \<Rightarrow> recovered_file list" where
  "keep_first out [] = out"
| "keep_first out (r # rs) = keep_first (if list_ex (same_path r) out then out else out @ [r]) rs"

lemma keep_first_append: "keep_first out (rs @ qs) = keep_first (keep_first out rs) qs"
  by (induction out rs rule: keep_first.induct) simp_all

lemma find_append: "List.find P (xs @ ys) = (case List.find P xs of None \<Rightarrow> List.find P ys | Some v \<Rightarrow> Some v)"
  by (induction xs) simp_all

lemma find_same_path_None: "List.find (same_path r) xs = None \<longleftrightarrow> \<not> list_ex (same_path r) xs"
  by (auto simp: find_None_iff list_ex_iff)

lemma find_keep_first: "List.find (same_path r) (keep_first out rs) = List.find (same_path r) (out @ rs)"
proof (induction out rs rule: keep_first.induct)
  case (2 out q qs)
  have "List.find (same_path r) out \<noteq> None" if "list_ex (same_path q) out" "same_path r q"
    using that by (auto simp: find_None_iff list_ex_iff same_path_def)
  then show ?case using 2 by (auto simp: find_append split: option.splits)
qed simp

lemma distinct_keep_first: "distinct (map rf_path out) \<Longrightarrow> distinct (map rf_path (keep_first out rs))"
proof (induction out rs rule: keep_first.induct)
  case (2 out r rs)
  have "distinct (map rf_path (if list_ex (same_path r) out then out else out @ [r]))"
    using 2(2) by (auto simp: list_ex_iff same_path_def)
  from 2(1) [OF this] show ?case by simp
qed simp

lemma distinct_find_iff: "distinct (map rf_path xs) \<Longrightarrow> r \<in> set xs \<longleftrightarrow> List.find (same_path r) xs = Some r"
  by (induction xs) (auto simp: same_path_def split: if_splits)

lemma keep_first_iff: "r \<in> set (keep_first [] rs) \<longleftrightarrow> List.find (same_path r) rs = Some r"
  using distinct_find_iff [OF distinct_keep_first, of "[]" r rs] find_keep_first [of r "[]" rs] by simp

lemma recover_entries_keep_first:
  "recover_entries x img zpl source live es out = keep_first out (deleted_files x img zpl source live es)"
proof (induction es arbitrary: out)
  case (Cons en es)
  obtain name obj where en: "en = (name, obj)" by (cases en)
  have live: "list_ex (\<lambda>p. fst p = name) live \<longleftrightarrow> find_name name live \<noteq> None"
    by (auto simp: find_name_None_iff list_ex_iff)
  have dup: "same_path (recovered_record x source name obj c) = (\<lambda>q. rf_path q = name)" for c
    by (simp add: same_path_def [abs_def] recovered_record_def)
  show ?case
    by (cases "zpl_read_file x img zpl obj")
      (simp_all add: en live dup Cons.IH deleted_files_def List.map_filter_simps recovered_record_def [symmetric])
qed (simp add: deleted_files_def List.map_filter_simps)

lemma recover_from_snapshot_keep_first:
  "recover_from_snapshot x img ds obj e live out = keep_first out (snapshot_candidates x img e live (obj, ds))"
  by (simp add: recover_from_snapshot_def snapshot_candidates_def recover_entries_keep_first split: option.splits)

subsection \<open>The snapshot chain\<close>

text \<open>The snapshots the walk visits.\<close>

fun visited :: "ext \<Rightarrow> bytes \<Rightarrow> objset \<Rightarrow> nat \<Rightarrow> u64 list \<Rightarrow> u64 \<Rightarrow> (u64 \<times> dnode) list" where
  "visited x img mos 0 seen obj = []"
| "visited x img mos (Suc budget) seen obj =
     (if obj = 0 \<or> obj \<in> set seen then []
      else case mos_dnode x img mos obj of
        None \<Rightarrow> []
      | Some ds \<Rightarrow> (obj, ds) # visited x img mos budget (seen @ [obj]) (dsl_dataset_prev_snap ds))"

lemma snapshot_loop_visited:
  "snapshot_loop x img mos e live budget seen obj out =
     keep_first out (concat (map (snapshot_candidates x img e live) (visited x img mos budget seen obj)))"
  by (induction budget arbitrary: seen obj out)
    (simp_all add: recover_from_snapshot_keep_first keep_first_append split: option.split)

text \<open>
  The \<open>n\<close>-th snapshot behind the first one, as a relation over the on-disk references: nothing is
  said of budgets or repetitions.
\<close>

inductive snapshot_at :: "ext \<Rightarrow> bytes \<Rightarrow> objset \<Rightarrow> u64 \<Rightarrow> nat \<Rightarrow> u64 \<times> dnode \<Rightarrow> bool" for x img mos start where
  newest: "start \<noteq> 0 \<Longrightarrow> mos_dnode x img mos start = Some ds \<Longrightarrow> snapshot_at x img mos start 0 (start, ds)"
| older: "snapshot_at x img mos start n (obj, ds) \<Longrightarrow> dsl_dataset_prev_snap ds = obj' \<Longrightarrow> obj' \<noteq> 0 \<Longrightarrow>
    mos_dnode x img mos obj' = Some ds' \<Longrightarrow> snapshot_at x img mos start (Suc n) (obj', ds')"

inductive_cases snapshot_at_0E: "snapshot_at x img mos start 0 s"
inductive_cases snapshot_at_SucE: "snapshot_at x img mos start (Suc n) s"

inductive_simps snapshot_at_0_iff: "snapshot_at x img mos start 0 s"
inductive_simps snapshot_at_Suc_iff: "snapshot_at x img mos start (Suc n) s"

lemma snapshot_at_unique: "snapshot_at x img mos start n s \<Longrightarrow> snapshot_at x img mos start n t \<Longrightarrow> s = t"
proof (induction n arbitrary: s t)
  case 0
  then show ?case by (auto simp: snapshot_at_0_iff)
next
  case (Suc n)
  from Suc.prems show ?case by (fastforce simp: snapshot_at_Suc_iff dest: Suc.IH)
qed

text \<open>The object the walk looks at after \<open>vs\<close>.\<close>

definition next_snap :: "u64 \<Rightarrow> (u64 \<times> dnode) list \<Rightarrow> u64" where
  "next_snap obj vs = (if vs = [] then obj else dsl_dataset_prev_snap (snd (last vs)))"

lemma visited_stops:
  assumes "length (visited x img mos budget seen obj) < budget"
  defines "vs \<equiv> visited x img mos budget seen obj"
  shows "next_snap obj vs = 0 \<or> mos_dnode x img mos (next_snap obj vs) = None \<or>
    next_snap obj vs \<in> set seen \<union> fst ` set vs"
  using assms(1) unfolding vs_def
proof (induction budget arbitrary: seen obj)
  case (Suc budget)
  show ?case
  proof (cases "obj = 0 \<or> obj \<in> set seen \<or> mos_dnode x img mos obj = None")
    case True
    then show ?thesis by (auto simp: next_snap_def)
  next
    case False
    then obtain ds where ds: "mos_dnode x img mos obj = Some ds" by auto
    let ?vs = "visited x img mos budget (seen @ [obj]) (dsl_dataset_prev_snap ds)"
    have "next_snap obj ((obj, ds) # ?vs) = next_snap (dsl_dataset_prev_snap ds) ?vs" by (simp add: next_snap_def)
    moreover have "length ?vs < budget" using Suc.prems False ds by simp
    ultimately show ?thesis using Suc.IH [of "seen @ [obj]" "dsl_dataset_prev_snap ds"] False ds by auto
  qed
qed simp

lemma visited_at:
  assumes "i < length (visited x img mos budget seen obj)"
  shows "snapshot_at x img mos obj i (visited x img mos budget seen obj ! i)"
proof -
  have step: "snapshot_at x img mos start (n + i) (visited x img mos budget seen obj ! i)"
    if "i < length (visited x img mos budget seen obj)"
      and "\<And>ds. obj \<noteq> 0 \<Longrightarrow> mos_dnode x img mos obj = Some ds \<Longrightarrow> snapshot_at x img mos start n (obj, ds)"
    for start n i budget seen obj
    using that
  proof (induction budget arbitrary: seen obj n i)
    case (Suc budget)
    obtain ds where ds: "obj \<noteq> 0" "mos_dnode x img mos obj = Some ds"
        "visited x img mos (Suc budget) seen obj = (obj, ds) # visited x img mos budget (seen @ [obj]) (dsl_dataset_prev_snap ds)"
      using Suc.prems(1) by (auto split: if_splits option.splits)
    note here = Suc.prems(2) [OF ds(1,2)]
    show ?case
    proof (cases i)
      case 0
      then show ?thesis using here ds(3) by simp
    next
      case (Suc j)
      have "snapshot_at x img mos start (Suc n) (dsl_dataset_prev_snap ds, ds')"
        if "dsl_dataset_prev_snap ds \<noteq> 0" "mos_dnode x img mos (dsl_dataset_prev_snap ds) = Some ds'" for ds'
        using snapshot_at.older [OF here refl that] .
      from Suc.IH [OF _ this, of j "seen @ [obj]"] Suc Suc.prems(1) ds(3) show ?thesis by simp
    qed
  qed simp
  show ?thesis using step [OF assms, of obj 0] by (auto intro: snapshot_at.newest)
qed

text \<open>Once the walk stops early, a snapshot the next reference names is already among those visited.\<close>

lemma visited_next:
  assumes "length (visited x img mos budget [] start) < budget"
    and "next_snap start (visited x img mos budget [] start) \<noteq> 0"
    and "mos_dnode x img mos (next_snap start (visited x img mos budget [] start)) = Some ds"
  shows "(next_snap start (visited x img mos budget [] start), ds) \<in> set (visited x img mos budget [] start)"
proof -
  let ?vs = "visited x img mos budget [] start"
  have "next_snap start ?vs \<in> fst ` set ?vs" using visited_stops [OF assms(1)] assms(2,3) by auto
  then obtain t where t: "t \<in> set ?vs" "fst t = next_snap start ?vs" by (metis imageE)
  moreover from this obtain i where "t = ?vs ! i" "i < length ?vs" by (auto simp: in_set_conv_nth)
  ultimately have "mos_dnode x img mos (fst t) = Some (snd t)"
    using visited_at [of i x img mos budget "[]" start] by (auto elim: snapshot_at.cases)
  with assms(3) t show ?thesis by (cases t) simp
qed

lemma visited_closed:
  assumes "snapshot_at x img mos start n s" and "length (visited x img mos budget [] start) < budget"
  shows "s \<in> set (visited x img mos budget [] start)"
proof -
  let ?vs = "visited x img mos budget [] start"
  note stop = visited_next [OF assms(2)]
  show ?thesis
    using assms(1)
  proof (induction rule: snapshot_at.induct)
    case (newest ds)
    show ?case
    proof (cases ?vs)
      case Nil
      then show ?thesis using stop [of ds] newest by (simp add: next_snap_def)
    next
      case (Cons t ts)
      then have "snapshot_at x img mos start 0 t" using visited_at [of 0 x img mos budget "[]" start] by simp
      from snapshot_at_unique [OF snapshot_at.newest [OF newest] this] show ?thesis by (simp add: Cons)
    qed
  next
    case (older n obj ds obj' ds')
    then obtain i where i: "i < length ?vs" "?vs ! i = (obj, ds)" by (auto simp: in_set_conv_nth)
    note at = visited_at [OF i(1), unfolded i(2)]
    show ?case
    proof (cases "Suc i < length ?vs")
      case True
      then have "snapshot_at x img mos start (Suc i) (?vs ! Suc i)" by (rule visited_at)
      then have "?vs ! Suc i = (obj', ds')"
        using snapshot_at_unique [OF _ snapshot_at.older [OF at older(2,3,4)]] by blast
      then show ?thesis using nth_mem [OF True] by simp
    next
      case False
      then have "length ?vs - 1 = i" "?vs \<noteq> []" using i(1) by auto
      then have "last ?vs = (obj, ds)" "?vs \<noteq> []" using i(2) by (simp_all add: last_conv_nth)
      then show ?thesis using stop [of ds'] older by (simp add: next_snap_def)
    qed
  qed
qed

lemma length_visited: "length (visited x img mos budget seen obj) \<le> budget"
  by (induction budget arbitrary: seen obj) (simp_all split: option.split)

lemma distinct_visited: "distinct (map fst (visited x img mos budget seen obj)) \<and>
    set seen \<inter> fst ` set (visited x img mos budget seen obj) = {}"
proof (induction budget arbitrary: seen obj)
  case (Suc budget)
  show ?case
  proof (cases "mos_dnode x img mos obj")
    case (Some ds)
    from Suc.IH [of "seen @ [obj]" "dsl_dataset_prev_snap ds"] Some show ?thesis by auto
  qed simp
qed simp

lemma find_concat_iff:
  "List.find P (concat (map f vs)) = Some r \<longleftrightarrow>
    (\<exists>i<length vs. List.find P (f (vs ! i)) = Some r \<and> (\<forall>j<i. List.find P (f (vs ! j)) = None))"
proof (induction vs)
  case (Cons v vs)
  then show ?case
    by (cases "List.find P (f v)") (simp_all add: find_append Ex_less_Suc2 All_less_Suc2)
qed simp

text \<open>The walk finds a record exactly where the relation has a first offer of its name.\<close>

lemma visited_hits:
  fixes x img mos start
  assumes none: "\<And>t. List.find P (c t) = None \<longleftrightarrow> \<not> offers t"
  defines "vs \<equiv> visited x img mos 4096 [] start" and "at \<equiv> snapshot_at x img mos start"
  shows "(\<exists>i<length vs. List.find P (c (vs ! i)) = Some r \<and> (\<forall>j<i. List.find P (c (vs ! j)) = None)) \<longleftrightarrow>
    (\<exists>n s. n < 4096 \<and> at n s \<and> List.find P (c s) = Some r \<and> (\<nexists>m t. m < n \<and> at m t \<and> offers t))"
    (is "?l \<longleftrightarrow> ?r")
proof
  note at = visited_at [of _ x img mos 4096 "[]" start, folded vs_def at_def]
    and unique = snapshot_at_unique [of x img mos start, folded at_def]
  assume ?l
  then obtain i where i: "i < length vs" "List.find P (c (vs ! i)) = Some r"
      "\<And>j. j < i \<Longrightarrow> List.find P (c (vs ! j)) = None" by blast
  have "t = vs ! m" if "m < i" "at m t" for m t
    using unique [OF that(2) at] that(1) i(1) by simp
  then have "\<not> offers t" if "m < i" "at m t" for m t using that i(3) none by blast
  moreover have "i < 4096" using i(1) length_visited [of x img mos 4096 "[]" start] by (simp add: vs_def)
  ultimately show ?r using i(2) at [OF i(1)] by blast
next
  note at = visited_at [of _ x img mos 4096 "[]" start, folded vs_def at_def]
    and unique = snapshot_at_unique [of x img mos start, folded at_def]
  assume ?r
  then obtain n s where hit: "n < 4096" "at n s" "List.find P (c s) = Some r" "\<And>m t. m < n \<Longrightarrow> at m t \<Longrightarrow> \<not> offers t" by blast
  have "n < length vs"
  proof (rule ccontr)
    assume long: "\<not> n < length vs"
    then have "s \<in> set vs" using hit visited_closed [of x img mos start n s 4096] by (simp add: at_def vs_def)
    then obtain i where "i < length vs" "vs ! i = s" by (auto simp: in_set_conv_nth)
    with at [OF this(1)] long hit none [of s] show False by (metis le_less_trans not_le option.distinct(1))
  qed
  moreover have "vs ! n = s" using unique [OF at [OF calculation] hit(2)] .
  moreover have "List.find P (c (vs ! j)) = None" if "j < n" for j
    using none hit(4) [OF that at] that \<open>n < length vs\<close> by simp
  ultimately show ?l using hit(3) by blast
qed

lemma recover_deleted_iff:
  assumes "open_mos x img = Some (mos, e)" and "head_dataset x img mos = Some head"
  defines "live \<equiv> dataset_root_names x img head e" and "start \<equiv> dsl_dataset_prev_snap head"
  shows "distinct (map rf_path (recover_deleted x img)) \<and>
    (r \<in> set (recover_deleted x img) \<longleftrightarrow>
      (\<exists>n s. n < 4096 \<and> snapshot_at x img mos start n s \<and>
        List.find (same_path r) (snapshot_candidates x img e live s) = Some r \<and>
        (\<nexists>m t. m < n \<and> snapshot_at x img mos start m t \<and> rf_path r \<in> rf_path ` set (snapshot_candidates x img e live t))))"
proof -
  let ?c = "snapshot_candidates x img e live" and ?vs = "visited x img mos 4096 [] start"
  have run: "recover_deleted x img = keep_first [] (concat (map ?c ?vs))"
    by (simp add: recover_deleted_def assms(1,2) snapshot_loop_visited live_def start_def)
  have none: "List.find (same_path r) (?c t) = None \<longleftrightarrow> rf_path r \<notin> rf_path ` set (?c t)" for t
    by (simp add: find_None_iff same_path_def image_iff) metis
  have "distinct (map rf_path (recover_deleted x img))"
    unfolding run by (rule distinct_keep_first) simp
  moreover note visited_hits [of "same_path r" ?c "\<lambda>t. rf_path r \<in> rf_path ` set (?c t)", OF none, of x img mos start r]
  ultimately show ?thesis by (simp only: run keep_first_iff find_concat_iff)
qed

text \<open>
  C8. Recovery is complete and exact over the snapshot chain, whatever the image: a record is
  returned exactly when it is the first one of its name among the readable, no longer live entries
  of some snapshot fewer than 4096 references behind the newest, and no newer snapshot offers that
  name. Every name is returned once; a cyclic chain changes nothing.
\<close>

theorem recover_deleted_exact:
  assumes "open_mos x img = Some (mos, e)" and "head_dataset x img mos = Some head"
  defines "live \<equiv> dataset_root_names x img head e" and "start \<equiv> dsl_dataset_prev_snap head"
  shows "distinct (map rf_path (recover_deleted x img)) \<and>
    (r \<in> set (recover_deleted x img) \<longleftrightarrow>
      (\<exists>n s. n < 4096 \<and> snapshot_at x img mos start n s \<and>
        List.find (same_path r) (snapshot_candidates x img e live s) = Some r \<and>
        (\<nexists>m t. m < n \<and> snapshot_at x img mos start m t \<and> rf_path r \<in> rf_path ` set (snapshot_candidates x img e live t))))"
  unfolding live_def start_def by (rule recover_deleted_iff [OF assms(1,2)])

subsection \<open>What the audit reports\<close>

lemma check_label_divergence_append: "check_label_divergence out img lab = out @ check_label_divergence [] img lab"
proof (cases "nv_get_u64 (vl_config lab) (lit ''pool_guid'')")
  case (Some guid)
  show ?thesis unfolding check_label_divergence_def Some option.case Let_def by (simp only: if_distrib [of "(@) out"] append_Nil append_Nil2)
qed (simp add: check_label_divergence_def)

lemma sweep_blkptrs_filter:
  "length bps \<le> budget \<Longrightarrow> sweep_blkptrs x img budget bps out =
     out @ map (\<lambda>bp. anomaly_new (BlkptrChecksumMismatch
         (case List.find (\<lambda>d. \<not> dva_is_empty d) (bp_dvas bp) of None \<Rightarrow> 0 | Some d \<Rightarrow> physical_byte_offset d)
         (bp_object_type bp)))
       (filter (\<lambda>bp. blkptr_checksum_verdict x img bp = VMismatch) bps)"
  by (induction bps arbitrary: budget out) (auto simp: Let_def blkptr_checksum_verdict_def)

text \<open>The top-level pointers of the meta-dnode the sweep visits.\<close>

definition swept_blkptrs :: "ext \<Rightarrow> bytes \<Rightarrow> vdev_label \<Rightarrow> blkptr list" where
  "swept_blkptrs x img lab =
     (case read_block x img (rootbp_full (vl_active_uberblock lab)) of
        Inl _ \<Rightarrow> []
      | Inr blk \<Rightarrow>
          (case objset_parse (blk_data blk) (ub_endian (vl_active_uberblock lab)) of
             Inl _ \<Rightarrow> [] | Inr mos \<Rightarrow> dn_blkptrs (meta_dnode mos)))"

lemma objset_meta_blkptrs: "objset_parse data e = Inr os \<Longrightarrow> length (dn_blkptrs (meta_dnode os)) \<le> 255"
proof -
  assume "objset_parse data e = Inr os"
  then have "dnode_parse data e = Some (meta_dnode os)"
    by (auto simp: objset_parse_def Let_def res_simps split: if_splits)
  from dnode_parse_fits [OF this] have "length (dn_blkptrs (meta_dnode os)) \<le> unat (dn_nblkptr (meta_dnode os))"
    by (simp add: dnode_fits_def)
  then show ?thesis using byte_bound [of "dn_nblkptr (meta_dnode os)"] by linarith
qed

lemma sweep_reachable:
  "sweep_reachable_blkptrs x out img lab =
     out @ map (\<lambda>bp. anomaly_new (BlkptrChecksumMismatch
         (case List.find (\<lambda>d. \<not> dva_is_empty d) (bp_dvas bp) of None \<Rightarrow> 0 | Some d \<Rightarrow> physical_byte_offset d)
         (bp_object_type bp)))
       (filter (\<lambda>bp. blkptr_checksum_verdict x img bp = VMismatch) (swept_blkptrs x img lab))"
proof (cases "read_block x img (rootbp_full (vl_active_uberblock lab))")
  case (Inr blk)
  show ?thesis
  proof (cases "objset_parse (blk_data blk) (ub_endian (vl_active_uberblock lab))")
    case (Inr mos)
    have "length (dn_blkptrs (meta_dnode mos)) \<le> 4096" using objset_meta_blkptrs [OF Inr] by simp
    then show ?thesis
      using Inr \<open>read_block _ _ _ = Inr blk\<close>
      by (simp add: sweep_reachable_blkptrs_def swept_blkptrs_def sweep_blkptrs_filter)
  qed (simp add: Inr sweep_reachable_blkptrs_def swept_blkptrs_def)
qed (simp add: sweep_reachable_blkptrs_def swept_blkptrs_def)

text \<open>A root pointer decoded from any bytes never trips the allocation guard.\<close>

lemma verdict_dvas_no_bomb: "verdict_dvas x img bp kind psize ds \<noteq> VAllocationBomb v c"
  by (induction x img bp kind psize ds rule: verdict_dvas.induct)
    (simp_all add: Let_def split: option.split bool.split)

lemma parsed_verdict_no_bomb: "blkptr_checksum_verdict x img (blkptr_parse raw e) \<noteq> VAllocationBomb v c"
proof -
  let ?bp = "blkptr_parse raw e"
  have l: "lsize_bytes ?bp \<noteq> 0" "lsize_bytes ?bp \<le> 33554432"
    using lsize_parse_allowed [of raw e] by (simp_all add: MAX_BLOCK_SIZE_def)
  then have "unat (of_nat (lsize_bytes ?bp) :: u64) = lsize_bytes ?bp" by (simp add: unat_of_nat)
  then have "(of_nat (lsize_bytes ?bp) :: u64) \<noteq> 0" "(of_nat (lsize_bytes ?bp) :: u64) \<le> 33554432"
    using l by (auto simp: word_le_nat_alt)
  then have "\<not> (of_nat (lsize_bytes ?bp) = (0 :: u64) \<or> (of_nat (lsize_bytes ?bp) :: u64) > AUDIT_MAX_BLOCK_SIZE)"
    by (simp add: AUDIT_MAX_BLOCK_SIZE_def not_less)
  then show ?thesis by (simp only: blkptr_checksum_verdict_def Let_def if_False) (simp add: verdict_dvas_no_bomb)
qed

lemma check_uberblock_rootbp_out:
  "check_uberblock_rootbp x out img lab = out @
     (if blkptr_checksum_verdict x img (rootbp_full (vl_active_uberblock lab)) = VMismatch
      then [anomaly_new (UberblockChecksumMismatch (ub_txg (vl_active_uberblock lab)) (vl_active_slot lab))] else [])"
  using parsed_verdict_no_bomb [of x img "ub_rootbp_raw (vl_active_uberblock lab)" "ub_endian (vl_active_uberblock lab)"]
  by (cases "blkptr_checksum_verdict x img (rootbp_full (vl_active_uberblock lab))")
    (simp_all add: check_uberblock_rootbp_def Let_def rootbp_full_def)

text \<open>The three parts of a report.\<close>

lemma audit_image_parts:
  assumes "slice_get img 0 LABEL_SIZE = Some l0" and "vdev_label_parse l0 = Inr lab"
  shows "audit_image x img =
    (if blkptr_checksum_verdict x img (rootbp_full (vl_active_uberblock lab)) = VMismatch
     then [anomaly_new (UberblockChecksumMismatch (ub_txg (vl_active_uberblock lab)) (vl_active_slot lab))] else []) @
    check_label_divergence [] img lab @ sweep_reachable_blkptrs x [] img lab"
  unfolding audit_image_def using assms
  by (simp add: Let_def check_uberblock_rootbp_out
    check_label_divergence_append [of "if _ then _ else _"] sweep_reachable)


lemma anomaly_new_code [simp]: "an_code (anomaly_new k) = kind_code k" "an_kind (anomaly_new k) = k"
  by (simp_all add: anomaly_new_def)

lemma audit_out_of_label:
  "slice_get img 0 LABEL_SIZE = None \<Longrightarrow> audit_image x img = []"
  "slice_get img 0 LABEL_SIZE = Some l0 \<Longrightarrow> vdev_label_parse l0 = Inl err \<Longrightarrow> audit_image x img = []"
  by (simp_all add: audit_image_def)

text \<open>The divergence of a complete device: some other label does not tell the identity of the first.\<close>

definition label_base :: "vdev_label \<Rightarrow> (u64 \<times> u64) option" where
  "label_base lab = map_option (\<lambda>guid. (guid, case nv_vdev_tree (vl_config lab) of None \<Rightarrow> 0 | Some v \<Rightarrow> vt_ashift v))
     (nv_get_u64 (vl_config lab) (lit ''pool_guid''))"

definition labels_diverge :: "bytes \<Rightarrow> vdev_label \<Rightarrow> bool" where
  "labels_diverge img lab \<longleftrightarrow> 4 * LABEL_SIZE \<le> length img \<and> label_base lab \<noteq> None \<and>
     label_identity img (of_nat (length img - LABEL_SIZE)) \<noteq> None \<and>
     list_ex (\<lambda>off. map_option (\<lambda>(guid, txg, ashift). (guid, ashift)) (label_identity img (of_nat off)) \<noteq> label_base lab)
       [LABEL_SIZE, length img - 2 * LABEL_SIZE, length img - LABEL_SIZE]"

lemma compare_label_Nil_iff:
  "compare_label img guid ashift (idx, off) = [] \<longleftrightarrow>
     map_option (\<lambda>(guid, txg, ashift). (guid, ashift)) (label_identity img off) = Some (guid, ashift)"
  by (auto simp: compare_label_def split: option.split)

lemma compare_label_code: "a \<in> set (compare_label img guid ashift c) \<Longrightarrow> an_code a = ''ZFS-LABEL-DIVERGENCE''"
  by (auto simp: compare_label_def split: prod.splits option.splits if_splits)

lemma check_label_divergence_code:
  "a \<in> set (check_label_divergence [] img lab) \<Longrightarrow> an_code a = ''ZFS-LABEL-DIVERGENCE''"
  by (auto simp: check_label_divergence_def Let_def dest: compare_label_code split: option.splits if_splits)

lemma check_label_divergence_Nil_iff:
  assumes "length img < 2 ^ 64"
  shows "check_label_divergence [] img lab = [] \<longleftrightarrow> \<not> labels_diverge img lab"
proof (cases "nv_get_u64 (vl_config lab) (lit ''pool_guid'')")
  case (Some guid)
  let ?n = "of_nat (length img) :: u64"
  have n: "unat ?n = length img" using assms by (simp add: unat_of_nat)
  have lt: "?n < 4 * of_nat LABEL_SIZE \<longleftrightarrow> length img < 4 * LABEL_SIZE"
    by (simp add: word_less_nat_alt n LABEL_SIZE_def)
  show ?thesis
  proof (cases "length img < 4 * LABEL_SIZE")
    case False
    then have sub: "?n - of_nat LABEL_SIZE = of_nat (length img - LABEL_SIZE)"
      "?n - 2 * of_nat LABEL_SIZE = of_nat (length img - 2 * LABEL_SIZE)"
      by (simp_all add: of_nat_diff LABEL_SIZE_def)
    show ?thesis
      unfolding check_label_divergence_def labels_diverge_def label_base_def Some option.case Let_def lt sub
      using False by (simp add: compare_label_Nil_iff Some) blast
  qed (simp add: check_label_divergence_def labels_diverge_def Some lt)
qed (simp add: check_label_divergence_def labels_diverge_def label_base_def)

lemma audit_codes:
  fixes x img
  assumes "slice_get img 0 LABEL_SIZE = Some l0" and "vdev_label_parse l0 = Inr lab" and "length img < 2 ^ 64"
  defines "codes \<equiv> an_code ` set (audit_image x img)"
  shows "(''ZFS-UBERBLOCK-CHECKSUM-MISMATCH'' \<in> codes \<longleftrightarrow>
      blkptr_checksum_verdict x img (rootbp_full (vl_active_uberblock lab)) = VMismatch) \<and>
    (''ZFS-LABEL-DIVERGENCE'' \<in> codes \<longleftrightarrow> labels_diverge img lab) \<and>
    (''ZFS-BLKPTR-CHECKSUM-MISMATCH'' \<in> codes \<longleftrightarrow>
      list_ex (\<lambda>bp. blkptr_checksum_verdict x img bp = VMismatch) (swept_blkptrs x img lab)) \<and>
    ''ZFS-IMPOSSIBLE-GEOMETRY'' \<notin> codes"
proof -
  let ?l = "check_label_divergence [] img lab"
  have l: "an_code ` set ?l = (if labels_diverge img lab then {''ZFS-LABEL-DIVERGENCE''} else {})"
    using check_label_divergence_Nil_iff [OF assms(3), of lab] check_label_divergence_code [of _ img lab]
    by (cases ?l) (auto simp: image_iff simp del: bex_simps)
  have codes: "codes =
      (if blkptr_checksum_verdict x img (rootbp_full (vl_active_uberblock lab)) = VMismatch
       then {''ZFS-UBERBLOCK-CHECKSUM-MISMATCH''} else {}) \<union> an_code ` set ?l \<union>
      (if list_ex (\<lambda>bp. blkptr_checksum_verdict x img bp = VMismatch) (swept_blkptrs x img lab)
       then {''ZFS-BLKPTR-CHECKSUM-MISMATCH''} else {})"
    unfolding codes_def audit_image_parts [OF assms(1,2)] sweep_reachable
    by (auto simp: image_Un list_ex_iff image_iff)
  show ?thesis unfolding codes l by auto
qed






lemma rootbp_verdict:
  assumes "bp = rootbp_full ub" and "\<not> bp_embedded bp" and "checksum_from_raw (bp_checksum bp) = CkFletcher4"
    and "bp_dvas bp = d # ds" and "\<not> dva_is_empty d" and "unat (physical_byte_offset d) = length pre"
    and "length blk = psize_bytes bp" and "length (pre @ blk @ post) < 2 ^ 64"
  shows "blkptr_checksum_verdict x (pre @ blk @ post) bp =
    (if list_all (\<lambda>b. b = 0) blk then VUnreadable
     else case verify x CkFletcher4 (bp_byteorder bp) blk (bp_checksum_words bp) of
       Some True \<Rightarrow> VOk | Some False \<Rightarrow> VMismatch | None \<Rightarrow> VUnverified)"
proof -
  let ?img = "pre @ blk @ post"
  have l: "lsize_bytes bp \<noteq> 0" "lsize_bytes bp \<le> 33554432"
    using lsize_parse_allowed [of "ub_rootbp_raw ub" "ub_endian ub"]
    by (simp_all add: MAX_BLOCK_SIZE_def assms(1) rootbp_full_def)
  then have "unat (of_nat (lsize_bytes bp) :: u64) = lsize_bytes bp" by (simp add: unat_of_nat)
  then have guard: "\<not> (of_nat (lsize_bytes bp) = (0 :: u64) \<or> (of_nat (lsize_bytes bp) :: u64) > AUDIT_MAX_BLOCK_SIZE)"
    using l by (auto simp: word_less_nat_alt AUDIT_MAX_BLOCK_SIZE_def)
  have hole: "\<not> (bp_embedded bp \<or> is_hole bp)" using assms by (simp add: is_hole_def)
  have "sat_add (length pre) (psize_bytes bp) = length pre + length blk"
    using assms(7,8) by (simp add: sat_add_def usize_max_def)
  moreover have "slice_get ?img (length pre) (length pre + length blk) = Some blk" by (rule slice_get_prefix [OF refl])
  ultimately show ?thesis
    unfolding blkptr_checksum_verdict_def Let_def assms(3,4) if_not_P [OF guard] if_not_P [OF hole]
    by (simp add: assms)
qed

text \<open>
  C10. Tampering with the pool root is reported: on an image whose root pointer carries the
  fletcher4 checksum of the block at its first copy the audit raises no root mismatch, and after any
  change of one aligned 4-byte word of that block it raises one, unless the change leaves nothing but
  zeros (which the code takes for absent space).
\<close>

theorem audit_detects_altered_root:
  assumes "vdev_label_parse l0 = Inr lab" and "length l0 = LABEL_SIZE" and "bp = rootbp_full (vl_active_uberblock lab)"
    and "\<not> bp_embedded bp" and "checksum_from_raw (bp_checksum bp) = CkFletcher4"
    and "bp_dvas bp = d # ds" and "\<not> dva_is_empty d" and "unat (physical_byte_offset d) = length (l0 @ gap)"
    and "length (xs @ u @ ys) = psize_bytes bp" and "length (l0 @ gap @ (xs @ u @ ys) @ post) < 2 ^ 64"
    and "bp_checksum_words bp = fletcher4 (xs @ u @ ys) (bp_byteorder bp)"
    and "length u = 4" and "length v = 4" and "length xs = 4 * p" and "u \<noteq> v"
  shows "''ZFS-UBERBLOCK-CHECKSUM-MISMATCH'' \<notin> an_code ` set (audit_image x (l0 @ gap @ (xs @ u @ ys) @ post)) \<and>
    (''ZFS-UBERBLOCK-CHECKSUM-MISMATCH'' \<in> an_code ` set (audit_image x (l0 @ gap @ (xs @ v @ ys) @ post)) \<longleftrightarrow>
      \<not> list_all (\<lambda>b. b = 0) (xs @ v @ ys))"
proof -
  have run: "''ZFS-UBERBLOCK-CHECKSUM-MISMATCH'' \<in> an_code ` set (audit_image x (l0 @ gap @ (xs @ w @ ys) @ post)) \<longleftrightarrow>
      \<not> list_all (\<lambda>b. b = 0) (xs @ w @ ys) \<and>
      verify x CkFletcher4 (bp_byteorder bp) (xs @ w @ ys) (bp_checksum_words bp) = Some False" if "length w = 4" for w
  proof -
    let ?img = "l0 @ gap @ (xs @ w @ ys) @ post"
    have "slice_get ?img 0 LABEL_SIZE = Some l0" using assms(2) by (simp add: slice_get_def)
    moreover have "length ?img < 2 ^ 64" using assms(10,12) that by simp
    ultimately have "''ZFS-UBERBLOCK-CHECKSUM-MISMATCH'' \<in> an_code ` set (audit_image x ?img) \<longleftrightarrow>
        blkptr_checksum_verdict x ?img bp = VMismatch"
      using audit_codes [OF _ assms(1), of ?img x] assms(3) by blast
    moreover have "blkptr_checksum_verdict x ((l0 @ gap) @ (xs @ w @ ys) @ post) bp =
      (if list_all (\<lambda>b. b = 0) (xs @ w @ ys) then VUnreadable
       else case verify x CkFletcher4 (bp_byteorder bp) (xs @ w @ ys) (bp_checksum_words bp) of
         Some True \<Rightarrow> VOk | Some False \<Rightarrow> VMismatch | None \<Rightarrow> VUnverified)"
      using assms(9,10,12) that by (intro rootbp_verdict [OF assms(3-8)]) simp_all
    ultimately show ?thesis by (simp split: option.splits bool.splits)
  qed
  have "verify x CkFletcher4 (bp_byteorder bp) (xs @ v @ ys) (bp_checksum_words bp) = Some False"
    using fletcher4_altered [OF assms(12-15)] assms(11) by simp
  moreover have "verify x CkFletcher4 (bp_byteorder bp) (xs @ u @ ys) (bp_checksum_words bp) = Some True"
    by (simp add: verify_def assms(11))
  ultimately show ?thesis using run [OF assms(12)] run [OF assms(13)] by simp
qed

text \<open>A root block of 512 bytes at the first sector behind the labels, and its pointer.\<close>

definition sample_root :: "bytes \<Rightarrow> blkptr" where
  "sample_root blk = blkptr_default\<lparr>bp_checksum := 7, bp_byteorder := Little, bp_compression := 2,
     bp_checksum_words := fletcher4 blk Little,
     bp_dvas := [dva_default\<lparr>dva_offset_sectors := 1\<rparr>, dva_default, dva_default]\<rparr>"

lemma wf_sample_root: "wf_blkptr (sample_root blk)"
  by (simp add: sample_root_def wf_blkptr_def blkptr_default_def wf_dva_def dva_default_def fletcher4_sums)

lemma sample_root_facts:
  "\<not> bp_embedded (sample_root blk)" "checksum_from_raw (bp_checksum (sample_root blk)) = CkFletcher4"
  "bp_dvas (sample_root blk) = dva_default\<lparr>dva_offset_sectors := 1\<rparr> # [dva_default, dva_default]"
  "psize_bytes (sample_root blk) = 512" "bp_byteorder (sample_root blk) = Little"
  "bp_checksum_words (sample_root blk) = fletcher4 blk Little"
  "unat (physical_byte_offset (dva_default\<lparr>dva_offset_sectors := 1\<rparr>)) = 4194816"
  "\<not> dva_is_empty (dva_default\<lparr>dva_offset_sectors := 1\<rparr>)"
  by (simp_all add: sample_root_def blkptr_default_def checksum_from_raw_def psize_bytes_def sat_add_def usize_max_def
    unat_physical_byte_offset dva_default_def dva_is_empty_def)

definition root_image :: "bytes \<Rightarrow> bytes \<Rightarrow> bytes" where
  "root_image stored blk = root_label (sample_root stored) @ replicate 3932672 0 @ blk @ []"

lemma audit_detects_altered_root_witness:
  "''ZFS-UBERBLOCK-CHECKSUM-MISMATCH'' \<in> an_code ` set (audit_image no_codecs
     (root_image ([] @ [1, 2, 3, 4] @ replicate 508 9) ([] @ [1, 2, 3, 5] @ replicate 508 9)))"
proof -
  let ?blk = "[] @ [1, 2, 3, 4] @ replicate 508 (9 :: u8)"
  let ?bp = "sample_root ?blk"
  note len = root_label_facts(1) [OF wf_sample_root [of ?blk]]
  have "rootbp_full (vl_active_uberblock (root_vdev_label ?bp)) = ?bp"
    by (simp add: root_vdev_label_def rootbp_root_uberblock [OF wf_sample_root])
  from audit_detects_altered_root [OF root_label_facts(2) [OF wf_sample_root [of ?blk]] len this [symmetric]
      sample_root_facts(1,2,3,8), of "replicate 3932672 0" "[]" "[1, 2, 3, 4]" "replicate 508 9" "[]" "[1, 2, 3, 5]" 0 no_codecs]
  show ?thesis
    using len by (simp add: root_image_def sample_root_facts LABEL_SIZE_def)
qed


end
