(* ===== verification/Zfs_Recovery.thy ===== *)
theory Zfs_Recovery
  imports Zfs_Forensic Zfs_Pool
begin

section \<open>Recovery on a reference pool\<close>

text \<open>
  The recovery of deleted files run on a formatted pool: what it returns is characterised by the
  trees the pool was formatted from, without a word of blocks, dnodes or directories on disk.
\<close>

definition root_entries :: "fs_node list \<Rightarrow> (rstr \<times> nat \<times> nat) list" where
  "root_entries fs = (case fs ! 0 of FDir es \<Rightarrow> es | FFile _ \<Rightarrow> [])"

text \<open>What reading a node as a file yields: a directory gives the head of its ZAP.\<close>

definition node_content :: "fs_node \<Rightarrow> bytes" where
  "node_content nd = (case nd of FFile bs \<Rightarrow> bs | FDir es \<Rightarrow> take (length es) (zap_data (dir_entries_of es)))"

definition rooted :: "fs_node list \<Rightarrow> bool" where
  "rooted fs \<longleftrightarrow> fs ! 0 = FDir (root_entries fs)"

lemma dir_size_small:
  assumes "fs_on img b fs os" and "j < length fs" and "fs ! j = FDir es"
  shows "unat (of_nat (length es) :: u64) = length es"
proof -
  have names: "list_all (\<lambda>e. wf_zap_name (fst e)) (dir_entries_of es)"
    using wf_fs_dir [OF assms] by (auto simp: dir_entries_of_def list_all_iff)
  have "wf_obj (node_obj (FDir es))" using wf_fs_node [OF assms(1,2)] assms(3) by (simp add: wf_node_def)
  then have "length es div 8 + 1 \<le> 65535"
    by (simp add: wf_obj_def ro_sectors_def length_zap_data [OF names]) (simp add: dir_entries_of_def)
  then have "length es < 65535 * 8" by (simp add: div_less_iff_less_mult [symmetric])
  then show ?thesis by (simp add: unat_of_nat)
qed

lemma fs_read_node:
  assumes "fs_on img b fs os" and "j < length fs"
  shows "zpl_read_file x img os (node_id j) = Inr (node_content (fs ! j))"
proof -
  have "zpl_read_file x img os (node_id j) = Inr (take (unat (za_size (node_attrs (fs ! j)))) (ro_data (node_obj (fs ! j))))"
    using fs_master(2) [OF assms(1), of x] fs_attrs [OF assms, of x] fs_read [OF assms, of x]
    by (simp add: zpl_read_file_def)
  then show ?thesis
    using file_size_small [OF assms] dir_size_small [OF assms]
    by (cases "fs ! j") (simp_all add: node_content_def node_attrs_def pad_sectors_def)
qed

lemma fs_root_listing:
  assumes "fs_on img b fs os" and "rooted fs"
  shows "zpl_master_root x img os = Some (node_id 0)"
    and "zpl_list_dir x img os (node_id 0) = map (\<lambda>(n, t, c). (n, node_id c)) (root_entries fs)"
    and "list_all (\<lambda>(n, t, c). c < length fs) (root_entries fs)"
proof -
  have "0 < length fs" using assms(1) by (simp add: fs_on_def wf_fs_def)
  then show "zpl_list_dir x img os (node_id 0) = map (\<lambda>(n, t, c). (n, node_id c)) (root_entries fs)"
      "list_all (\<lambda>(n, t, c). c < length fs) (root_entries fs)"
    using fs_list_dir [OF assms(1) _ assms(2) [unfolded rooted_def], of x] wf_fs_dir [OF assms(1) _ assms(2) [unfolded rooted_def]]
    by (auto simp: list_all_iff)
qed (rule fs_master(1) [OF assms(1)])

text \<open>The records of one snapshot, read off the trees.\<close>

definition deleted_record :: "ext \<Rightarrow> nat \<Rightarrow> fs_node list \<Rightarrow> rstr \<times> nat \<times> nat \<Rightarrow> recovered_file" where
  "deleted_record x j fs = (\<lambda>(n, t, c). recovered_record x (snapshot_source (dataset_id j)) n (node_id c) (node_content (fs ! c)))"

lemma pool_dataset_objset:
  assumes "mos_on img fss mos" and "j < length fss" and "mos_dnode x img mos (dataset_id j) = Some ds"
  shows "\<exists>b os. dataset_zpl_objset x img ds Little = Some os \<and> fs_on img b (fss ! j) os"
  using pool_dataset [OF assms(1,2), of x] pool_fs [OF assms(1,2), of x] assms(3)
  by (force simp: dataset_zpl_objset_def)

lemma deleted_files_map:
  assumes "fs_on img b fs os" and "list_all (\<lambda>(n, t, c). c < length fs) es"
  shows "deleted_files x img os (snapshot_source (dataset_id j)) live (map (\<lambda>(n, t, c). (n, node_id c)) es) =
    map (deleted_record x j fs) (filter (\<lambda>e. find_name (fst e) live = None) es)"
  using assms(2)
  by (induction es) (auto simp: deleted_files_def List.map_filter_simps deleted_record_def fs_read_node [OF assms(1)])

lemma pool_candidates:
  assumes "mos_on img fss mos" and "j < length fss" and "mos_dnode x img mos (dataset_id j) = Some ds" and "rooted (fss ! j)"
  shows "snapshot_candidates x img Little live (dataset_id j, ds) =
    map (deleted_record x j (fss ! j)) (filter (\<lambda>e. find_name (fst e) live = None) (root_entries (fss ! j)))"
proof -
  obtain b os where os: "dataset_zpl_objset x img ds Little = Some os" "fs_on img b (fss ! j) os"
    using pool_dataset_objset [OF assms(1-3)] by blast
  note root = fs_root_listing [OF os(2) assms(4)]
  show ?thesis by (simp add: snapshot_candidates_def os(1) root(1,2) deleted_files_map [OF os(2) root(3)])
qed

lemma pool_live_names:
  assumes "mos_on img fss mos" and "mos_dnode x img mos (dataset_id 0) = Some ds" and "rooted (fss ! 0)"
  shows "dataset_root_names x img ds Little = map (\<lambda>(n, t, c). (n, node_id c)) (root_entries (fss ! 0))"
proof -
  have "0 < length fss" using assms(1) by (simp add: mos_on_def wf_pool_def)
  then obtain b os where os: "dataset_zpl_objset x img ds Little = Some os" "fs_on img b (fss ! 0) os"
    using pool_dataset_objset [OF assms(1) _ assms(2)] by blast
  note root = fs_root_listing [OF os(2) assms(3)]
  show ?thesis by (simp add: dataset_root_names_def os(1) root(1,2))
qed

text \<open>The chain of a formatted pool is the sequence of its datasets behind the first.\<close>

lemma pool_snapshot_at:
  assumes "mos_on img fss mos" and "start = prev_id (length fss) 0"
  shows "snapshot_at x img mos start m s \<longleftrightarrow>
    Suc m < length fss \<and> fst s = dataset_id (Suc m) \<and> mos_dnode x img mos (fst s) = Some (snd s)"
proof (induction m arbitrary: s)
  case 0
  have "dataset_id (Suc 0) \<noteq> 0" by (rule dataset_id_nz) simp
  then show ?case by (cases s) (auto simp: snapshot_at_0_iff prev_id_def assms(2))
next
  case (Suc m)
  have small: "length fss < 60000" using assms by (simp add: mos_on_def wf_pool_def)
  have nz: "dataset_id (Suc (Suc m)) \<noteq> 0" if "Suc (Suc m) < length fss"
    using that small by (intro dataset_id_nz) simp
  have prev: "dsl_dataset_prev_snap ds = (if Suc (Suc m) < length fss then dataset_id (Suc (Suc m)) else 0)"
    if "Suc m < length fss" "mos_dnode x img mos (dataset_id (Suc m)) = Some ds" for ds
    using pool_dataset [OF assms(1) that(1), of x] that(2) by (auto simp: prev_id_def)
  have ex: "\<exists>ds. mos_dnode x img mos (dataset_id (Suc m)) = Some ds" if "Suc m < length fss"
    using pool_dataset [OF assms(1) that, of x] by auto
  show ?case
  proof
    assume "snapshot_at x img mos start (Suc m) s"
    then obtain obj ds where "snapshot_at x img mos start m (obj, ds)" "fst s = dsl_dataset_prev_snap ds" "fst s \<noteq> 0"
        "mos_dnode x img mos (fst s) = Some (snd s)"
      by (cases s) (auto simp: snapshot_at_Suc_iff)
    then show "Suc (Suc m) < length fss \<and> fst s = dataset_id (Suc (Suc m)) \<and> mos_dnode x img mos (fst s) = Some (snd s)"
      using prev [of ds] unfolding Suc.IH by (auto split: if_splits)
  next
    assume s: "Suc (Suc m) < length fss \<and> fst s = dataset_id (Suc (Suc m)) \<and> mos_dnode x img mos (fst s) = Some (snd s)"
    then obtain ds where ds: "mos_dnode x img mos (dataset_id (Suc m)) = Some ds" using ex by auto
    have "snapshot_at x img mos start m (dataset_id (Suc m), ds)" using s ds by (simp add: Suc.IH)
    then have "snapshot_at x img mos start (Suc m) (dataset_id (Suc (Suc m)), snd s)"
      by (rule snapshot_at.older) (use s ds prev nz in auto)
    then show "snapshot_at x img mos start (Suc m) s" using s by (cases s) simp
  qed
qed

lemma pool_open_mos:
  assumes "pool_on img fss lab"
  shows "\<exists>mos. open_mos x img = Some (mos, Little) \<and> mos_on img fss mos"
  using assms pool_mos [of fss img x] by (force simp: pool_on_def open_mos_def)

lemma pool_head:
  assumes "mos_on img fss mos"
  shows "\<exists>head. head_dataset x img mos = Some head \<and> mos_dnode x img mos (dataset_id 0) = Some head \<and>
    dsl_dataset_prev_snap head = prev_id (length fss) 0"
proof -
  have "0 < length fss" using assms by (simp add: mos_on_def wf_pool_def)
  from pool_dataset [OF assms this, of x] pool_directory [OF assms, of x] dataset_id_nz [of 0] show ?thesis
    by (force simp: head_dataset_def Let_def)
qed

lemma find_deleted_record:
  "List.find (same_path r) (map (deleted_record x j fs) (filter (\<lambda>e. find_name (fst e) live = None) es)) = Some r \<longleftrightarrow>
    find_name (rf_path r) live = None \<and>
    (\<exists>t c. find_name (rf_path r) es = Some (t, c) \<and> r = deleted_record x j fs (rf_path r, t, c))"
proof (induction es)
  case (Cons e es)
  obtain n t c where e: "e = (n, t, c)" by (cases e)
  have "rf_path (deleted_record x j fs (n, t, c)) = n" by (simp add: deleted_record_def recovered_record_def)
  then show ?case using Cons by (auto simp: e same_path_def)
qed simp

lemma deleted_record_paths:
  "rf_path ` set (map (deleted_record x j fs) (filter (\<lambda>e. find_name (fst e) live = None) es)) =
    {n. find_name n live = None \<and> find_name n es \<noteq> None}"
  by (force simp: deleted_record_def recovered_record_def find_name_None_iff)

lemma find_name_entries: "find_name n (map (\<lambda>(n, t, c). (n, node_id c)) es) = map_option (\<lambda>(t, c). node_id c) (find_name n es)"
  by (induction es) auto

definition live_listing :: "fs_node list list \<Rightarrow> (rstr \<times> u64) list" where
  "live_listing fss = map (\<lambda>(n, t, c). (n, node_id c)) (root_entries (fss ! 0))"

lemma live_listing_None: "find_name n (live_listing fss) = None \<longleftrightarrow> find_name n (root_entries (fss ! 0)) = None"
  by (simp add: live_listing_def find_name_entries)

text \<open>What the \<open>m\<close>-th snapshot of the chain offers under a name.\<close>

lemma pool_snapshot_offers:
  fixes x
  assumes "mos_on img fss mos" and "list_all rooted fss" and "snapshot_at x img mos (prev_id (length fss) 0) m s"
  defines "offers \<equiv> snapshot_candidates x img Little (live_listing fss) s"
  shows "List.find (same_path r) offers = Some r \<longleftrightarrow> find_name (rf_path r) (root_entries (fss ! 0)) = None \<and>
      (\<exists>t c. find_name (rf_path r) (root_entries (fss ! Suc m)) = Some (t, c) \<and> r = deleted_record x (Suc m) (fss ! Suc m) (rf_path r, t, c))"
    and "rf_path r \<in> rf_path ` set offers \<longleftrightarrow> find_name (rf_path r) (root_entries (fss ! 0)) = None \<and>
      find_name (rf_path r) (root_entries (fss ! Suc m)) \<noteq> None"
proof -
  have m: "Suc m < length fss" "fst s = dataset_id (Suc m)" "mos_dnode x img mos (dataset_id (Suc m)) = Some (snd s)"
    using assms(3) unfolding pool_snapshot_at [OF assms(1) refl] by auto
  have "rooted (fss ! Suc m)" using assms(2) m(1) by (simp add: list_all_length)
  from pool_candidates [OF assms(1) m(1,3) this, of "live_listing fss"]
  have offers: "offers = map (deleted_record x (Suc m) (fss ! Suc m))
      (filter (\<lambda>e. find_name (fst e) (live_listing fss) = None) (root_entries (fss ! Suc m)))"
    using m(2) by (cases s) (simp add: offers_def)
  show "List.find (same_path r) offers = Some r \<longleftrightarrow> find_name (rf_path r) (root_entries (fss ! 0)) = None \<and>
      (\<exists>t c. find_name (rf_path r) (root_entries (fss ! Suc m)) = Some (t, c) \<and> r = deleted_record x (Suc m) (fss ! Suc m) (rf_path r, t, c))"
    unfolding offers find_deleted_record live_listing_None ..
  show "rf_path r \<in> rf_path ` set offers \<longleftrightarrow> find_name (rf_path r) (root_entries (fss ! 0)) = None \<and>
      find_name (rf_path r) (root_entries (fss ! Suc m)) \<noteq> None"
    unfolding offers deleted_record_paths by (simp add: live_listing_None)
qed

lemma pool_chain_recovers:
  fixes x
  assumes "mos_on img fss mos" and "list_all rooted fss" and "length fss \<le> 4097"
  defines "at \<equiv> snapshot_at x img mos (prev_id (length fss) 0)"
    and "offers \<equiv> snapshot_candidates x img Little (live_listing fss)"
  shows "(\<exists>m s. m < 4096 \<and> at m s \<and> List.find (same_path r) (offers s) = Some r \<and>
      (\<nexists>k t. k < m \<and> at k t \<and> rf_path r \<in> rf_path ` set (offers t))) \<longleftrightarrow>
    (\<exists>m t c. Suc m < length fss \<and> find_name (rf_path r) (root_entries (fss ! Suc m)) = Some (t, c) \<and>
      (\<forall>i<Suc m. find_name (rf_path r) (root_entries (fss ! i)) = None) \<and>
      r = deleted_record x (Suc m) (fss ! Suc m) (rf_path r, t, c))" (is "?l \<longleftrightarrow> ?r")
proof -
  note hit = pool_snapshot_offers(1) [OF assms(1,2), of x, folded at_def offers_def]
    and miss = pool_snapshot_offers(2) [OF assms(1,2), of x, folded at_def offers_def]
  have ex: "\<exists>s. at m s" if "Suc m < length fss" for m
    using pool_dataset [OF assms(1) that, of x] that by (auto simp: at_def pool_snapshot_at [OF assms(1) refl])
  have len: "Suc m < length fss" if "at m s" for m s using that by (simp add: at_def pool_snapshot_at [OF assms(1) refl])
  show ?thesis
  proof
    assume ?l
    then obtain m s where m: "at m s" "List.find (same_path r) (offers s) = Some r"
        "\<And>k t. k < m \<Longrightarrow> at k t \<Longrightarrow> rf_path r \<notin> rf_path ` set (offers t)" by blast
    have "find_name (rf_path r) (root_entries (fss ! Suc k)) = None" if k: "k < m" for k
    proof -
      obtain t where "at k t" using ex [of k] len [OF m(1)] k by auto
      from m(3) [OF k this] miss [OF this] m(2) hit [OF m(1)] show ?thesis by blast
    qed
    then have "\<forall>i<Suc m. find_name (rf_path r) (root_entries (fss ! i)) = None"
      using m(2) hit [OF m(1)] by (auto simp: less_Suc_eq_0_disj)
    then show ?r using m(2) hit [OF m(1)] len [OF m(1)] by blast
  next
    assume ?r
    then obtain m t c where m: "Suc m < length fss" "find_name (rf_path r) (root_entries (fss ! Suc m)) = Some (t, c)"
        "\<forall>i<Suc m. find_name (rf_path r) (root_entries (fss ! i)) = None"
        "r = deleted_record x (Suc m) (fss ! Suc m) (rf_path r, t, c)" by blast
    obtain s where s: "at m s" using ex [OF m(1)] by blast
    have "List.find (same_path r) (offers s) = Some r" using hit [OF s] m by blast
    moreover have "rf_path r \<notin> rf_path ` set (offers t)" if "k < m" "at k t" for k t
      using miss [OF that(2)] m(3) that(1) by auto
    moreover have "m < 4096" using m(1) assms(3) by simp
    ultimately show ?l using s by blast
  qed
qed

text \<open>
  C2. Recovery end to end: on a pool formatted from a live tree and its snapshots (newest first, at
  most 4096 of them) a record is returned exactly for every name that is in the root directory of a
  snapshot but of no newer one and not of the live tree. It names that snapshot's dataset and the
  entry's object, and its content is the file's bytes as they were in that snapshot (for a deleted
  directory, which is reported too, the head of its ZAP).
\<close>

theorem formatted_pool_recovery:
  assumes "pool_on img fss lab" and "list_all rooted fss" and "length fss \<le> 4097"
  shows "r \<in> set (recover_deleted x img) \<longleftrightarrow>
    (\<exists>j t c. 0 < j \<and> j < length fss \<and> find_name (rf_path r) (root_entries (fss ! j)) = Some (t, c) \<and>
      (\<forall>i<j. find_name (rf_path r) (root_entries (fss ! i)) = None) \<and>
      r = recovered_record x (snapshot_source (dataset_id j)) (rf_path r) (node_id c) (node_content (fss ! j ! c)))"
proof -
  obtain mos where mos: "open_mos x img = Some (mos, Little)" "mos_on img fss mos"
    using pool_open_mos [OF assms(1)] by blast
  obtain head where head: "head_dataset x img mos = Some head" "mos_dnode x img mos (dataset_id 0) = Some head"
      "dsl_dataset_prev_snap head = prev_id (length fss) 0"
    using pool_head [OF mos(2)] by blast
  have "rooted (fss ! 0)" using assms(2) mos(2) by (simp add: list_all_length mos_on_def wf_pool_def)
  then have live: "dataset_root_names x img head Little = live_listing fss"
    unfolding live_listing_def by (rule pool_live_names [OF mos(2) head(2)])
  have "r \<in> set (recover_deleted x img) \<longleftrightarrow>
    (\<exists>m t c. Suc m < length fss \<and> find_name (rf_path r) (root_entries (fss ! Suc m)) = Some (t, c) \<and>
      (\<forall>i<Suc m. find_name (rf_path r) (root_entries (fss ! i)) = None) \<and>
      r = deleted_record x (Suc m) (fss ! Suc m) (rf_path r, t, c))"
    using recover_deleted_iff [OF mos(1) head(1), of r] pool_chain_recovers [OF mos(2) assms(2,3), of x r]
    unfolding live head(3) by blast
  also have "\<dots> \<longleftrightarrow> (\<exists>j t c. 0 < j \<and> j < length fss \<and> find_name (rf_path r) (root_entries (fss ! j)) = Some (t, c) \<and>
      (\<forall>i<j. find_name (rf_path r) (root_entries (fss ! i)) = None) \<and>
      r = recovered_record x (snapshot_source (dataset_id j)) (rf_path r) (node_id c) (node_content (fss ! j ! c)))"
    by (simp only: deleted_record_def prod.case gr0_conv_Suc) blast
  finally show ?thesis .
qed

lemma rooted_sample_pool: "list_all rooted sample_pool"
  by (simp add: sample_pool_def rooted_def root_entries_def)

lemma formatted_pool_recovery_witness:
  "recovered_record no_codecs (snapshot_source (dataset_id 1)) (lit ''gone'') (node_id 2) [104, 105] \<in>
     set (recover_deleted no_codecs (pool_image sample_pool)) \<and>
   recovered_record no_codecs (snapshot_source (dataset_id 2)) (lit ''gone'') (node_id 1) [104] \<notin>
     set (recover_deleted no_codecs (pool_image sample_pool))"
proof -
  let ?r = "\<lambda>j c bs. recovered_record no_codecs (snapshot_source (dataset_id j)) (lit ''gone'') (node_id c) bs"
  have spec: "?r k d bs \<in> set (recover_deleted no_codecs (pool_image sample_pool)) \<longleftrightarrow>
    (\<exists>j t c. 0 < j \<and> j < length sample_pool \<and> find_name (lit ''gone'') (root_entries (sample_pool ! j)) = Some (t, c) \<and>
      (\<forall>i<j. find_name (lit ''gone'') (root_entries (sample_pool ! i)) = None) \<and>
      ?r k d bs = ?r j c (node_content (sample_pool ! j ! c)))" for k d bs
    using formatted_pool_recovery [OF pool_image_on [OF wf_sample_pool] rooted_sample_pool, of "?r k d bs" no_codecs]
    by (simp add: recovered_record_def) (simp add: sample_pool_def)
  have content: "?r k d bs = ?r j c bs' \<Longrightarrow> bs = bs'" for k d j c bs bs' by (simp add: recovered_record_def)
  have len: "length sample_pool = 3" by (simp add: sample_pool_def)
  have none: "find_name (lit ''gone'') (root_entries (sample_pool ! 0)) = None"
    and some: "find_name (lit ''gone'') (root_entries (sample_pool ! 1)) = Some (8, 2)"
    by (simp_all add: sample_pool_def root_entries_def lit_def)
  have "?r 1 2 [104, 105] \<in> set (recover_deleted no_codecs (pool_image sample_pool))"
    unfolding spec using len none some
    by (intro exI [of _ 1] exI [of _ 8] exI [of _ 2]) (simp add: sample_pool_def node_content_def)
  moreover have "?r 2 1 [104] \<notin> set (recover_deleted no_codecs (pool_image sample_pool))"
  proof
    assume "?r 2 1 [104] \<in> set (recover_deleted no_codecs (pool_image sample_pool))"
    then obtain j t c where j: "0 < j" "j < 3" "find_name (lit ''gone'') (root_entries (sample_pool ! j)) = Some (t, c)"
        "\<forall>i<j. find_name (lit ''gone'') (root_entries (sample_pool ! i)) = None"
        "[104] = node_content (sample_pool ! j ! c)"
      using content unfolding spec len by blast
    then have "\<not> 1 < j" using some by auto
    then have "j = 1" using j(1) by simp
    then have c: "c = 2" using j(3) some by simp
    have "node_content (sample_pool ! 1 ! 2) = [104, 105]" by (simp add: sample_pool_def node_content_def)
    with j(5) show False by (simp only: \<open>j = 1\<close> c) simp
  qed
  ultimately show ?thesis by blast
qed

lemma recover_deleted_exact_witness: "distinct (map rf_path (recover_deleted no_codecs (pool_image sample_pool)))"
proof -
  obtain mos where mos: "open_mos no_codecs (pool_image sample_pool) = Some (mos, Little)" "mos_on (pool_image sample_pool) sample_pool mos"
    using pool_open_mos [OF pool_image_on [OF wf_sample_pool]] by blast
  obtain head where "head_dataset no_codecs (pool_image sample_pool) mos = Some head"
    using pool_head [OF mos(2)] by blast
  from recover_deleted_exact [OF mos(1) this] show ?thesis by blast
qed

end
