(* ===== verification/Zfs_Vfs.thy ===== *)
theory Zfs_Vfs
  imports Zfs_Label Zfs_Xattr
begin

section \<open>The forensic-vfs adapter (core/src/vfs.rs)\<close>

text \<open>
  The probe, the mount and the operations of the file-system interface. The interface's own types
  are third-party: the datatypes below hold the variants and fields the adapter uses, the remaining
  variants of an identifier are represented by their debug text, and a byte source is the pair of
  functions the adapter calls on it.
\<close>

subsection \<open>The interface types\<close>

datatype node_kind = NkFile | NkDir | NkSymlink | NkDevice | NkOther

datatype file_id = FidOpaque u64 | FidForeign rstr

datatype stream_id = SidDefault | SidXattr u16 | SidForeign rstr

datatype vfs_error =
    VfsBootstrap string rstr
  | VfsDecode string u64 rstr
  | VfsUnsupported string rstr
  | VfsOutOfRange string u64 u64 u64
  | VfsIo rstr

datatype confidence = ConfYes string | ConfNo

record sniff_window =
  sw_base :: u64
  sw_bytes :: bytes

record dyn_source =
  src_len :: u64
  src_read_at :: "u64 \<Rightarrow> usize \<Rightarrow> vfs_error + bytes"

datatype time_source = InodeTable

datatype time_resolution = Nanos

datatype time_zone_policy = Utc

datatype fs_kind = FsZfs

datatype allocation = Allocated

record time_stamp =
  ts_unix_nanos :: int
  ts_source :: time_source
  ts_resolution :: time_resolution

record macb_times =
  mt_modified :: "time_stamp option"
  mt_accessed :: "time_stamp option"
  mt_changed :: "time_stamp option"
  mt_born :: "time_stamp option"

datatype residency = NonResident | Resident u32

datatype stream_kind = SkNtfsData | SkData | SkXattr

record stream_info =
  si_id :: stream_id
  si_name :: "rstr option"
  si_size :: u64
  si_residency :: residency
  si_kind :: stream_kind

record fs_meta =
  fm_ino :: u64
  fm_kind :: node_kind
  fm_allocated :: allocation
  fm_size :: u64
  fm_nlink :: u32
  fm_uid :: "u32 option"
  fm_gid :: "u32 option"
  fm_mode :: "u32 option"
  fm_times :: macb_times
  fm_streams :: "stream_info list"
  fm_residency :: residency
  fm_link_target :: "bytes option"

record dir_entry =
  de_name :: bytes
  de_id :: file_id
  de_kind :: node_kind

record run_flags =
  rf_sparse :: bool
  rf_encrypted :: bool
  rf_compressed :: bool
  rf_filler :: bool

record run_info =
  ri_image_offset :: u64
  ri_len :: u64
  ri_flags :: run_flags
  ri_alloc :: allocation

record sector_sizes =
  ss_logical :: u32
  ss_physical :: u32
  ss_cluster_or_block :: u32

subsection \<open>Constants and the probe\<close>

definition ZIO_COMPRESS_OFF :: u8 where "ZIO_COMPRESS_OFF = 2"
definition DEFAULT_RECORD_SIZE :: u32 where "DEFAULT_RECORD_SIZE = 128 * 1024"
definition MAX_RUNS :: usize where "MAX_RUNS = 65536"
definition S_IFMT :: u64 where "S_IFMT = 0xF000"
definition DIRENT_TYPE_SHIFT :: nat where "DIRENT_TYPE_SHIFT = 60"

definition is_pool_config :: "nvlist \<Rightarrow> bool" where
  "is_pool_config l \<longleftrightarrow> nv_get_u64 l (lit ''version'') \<noteq> None \<and> nv_get_u64 l (lit ''pool_guid'') \<noteq> None \<and>
     nv_get_nvlist l (lit ''vdev_tree'') \<noteq> None"

definition config_region :: "bytes \<Rightarrow> usize \<Rightarrow> bytes option" where
  "config_region img base = do {
     start \<leftarrow> checked_add base NVLIST_OFFSET;
     (let fin = min (sat_add start NVLIST_SIZE) (length img) in slice_get img start fin)
   }"

definition pool_config :: "bytes \<Rightarrow> nvlist option" where
  "pool_config img = do {
     rg \<leftarrow> config_region img 0;
     l \<leftarrow> res_ok (nvlist_parse rg);
     (if is_pool_config l then Some l else None)
   }"

definition zfs_probe :: "sniff_window \<Rightarrow> confidence" where
  "zfs_probe w =
     (if sw_base w \<noteq> 0 then ConfNo
      else case config_region (sw_bytes w) 0 of
        None \<Rightarrow> ConfNo
      | Some rg \<Rightarrow>
          (case nvlist_parse rg of
             Inr l \<Rightarrow> if is_pool_config l
               then ConfYes ''ZFS vdev label nvlist config (version + pool_guid + vdev_tree) at label offset 16384''
               else ConfNo
           | Inl _ \<Rightarrow> ConfNo))"

subsection \<open>The active uberblock\<close>

text \<open>One label's candidate; \<^term>\<open>None\<close> where the loop continues without one.\<close>

definition label_candidate :: "bytes \<Rightarrow> u64 \<Rightarrow> uberblock option" where
  "label_candidate img off = do {
     ring_start \<leftarrow> checked_add (unat off) UBERBLOCK_RING_OFFSET;
     (let ring_end = min (sat_add ring_start UBERBLOCK_RING_SIZE) (length img) in do {
       ring \<leftarrow> slice_get img ring_start ring_end;
       (let slot_size = 2 ^ unat UBERBLOCK_MIN_SHIFT; slots = length ring div slot_size
        in map_option fst (active_uberblock ring slot_size slots))
     })
   }"

definition better_uberblock :: "uberblock option \<Rightarrow> uberblock option \<Rightarrow> uberblock option" where
  "better_uberblock best cand =
     (case cand of
        None \<Rightarrow> best
      | Some ub \<Rightarrow> (case best of Some cur \<Rightarrow> if ub_txg ub \<le> ub_txg cur then best else Some ub | None \<Rightarrow> Some ub))"

definition scanned_offsets :: "bytes \<Rightarrow> u64 list" where
  "scanned_offsets img =
     (case label_offsets (of_nat (length img)) of
        ((a, b), back) \<Rightarrow> [a, b] @ (case back of None \<Rightarrow> [] | Some (c, d) \<Rightarrow> [c, d]))"

definition active_uberblock_across_labels :: "bytes \<Rightarrow> uberblock option" where
  "active_uberblock_across_labels img =
     foldl (\<lambda>best off. better_uberblock best (label_candidate img off)) None (scanned_offsets img)"

subsection \<open>Kinds, times, errors\<close>

definition node_kind_from_mode :: "u64 \<Rightarrow> node_kind" where
  "node_kind_from_mode mode =
     (let t = mode AND S_IFMT in
      if t = 0x8000 then NkFile
      else if t = 0x4000 then NkDir
      else if t = 0xA000 then NkSymlink
      else if t = 0x2000 \<or> t = 0x6000 then NkDevice
      else NkOther)"

definition node_kind_from_dirent :: "u64 \<Rightarrow> node_kind" where
  "node_kind_from_dirent dt =
     (if dt = 8 then NkFile
      else if dt = 4 then NkDir
      else if dt = 10 then NkSymlink
      else if dt = 2 \<or> dt = 6 then NkDevice
      else NkOther)"

definition to_ts :: "u64 \<times> u64 \<Rightarrow> time_stamp" where
  "to_ts ts = \<lparr>ts_unix_nanos = uint (fst ts) * 1000000000 + uint (snd ts),
     ts_source = InodeTable, ts_resolution = Nanos\<rparr>"

definition decode_err :: "zfs_error \<Rightarrow> vfs_error" where
  "decode_err e = VfsDecode ''zfs'' 0 (zfs_error_display e)"

text \<open>The debug texts of the identifiers.\<close>

fun dbg_file_id :: "file_id \<Rightarrow> rstr" where
  "dbg_file_id (FidOpaque n) = lit ''Opaque('' @ dec_digits (unat n) @ lit '')''"
| "dbg_file_id (FidForeign t) = t"

fun dbg_stream_id :: "stream_id \<Rightarrow> rstr" where
  "dbg_stream_id SidDefault = lit ''Default''"
| "dbg_stream_id (SidXattr i) = lit ''Xattr('' @ dec_digits (unat i) @ lit '')''"
| "dbg_stream_id (SidForeign t) = t"

definition bad_file_id :: "file_id \<Rightarrow> vfs_error" where
  "bad_file_id fid = VfsUnsupported ''zfs file-id''
     (dbg_file_id fid @ lit '' (ZFS addresses objects by object id: FileId::Opaque)'')"

definition object_of :: "file_id \<Rightarrow> vfs_error + u64" where
  "object_of fid = (case fid of FidOpaque n \<Rightarrow> Inr n | FidForeign _ \<Rightarrow> Inl (bad_file_id fid))"

subsection \<open>Mounting\<close>

text \<open>The loop of \<^verbatim>\<open>read_all\<close>; \<open>acc\<close> is the filled part of the buffer.\<close>

function read_all_loop :: "dyn_source \<Rightarrow> usize \<Rightarrow> bytes \<Rightarrow> vfs_error + bytes" where
  "read_all_loop src cap acc =
     (if length acc < cap then
        rbind (src_read_at src (of_nat (length acc)) (cap - length acc)) (\<lambda>bs.
          if bs = [] then Inr acc else read_all_loop src cap (acc @ bs))
      else Inr acc)"
  by pat_completeness auto
termination
  by (relation "measure (\<lambda>(src, cap, acc). cap - length acc)") (auto simp: neq_Nil_conv)

declare read_all_loop.simps [simp del]

definition read_all :: "dyn_source \<Rightarrow> vfs_error + bytes" where
  "read_all src = read_all_loop src (unat (src_len src)) []"

record zfs_fs =
  zf_image :: bytes
  zf_zpl :: objset
  zf_registry :: sa_registry
  zf_layouts :: sa_layouts
  zf_root_id :: u64
  zf_record_size :: u32
  zf_pool_name :: "rstr option"

definition dbg_label_offsets :: "(u64 \<times> u64) \<times> (u64 \<times> u64) option \<Rightarrow> rstr" where
  "dbg_label_offsets o4 =
     (let pair = (\<lambda>(a, b). lit ''['' @ dec_digits (unat (a :: u64)) @ lit '', '' @ dec_digits (unat (b :: u64)) @ lit '']'')
      in lit ''('' @ pair (fst o4) @ lit '', '' @
         (case snd o4 of None \<Rightarrow> lit ''None'' | Some p \<Rightarrow> lit ''Some('' @ pair p @ lit '')'') @ lit '')'')"

definition dbg_endian :: "endian \<Rightarrow> rstr" where
  "dbg_endian e = (case e of Little \<Rightarrow> lit ''Little'' | Big \<Rightarrow> lit ''Big'')"

definition no_uberblock_detail :: "bytes \<Rightarrow> rstr" where
  "no_uberblock_detail img =
     lit ''no slot carrying UBERBLOCK_MAGIC 0x00bab10c in any vdev label of a '' @ dec_digits (length img) @
     lit '' byte source (scanned label offsets '' @ dbg_label_offsets (label_offsets (of_nat (length img))) @
     lit '' at 1 KiB granularity)''"

definition rootbp_detail :: "uberblock \<Rightarrow> blkptr \<Rightarrow> zfs_error \<Rightarrow> rstr" where
  "rootbp_detail ub bp e =
     (let d = bp_dvas bp ! 0 in
      lit ''txg '' @ dec_digits (unat (ub_txg ub)) @ lit '', rootbp DVA[0] vdev '' @ dec_digits (unat (dva_vdev d)) @
      lit '' offset_sectors '' @ dec_digits (unat (dva_offset_sectors d)) @ lit '' -> byte '' @
      dec_digits (unat (physical_byte_offset d)) @ lit '': '' @ zfs_error_display e)"

definition record_size_of :: "dnode option \<Rightarrow> u32" where
  "record_size_of dn =
     (case dn of
        None \<Rightarrow> DEFAULT_RECORD_SIZE
      | Some d \<Rightarrow>
          (let n = data_block_size d in
           if n < 2 ^ 32 \<and> n \<noteq> 0 then of_nat n else DEFAULT_RECORD_SIZE))"

definition zfs_open :: "ext \<Rightarrow> dyn_source \<Rightarrow> vfs_error + zfs_fs" where
  "zfs_open x src =
     rbind (read_all src) (\<lambda>img.
     rbind (ok_or (active_uberblock_across_labels img)
       (VfsBootstrap ''zfs uberblock ring'' (no_uberblock_detail img))) (\<lambda>ub.
     let rootbp = rootbp_full ub in
     rbind (map_err (\<lambda>e. VfsBootstrap ''zfs MOS objset block (uberblock rootbp)'' (rootbp_detail ub rootbp e))
       (read_block x img rootbp)) (\<lambda>mos_block.
     rbind (map_err (\<lambda>e. VfsBootstrap ''zfs MOS objset''
         (lit ''txg '' @ dec_digits (unat (ub_txg ub)) @ lit '': '' @ zfs_error_display e))
       (objset_parse (blk_data mos_block) (ub_endian ub))) (\<lambda>mos.
     rbind (ok_or (zpl_objset x img mos)
       (VfsBootstrap ''zfs MOS object directory -> DSL dir -> DSL dataset -> ZPL objset''
         (lit ''the root_dataset chain did not resolve to a readable objset (MOS os_type '' @
          dec_digits (unat (os_type mos)) @ lit '', endian '' @ dbg_endian (os_endian mos) @ lit '')''))) (\<lambda>zpl.
     if os_type zpl \<noteq> DMU_OST_ZFS then
       Inl (VfsBootstrap ''zfs dataset objset type''
         (lit ''resolved objset os_type '' @ dec_digits (unat (os_type zpl)) @ lit '' is not DMU_OST_ZFS ('' @
          dec_digits (unat DMU_OST_ZFS) @ lit '')''))
     else
     rbind (ok_or (zpl_master_root x img zpl)
       (VfsBootstrap ''zfs ZPL master node ROOT entry''
         (lit ''the master node (object 1) named no ROOT directory''))) (\<lambda>root_id.
     let (registry, layouts) = (case zpl_sa_context x img zpl of
           Some c \<Rightarrow> c | None \<Rightarrow> (\<lparr>sr_by_name = []\<rparr>, \<lparr>sl_by_num = []\<rparr>));
         record_size = record_size_of (mos_dnode x img zpl root_id);
         pool_name = Option.bind (pool_config img) (\<lambda>c. nv_get_str c (lit ''name''))
     in Inr \<lparr>zf_image = img, zf_zpl = zpl, zf_registry = registry, zf_layouts = layouts,
          zf_root_id = root_id, zf_record_size = record_size, zf_pool_name = pool_name\<rparr>))))))"

subsection \<open>Helpers of the mounted file system\<close>

definition vfs_dnode :: "ext \<Rightarrow> zfs_fs \<Rightarrow> file_id \<Rightarrow> vfs_error + dnode" where
  "vfs_dnode x fs fid =
     rbind (object_of fid) (\<lambda>obj.
       ok_or (mos_dnode x (zf_image fs) (zf_zpl fs) obj)
         (VfsOutOfRange ''zfs object id (absent or an empty dnode slot)'' obj 1 0))"

definition vfs_attrs :: "ext \<Rightarrow> zfs_fs \<Rightarrow> u64 \<Rightarrow> zpl_attrs_rec option" where
  "vfs_attrs x fs obj = zpl_attrs x (zf_image fs) (zf_zpl fs) (zf_registry fs) (zf_layouts fs) obj"

definition vfs_dir_entries :: "ext \<Rightarrow> zfs_fs \<Rightarrow> u64 \<Rightarrow> vfs_error + (bytes \<times> u64 \<times> node_kind) list" where
  "vfs_dir_entries x fs obj =
     rbind (ok_or (mos_dnode x (zf_image fs) (zf_zpl fs) obj)
       (VfsOutOfRange ''zfs directory object id (absent or an empty dnode slot)'' obj 1 0)) (\<lambda>dn.
     rbind (map_err decode_err (read_zap_object x (zf_image fs) dn)) (\<lambda>data.
       Inr (map (\<lambda>(name, raw).
         (name, raw AND ZPL_DIRENT_OBJ_MASK, node_kind_from_dirent (drop_bit DIRENT_TYPE_SHIFT raw AND 0xF)))
         (zap_list data))))"

text \<open>The two inner loops of \<^verbatim>\<open>l0_blkptrs\<close>, with their breaks at the cap, and its level loop.\<close>

fun push_children :: "endian \<Rightarrow> bytes list \<Rightarrow> blkptr list \<Rightarrow> blkptr list" where
  "push_children e [] next = next"
| "push_children e (chunk # chunks) next =
     (if length next \<ge> MAX_RUNS then next
      else let child = blkptr_parse chunk e in
        push_children e chunks (if is_hole child then next else next @ [child]))"

fun expand_level :: "ext \<Rightarrow> bytes \<Rightarrow> blkptr list \<Rightarrow> blkptr list \<Rightarrow> blkptr list" where
  "expand_level x img [] next = next"
| "expand_level x img (bp # bps) next =
     (if length next \<ge> MAX_RUNS then next
      else case read_block x img bp of
        Inl _ \<Rightarrow> expand_level x img bps next
      | Inr blk \<Rightarrow>
          expand_level x img bps (push_children (bp_byteorder bp) (chunks_exact BLKPTR_SIZE (blk_data blk)) next))"

fun descend_levels :: "ext \<Rightarrow> bytes \<Rightarrow> nat \<Rightarrow> blkptr list \<Rightarrow> blkptr list" where
  "descend_levels x img 0 level = level"
| "descend_levels x img (Suc r) level =
     (if r = 0 \<or> level = [] then level else descend_levels x img r (expand_level x img level []))"

definition l0_blkptrs :: "ext \<Rightarrow> zfs_fs \<Rightarrow> dnode \<Rightarrow> blkptr list" where
  "l0_blkptrs x fs dn =
     (let level = take MAX_RUNS (filter (\<lambda>b. \<not> is_hole b) (dn_blkptrs dn));
          remaining = unat (min (dn_nlevels dn) MAX_INDIRECT_LEVELS)
      in filter (\<lambda>bp. \<not> bp_embedded bp \<and> \<not> dva_is_empty (bp_dvas bp ! 0))
           (descend_levels x (zf_image fs) remaining level))"

definition vfs_content :: "ext \<Rightarrow> zfs_fs \<Rightarrow> u64 \<Rightarrow> vfs_error + bytes" where
  "vfs_content x fs obj =
     (let vsize = map_option za_size (vfs_attrs x fs obj)
      in map_err decode_err (zpl_read_file_with x (zf_image fs) (zf_zpl fs) obj vsize))"

subsection \<open>The file-system operations\<close>

definition vfs_kind :: "zfs_fs \<Rightarrow> fs_kind" where
  "vfs_kind fs = FsZfs"

definition vfs_timestamp_zone :: "zfs_fs \<Rightarrow> time_zone_policy" where
  "vfs_timestamp_zone fs = Utc"

definition vfs_root :: "zfs_fs \<Rightarrow> file_id" where
  "vfs_root fs = FidOpaque (zf_root_id fs)"

definition vfs_sector_sizes :: "zfs_fs \<Rightarrow> sector_sizes" where
  "vfs_sector_sizes fs = \<lparr>ss_logical = 512, ss_physical = 512, ss_cluster_or_block = zf_record_size fs\<rparr>"

definition vfs_volume_label :: "zfs_fs \<Rightarrow> rstr option" where
  "vfs_volume_label fs = zf_pool_name fs"

definition vfs_read_dir :: "ext \<Rightarrow> zfs_fs \<Rightarrow> file_id \<Rightarrow> vfs_error + dir_entry list" where
  "vfs_read_dir x fs ino =
     rbind (object_of ino) (\<lambda>obj.
     rbind (vfs_dir_entries x fs obj) (\<lambda>entries.
       Inr (map (\<lambda>(name, child, kind). \<lparr>de_name = name, de_id = FidOpaque child, de_kind = kind\<rparr>) entries)))"

definition single_stream_error :: "stream_id \<Rightarrow> vfs_error" where
  "single_stream_error stream = VfsUnsupported ''zfs stream''
     (dbg_stream_id stream @ lit '' (ZFS objects carry a single data stream)'')"

definition run_of :: "blkptr \<Rightarrow> run_info" where
  "run_of bp = \<lparr>ri_image_offset = physical_byte_offset (bp_dvas bp ! 0), ri_len = of_nat (psize_bytes bp),
     ri_flags = \<lparr>rf_sparse = False, rf_encrypted = False,
       rf_compressed = (bp_compression bp \<noteq> 0 \<and> bp_compression bp \<noteq> ZIO_COMPRESS_OFF), rf_filler = False\<rparr>,
     ri_alloc = Allocated\<rparr>"

definition vfs_extents :: "ext \<Rightarrow> zfs_fs \<Rightarrow> file_id \<Rightarrow> stream_id \<Rightarrow> vfs_error + run_info list" where
  "vfs_extents x fs ino stream =
     (if stream \<noteq> SidDefault then Inl (single_stream_error stream)
      else rbind (vfs_dnode x fs ino) (\<lambda>dn. Inr (map run_of (l0_blkptrs x fs dn))))"

definition vfs_lookup :: "ext \<Rightarrow> zfs_fs \<Rightarrow> file_id \<Rightarrow> bytes \<Rightarrow> vfs_error + file_id option" where
  "vfs_lookup x fs parent name =
     rbind (object_of parent) (\<lambda>obj.
     rbind (vfs_dir_entries x fs obj) (\<lambda>entries.
       Inr (map_option (\<lambda>(n, child, k). FidOpaque child) (List.find (\<lambda>e. fst e = name) entries))))"

definition try_u32 :: "u64 \<Rightarrow> u32 option" where
  "try_u32 v = (if unat v < 2 ^ 32 then Some (ucast v) else None)"

definition data_stream_info :: "u64 \<Rightarrow> stream_kind \<Rightarrow> stream_info" where
  "data_stream_info sz kind =
     \<lparr>si_id = SidDefault, si_name = None, si_size = sz, si_residency = NonResident, si_kind = kind\<rparr>"

definition vfs_meta :: "ext \<Rightarrow> zfs_fs \<Rightarrow> file_id \<Rightarrow> vfs_error + fs_meta" where
  "vfs_meta x fs ino =
     rbind (object_of ino) (\<lambda>obj.
     rbind (vfs_dnode x fs ino) (\<lambda>_.
       let attrs = vfs_attrs x fs obj;
           kind = (case attrs of None \<Rightarrow> NkOther | Some a \<Rightarrow> node_kind_from_mode (za_mode a));
           vsize = (case attrs of None \<Rightarrow> 0 | Some a \<Rightarrow> za_size a);
           times = (case attrs of
             None \<Rightarrow> \<lparr>mt_modified = None, mt_accessed = None, mt_changed = None, mt_born = None\<rparr>
           | Some a \<Rightarrow> \<lparr>mt_modified = Some (to_ts (za_mtime a)), mt_accessed = Some (to_ts (za_atime a)),
               mt_changed = Some (to_ts (za_ctime a)), mt_born = Some (to_ts (za_crtime a))\<rparr>)
       in Inr \<lparr>fm_ino = obj, fm_kind = kind, fm_allocated = Allocated, fm_size = vsize,
            fm_nlink = (case Option.bind attrs (\<lambda>a. try_u32 (za_links a)) of Some n \<Rightarrow> n | None \<Rightarrow> 0),
            fm_uid = Option.bind attrs (\<lambda>a. try_u32 (za_uid a)),
            fm_gid = Option.bind attrs (\<lambda>a. try_u32 (za_gid a)),
            fm_mode = Option.bind attrs (\<lambda>a. try_u32 (za_mode a)),
            fm_times = times, fm_streams = [data_stream_info vsize SkNtfsData],
            fm_residency = NonResident, fm_link_target = None\<rparr>))"

definition xattr_stream :: "nat \<times> xattr \<Rightarrow> stream_info" where
  "xattr_stream ix =
     (case ix of (i, xa) \<Rightarrow>
        \<lparr>si_id = SidXattr (if i < 2 ^ 16 then of_nat i else - 1), si_name = Some (xa_name xa),
         si_size = of_nat (length (xa_value xa)),
         si_residency = Resident (if length (xa_value xa) < 2 ^ 32 then of_nat (length (xa_value xa)) else - 1),
         si_kind = SkXattr\<rparr>)"

definition vfs_data_streams :: "ext \<Rightarrow> zfs_fs \<Rightarrow> file_id \<Rightarrow> vfs_error + stream_info list" where
  "vfs_data_streams x fs ino =
     rbind (object_of ino) (\<lambda>obj.
       let vsize = (case vfs_attrs x fs obj of None \<Rightarrow> 0 | Some a \<Rightarrow> za_size a) in
       Inr (data_stream_info vsize SkData #
         map xattr_stream (List.enumerate 0 (list_xattrs x (zf_image fs) (zf_zpl fs) obj))))"

text \<open>The bytes a read copies into a buffer of \<open>n\<close> bytes; its count is their number.\<close>

definition copy_from :: "bytes \<Rightarrow> usize \<Rightarrow> usize \<Rightarrow> bytes" where
  "copy_from data start n =
     (case slice_from data start of None \<Rightarrow> [] | Some tail \<Rightarrow> take (min (length tail) n) tail)"

definition vfs_read_at :: "ext \<Rightarrow> zfs_fs \<Rightarrow> file_id \<Rightarrow> stream_id \<Rightarrow> u64 \<Rightarrow> usize \<Rightarrow> vfs_error + bytes" where
  "vfs_read_at x fs ino stream off n =
     rbind (object_of ino) (\<lambda>obj.
       case stream of
         SidXattr idx \<Rightarrow>
           (let all = list_xattrs x (zf_image fs) (zf_zpl fs) obj in
            rbind (ok_or (nth_get all (unat idx)) (VfsUnsupported ''zfs xattr index''
                (lit ''attribute '' @ dec_digits (unat idx) @ lit '' of '' @ dec_digits (length all)))) (\<lambda>xa.
              Inr (copy_from (xa_value xa) (unat off) n)))
       | SidDefault \<Rightarrow>
           rbind (vfs_content x fs obj) (\<lambda>content. Inr (copy_from content (unat off) n))
       | SidForeign t \<Rightarrow> Inl (single_stream_error stream))"

definition vfs_read_link :: "ext \<Rightarrow> zfs_fs \<Rightarrow> file_id \<Rightarrow> usize \<Rightarrow> vfs_error + bytes" where
  "vfs_read_link x fs ino cap =
     rbind (object_of ino) (\<lambda>obj.
       let is_symlink = (case vfs_attrs x fs obj of
             None \<Rightarrow> False | Some a \<Rightarrow> node_kind_from_mode (za_mode a) = NkSymlink) in
       if \<not> is_symlink then Inr []
       else rbind (vfs_content x fs obj) (\<lambda>target. Inr (take cap target)))"

definition vfs_deleted :: "zfs_fs \<Rightarrow> vfs_error + dir_entry list" where
  "vfs_deleted fs = Inr []"

definition vfs_unallocated :: "zfs_fs \<Rightarrow> vfs_error + run_info list" where
  "vfs_unallocated fs = Inr []"

subsection \<open>Choosing the uberblock\<close>

text \<open>A slot is decoded from its first 168 bytes.\<close>

lemma uberblock_parse_append: "168 \<le> length bs \<Longrightarrow> uberblock_parse (bs @ rest) = uberblock_parse bs"
  by (simp add: uberblock_parse_def detect_endian_def ub_offsets le64.append_left be64.append_left rd64.append_left
    slice_get_append1 Let_def)

lemma ring_slot_coarse:
  assumes "0 < m" and "(k + 1) * (1024 * m) \<le> length ring"
  shows "ring_slot ring 1024 (k * m) = ring_slot ring (1024 * m) k"
proof -
  let ?tail = "drop (k * (1024 * m)) ring"
  have m: "1024 \<le> 1024 * m" using assms(1) by simp
  have "(k + 1) * (1024 * m) = k * (1024 * m) + 1024 * m" by simp
  then have len: "1024 * m \<le> length ?tail" using assms(2) by simp
  have "take 1024 (take (1024 * m) ?tail) = take 1024 ?tail" using m by (simp add: take_take)
  then have "take (1024 * m) ?tail = take 1024 ?tail @ drop 1024 (take (1024 * m) ?tail)"
    using append_take_drop_id [of 1024 "take (1024 * m) ?tail"] by metis
  moreover have "168 \<le> length (take 1024 ?tail)" using m len by simp
  ultimately have "uberblock_parse (take (1024 * m) ?tail) = uberblock_parse (take 1024 ?tail)"
    using uberblock_parse_append by metis
  moreover have "k * m * 1024 = k * (1024 * m)" by simp
  ultimately show ?thesis by (simp only: ring_slot_def)
qed

text \<open>
  C28. The mount's scan at 1 KiB finds what a scan at the pool's own slot size finds, at the
  corresponding slot, whatever that size is, as long as no 1 KiB boundary inside a slot holds an
  uberblock of its own.
\<close>

theorem ring_scan_granularity:
  assumes "0 < m" and "n * (1024 * m) \<le> length ring" and "length ring \<le> usize_max"
    and "\<And>i. i < n * m \<Longrightarrow> \<not> m dvd i \<Longrightarrow> ring_slot ring 1024 i = None"
  shows "active_uberblock ring 1024 (n * m) =
    map_option (\<lambda>(ub, k). (ub, k * m)) (active_uberblock ring (1024 * m) n)"
proof (rule best_of_unique)
  have "n * m * 1024 \<le> length ring" using assms(2) by (simp add: ac_simps)
  then show "best_of (ring_slot ring 1024) {..<n * m} (active_uberblock ring 1024 (n * m))"
    using active_uberblock_best assms(3) by blast
  have coarse: "ring_slot ring 1024 (k * m) = ring_slot ring (1024 * m) k" if "k < n" for k
  proof (rule ring_slot_coarse [OF assms(1)])
    have "(k + 1) * (1024 * m) \<le> n * (1024 * m)" using that by (intro mult_le_mono1) simp
    then show "(k + 1) * (1024 * m) \<le> length ring" using assms(2) by (rule le_trans)
  qed
  have fine: "\<exists>k. i = k * m \<and> k < n \<and> ring_slot ring (1024 * m) k = Some v"
    if i: "i < n * m" "ring_slot ring 1024 i = Some v" for i v
  proof -
    have "m dvd i" using assms(4) [OF i(1)] i(2) by auto
    then obtain k where "i = k * m" by (metis dvd_def mult.commute)
    then show ?thesis using i coarse [of k] assms(1) by auto
  qed
  have best: "best_of (ring_slot ring (1024 * m)) {..<n} (active_uberblock ring (1024 * m) n)"
    by (rule active_uberblock_best [OF assms(2,3)])
  show "best_of (ring_slot ring 1024) {..<n * m}
      (map_option (\<lambda>(ub, k). (ub, k * m)) (active_uberblock ring (1024 * m) n))"
  proof (cases "active_uberblock ring (1024 * m) n")
    case None
    then have none: "ring_slot ring (1024 * m) k = None" if "k < n" for k using best that by (simp add: best_of_def)
    have "ring_slot ring 1024 i = None" if "i < n * m" for i
      using fine [OF that] none by (cases "ring_slot ring 1024 i") force+
    then show ?thesis using None by (simp add: best_of_def)
  next
    case (Some r)
    obtain ub k where r: "r = (ub, k)" by (cases r)
    then have k: "k < n" "ring_slot ring (1024 * m) k = Some ub"
      and top: "\<And>j v. j < n \<Longrightarrow> ring_slot ring (1024 * m) j = Some v \<Longrightarrow> ub_txg v \<le> ub_txg ub \<and> (j < k \<longrightarrow> ub_txg v < ub_txg ub)"
      using best Some by (auto simp: best_of_def)
    have "ub_txg v \<le> ub_txg ub \<and> (i < k * m \<longrightarrow> ub_txg v < ub_txg ub)"
      if "i < n * m" "ring_slot ring 1024 i = Some v" for i v
      using fine [OF that] top assms(1) by auto
    then show ?thesis using Some r k coarse [OF k(1)] assms(1) by (simp add: best_of_def)
  qed
qed

lemma ring_scan_granularity_witness:
  "let z = replicate 1024 0; ring = concat [slot_of (sample_uberblock Little 7), z, z, z, slot_of (sample_uberblock Big 9), z, z, z]
   in active_uberblock ring 1024 (2 * 4) = map_option (\<lambda>(ub, k). (ub, k * 4)) (active_uberblock ring (1024 * 4) 2)"
proof -
  let ?z = "replicate 1024 (0 :: u8)"
  let ?slots = "[slot_of (sample_uberblock Little 7), ?z, ?z, ?z, slot_of (sample_uberblock Big 9), ?z, ?z, ?z]"
  let ?ring = "concat ?slots"
  have len: "length ?ring = 8192" by (simp add: length_slot_of)
  have sized: "list_all (\<lambda>s. length s = 1024) ?slots" by (simp add: length_slot_of)
  have none: "ring_slot ?ring 1024 i = None" if "i < 2 * 4" "\<not> 4 dvd i" for i
  proof -
    have "i = 1 \<or> i = 2 \<or> i = 3 \<or> i = 5 \<or> i = 6 \<or> i = 7" using that by presburger
    moreover have "?slots ! k = ?z" if "k \<in> {1, 2, 3, 5, 6, 7}" for k using that by auto
    ultimately have "?slots ! i = ?z" by auto
    then show ?thesis
      using ring_slot_concat [OF sized, of i] that(1) uberblock_parse_zeros [of 1024] by simp
  qed
  show ?thesis unfolding Let_def
    by (rule ring_scan_granularity [OF _ _ _ none]) (use len in \<open>simp_all add: usize_max_def\<close>)
qed

text \<open>The candidates of the labels, in scanning order.\<close>

definition label_candidates :: "bytes \<Rightarrow> nat \<Rightarrow> uberblock option" where
  "label_candidates img i = label_candidate img (scanned_offsets img ! i)"

lemma foldl_better:
  "best_of s {..<n} b \<Longrightarrow> \<exists>b'. best_of s {..<n + k} b' \<and>
    map_option fst b' = foldl (\<lambda>best i. better_uberblock best (s i)) (map_option fst b) [n..<n + k]"
proof (induction k arbitrary: n b)
  case (Suc k)
  define b' where "b' = (case s n of None \<Rightarrow> b
    | Some ub \<Rightarrow> (case b of Some (cur, j) \<Rightarrow> if ub_txg ub \<le> ub_txg cur then b else Some (ub, n) | None \<Rightarrow> Some (ub, n)))"
  have "best_of s {..<Suc n} b'"
    using Suc.prems by (fastforce simp: best_of_def b'_def less_Suc_eq split: option.splits)
  moreover have "map_option fst b' = better_uberblock (map_option fst b) (s n)"
    by (auto simp: b'_def better_uberblock_def split: option.splits)
  ultimately show ?case using Suc.IH [of "Suc n" b'] by (simp add: upt_conv_Cons del: upt_Suc)
qed auto

lemma active_across_best:
  "\<exists>b. best_of (label_candidates img) {..<length (scanned_offsets img)} b \<and>
    active_uberblock_across_labels img = map_option fst b"
proof -
  have "active_uberblock_across_labels img =
      foldl (\<lambda>best i. better_uberblock best (label_candidates img i)) None [0..<length (scanned_offsets img)]"
    using foldl_map [of "\<lambda>best off. better_uberblock best (label_candidate img off)" None "(!) (scanned_offsets img)" "[0..<length (scanned_offsets img)]"]
    by (simp only: active_uberblock_across_labels_def label_candidates_def map_nth)
  then show ?thesis
    using foldl_better [of "label_candidates img" 0 None "length (scanned_offsets img)"] by (auto simp: best_of_def)
qed

text \<open>
  C27. The uberblock a mount uses is the one of highest txg over all labels that have one, the first
  label in scanning order on a tie (so a mount never rolls back while any label is newer), and there
  is none just when no label has one.
\<close>

theorem active_across_labels_spec:
  "(case active_uberblock_across_labels img of
      None \<Rightarrow> list_all (\<lambda>off. label_candidate img off = None) (scanned_offsets img)
    | Some ub \<Rightarrow> (\<exists>older k newer. scanned_offsets img = older @ k # newer \<and> label_candidate img k = Some ub \<and>
        list_all (\<lambda>off. case label_candidate img off of None \<Rightarrow> True | Some v \<Rightarrow> ub_txg v < ub_txg ub) older \<and>
        list_all (\<lambda>off. case label_candidate img off of None \<Rightarrow> True | Some v \<Rightarrow> ub_txg v \<le> ub_txg ub) newer))"
proof -
  let ?o = "scanned_offsets img"
  obtain b where b: "best_of (label_candidates img) {..<length ?o} b" "active_uberblock_across_labels img = map_option fst b"
    using active_across_best [of img] by blast
  show ?thesis
  proof (cases b)
    case None
    then show ?thesis using b by (simp add: best_of_def label_candidates_def list_all_length)
  next
    case (Some r)
    obtain ub k where r: "r = (ub, k)" by (cases r)
    then have k: "k < length ?o" "label_candidate img (?o ! k) = Some ub"
      and top: "\<And>j v. j < length ?o \<Longrightarrow> label_candidate img (?o ! j) = Some v \<Longrightarrow>
        ub_txg v \<le> ub_txg ub \<and> (j < k \<longrightarrow> ub_txg v < ub_txg ub)"
      using b(1) Some by (auto simp: best_of_def label_candidates_def)
    have "?o = take k ?o @ ?o ! k # drop (Suc k) ?o" using k(1) by (rule id_take_nth_drop)
    moreover have "list_all (\<lambda>off. case label_candidate img off of None \<Rightarrow> True | Some v \<Rightarrow> ub_txg v < ub_txg ub) (take k ?o)"
      using top order.strict_trans [OF _ k(1)] by (auto simp: list_all_length split: option.split)
    moreover have "list_all (\<lambda>off. case label_candidate img off of None \<Rightarrow> True | Some v \<Rightarrow> ub_txg v \<le> ub_txg ub) (drop (Suc k) ?o)"
      using k(1) by (auto simp: list_all_length split: option.split dest!: top [rotated])
    ultimately show ?thesis using b(2) Some r k(2) by auto
  qed
qed

subsection \<open>Byte sources\<close>

text \<open>
  The contract of a byte source over \<open>content\<close>: a read inside it returns at least one byte and at
  most what was asked for, taken from the offset. Short reads are allowed.
\<close>

locale byte_source =
  fixes content :: bytes and src :: dyn_source
  assumes src_len: "unat (src_len src) = length content"
    and src_read: "off < length content \<Longrightarrow> 0 < n \<Longrightarrow>
      \<exists>k. 0 < k \<and> k \<le> n \<and> src_read_at src (of_nat off) n = Inr (take k (drop off content))"
begin

lemma read_all_loop_from: "off \<le> length content \<Longrightarrow> read_all_loop src (length content) (take off content) = Inr content"
proof (induction "length content - off" arbitrary: off rule: less_induct)
  case less
  show ?case
  proof (cases "off < length content")
    case True
    then obtain k where k: "0 < k" "src_read_at src (of_nat off) (length content - off) = Inr (take k (drop off content))"
      using src_read [of off "length content - off"] by auto
    let ?next = "min (off + k) (length content)"
    have "take off content @ take k (drop off content) = take ?next content" by (simp add: take_add [symmetric] min_def)
    moreover have "read_all_loop src (length content) (take ?next content) = Inr content"
      using True k(1) by (intro less.hyps) auto
    moreover have "take k (drop off content) \<noteq> []" using True k(1) by simp
    ultimately show ?thesis using True k(2) by (subst read_all_loop.simps) (simp add: min_def rbind_def)
  next
    case False
    then show ?thesis using less.prems by (subst read_all_loop.simps) simp
  qed
qed

lemma read_all_content: "read_all src = Inr content"
  using read_all_loop_from [of 0] by (simp add: read_all_def src_len)

end

text \<open>A buffer in memory as a source, serving at most \<open>chunk\<close> bytes a read.\<close>

definition mem_source :: "nat \<Rightarrow> bytes \<Rightarrow> dyn_source" where
  "mem_source chunk data = \<lparr>src_len = of_nat (length data),
     src_read_at = (\<lambda>off n. Inr (take (min n (Suc chunk)) (drop (unat off) data)))\<rparr>"

definition addressable :: "bytes \<Rightarrow> bytes" where
  "addressable data = take usize_max data"

lemma unat_addressable: "n \<le> length (addressable data) \<Longrightarrow> unat (of_nat n :: u64) = n"
  by (simp add: addressable_def unat_of_nat usize_max_def)

interpretation mem: byte_source "addressable data" "mem_source chunk (addressable data)" for data chunk
proof
  show "unat (src_len (mem_source chunk (addressable data))) = length (addressable data)"
    by (simp add: mem_source_def unat_addressable [OF order_refl])
  fix off n
  assume off: "off < length (addressable data)" "0 < (n :: nat)"
  have "unat (of_nat off :: u64) = off" using off(1) by (intro unat_addressable [of _ data]) simp
  then show "\<exists>k. 0 < k \<and> k \<le> n \<and> src_read_at (mem_source chunk (addressable data)) (of_nat off) n =
      Inr (take k (drop off (addressable data)))"
    using off(2) by (intro exI [of _ "min n (Suc chunk)"]) (simp add: mem_source_def)
qed

text \<open>
  A file of the mounted system as a source whose reads are the adapter's own. A read of \<open>n\<close> bytes at
  \<open>off\<close> serves at most \<open>split off n\<close> of them, so \<open>split\<close> says how the source cuts what is asked for.
\<close>

definition file_source :: "(u64 \<Rightarrow> nat \<Rightarrow> nat) \<Rightarrow> ext \<Rightarrow> zfs_fs \<Rightarrow> u64 \<Rightarrow> bytes \<Rightarrow> dyn_source" where
  "file_source split x fs obj bs = \<lparr>src_len = of_nat (length bs),
     src_read_at = (\<lambda>off n. vfs_read_at x fs (FidOpaque obj) SidDefault off (split off n))\<rparr>"

definition splits :: "(u64 \<Rightarrow> nat \<Rightarrow> nat) \<Rightarrow> bool" where
  "splits split \<longleftrightarrow> (\<forall>off n. 0 < n \<longrightarrow> 0 < split off n \<and> split off n \<le> n)"

lemma copy_from_eq: "copy_from data start n = take n (drop start data)"
  by (auto simp: copy_from_def slice_from_def min_def)

lemma vfs_read_at_default:
  "vfs_content x fs obj = Inr bs \<Longrightarrow> vfs_read_at x fs (FidOpaque obj) SidDefault off n = Inr (take n (drop (unat off) bs))"
  by (simp add: vfs_read_at_def object_of_def copy_from_eq rbind_def)

lemma file_byte_source:
  assumes "vfs_content x fs obj = Inr bs" and "length bs < 2 ^ 64" and "splits split"
  shows "byte_source bs (file_source split x fs obj bs)"
proof
  have u: "unat (of_nat n :: u64) = n" if "n \<le> length bs" for n using that assms(2) by (simp add: unat_of_nat)
  show "unat (src_len (file_source split x fs obj bs)) = length bs" by (simp add: file_source_def u)
  show "\<exists>k. 0 < k \<and> k \<le> n \<and> src_read_at (file_source split x fs obj bs) (of_nat off) n = Inr (take k (drop off bs))"
    if "off < length bs" "0 < n" for off n
    using that assms(3)
    by (intro exI [of _ "split (of_nat off) n"]) (simp add: file_source_def splits_def vfs_read_at_default [OF assms(1)] u)
qed

text \<open>
  C29. Reading a mounted file in full through the adapter's reads returns its whole content, however
  each read is cut short, as long as it serves at least one byte: the loop goes on at the offset it
  reached. A read at an offset and one at the offset where it ended join up to the read of both lengths.
\<close>

theorem mounted_file_reads_in_full:
  assumes "vfs_content x fs obj = Inr bs" and "length bs < 2 ^ 64" and "splits split" and "unat off + m < 2 ^ 64"
  shows "read_all (file_source split x fs obj bs) = Inr bs \<and>
    (\<exists>a b. vfs_read_at x fs (FidOpaque obj) SidDefault off m = Inr a \<and>
      vfs_read_at x fs (FidOpaque obj) SidDefault (off + of_nat m) n = Inr b \<and>
      vfs_read_at x fs (FidOpaque obj) SidDefault off (m + n) = Inr (a @ b))"
proof -
  have "read_all (file_source split x fs obj bs) = Inr bs"
    by (rule byte_source.read_all_content [OF file_byte_source [OF assms(1-3)]])
  moreover have "unat (off + of_nat m) = unat off + m"
    using assms(4) by (simp add: unat_word_ariths unat_of_nat)
  ultimately show ?thesis by (simp add: vfs_read_at_default [OF assms(1)] take_add add.commute)
qed

subsection \<open>Listings, attribute streams and extents\<close>

text \<open>
  Looking a name up is finding it in the listing of the directory: the identifier is that of
  the first entry of the name, and both fail alike on an identifier or object that cannot be read.
\<close>

lemma lookup_agrees_with_listing:
  "vfs_lookup x m parent name =
     rbind (vfs_read_dir x m parent) (\<lambda>es. Inr (map_option de_id (List.find (\<lambda>e. de_name e = name) es)))"
proof -
  have find: "map_option (\<lambda>(n, child, k). FidOpaque child) (List.find (\<lambda>e. fst e = name) es) =
      map_option de_id (List.find (\<lambda>e. de_name e = name)
        (map (\<lambda>(name, child, kind). \<lparr>de_name = name, de_id = FidOpaque child, de_kind = kind\<rparr>) es))" for es :: "(bytes \<times> u64 \<times> node_kind) list"
    by (induction es) auto
  show ?thesis
    by (cases "object_of parent")
      (simp_all add: vfs_lookup_def vfs_read_dir_def find rbind_def split: sum.split)
qed

text \<open>
  Every extended attribute listed as a stream reads back by the identifier it is listed under,
  for the first 65536 of an object.
\<close>

lemma xattr_stream_id: "i < 65536 \<Longrightarrow> si_id (xattr_stream (i, xa)) = SidXattr (of_nat i)"
  by (simp add: xattr_stream_def)

lemma read_xattr:
  assumes "i < 65536" and "i < length (list_xattrs x (zf_image m) (zf_zpl m) obj)"
  shows "vfs_read_at x m (FidOpaque obj) (SidXattr (of_nat i)) off n =
    Inr (take n (drop (unat off) (xa_value (list_xattrs x (zf_image m) (zf_zpl m) obj ! i))))"
proof -
  have "unat (of_nat i :: u16) = i" using assms(1) by (simp add: unat_of_nat)
  then show ?thesis
    using assms(2) by (simp add: vfs_read_at_def object_of_def nth_get_def copy_from_eq rbind_def ok_or_def)
qed

lemma attribute_streams:
  assumes "length (list_xattrs x (zf_image m) (zf_zpl m) obj) \<le> 65536"
  shows "list_all2 (\<lambda>s xa. si_name s = Some (xa_name xa) \<and> si_size s = of_nat (length (xa_value xa)) \<and> si_kind s = SkXattr \<and>
      vfs_read_at x m (FidOpaque obj) (si_id s) off n = Inr (take n (drop (unat off) (xa_value xa))))
    (map xattr_stream (List.enumerate 0 (list_xattrs x (zf_image m) (zf_zpl m) obj)))
    (list_xattrs x (zf_image m) (zf_zpl m) obj)"
  using assms by (auto simp: list_all2_conv_all_nth nth_enumerate_eq xattr_stream_id read_xattr)
    (simp_all add: xattr_stream_def)

text \<open>Beyond 65536 attributes every stream carries the last identifier, and reads that attribute.\<close>

lemma attribute_ids_saturate:
  assumes "65536 \<le> i"
  shows "si_id (xattr_stream (i, xa)) = SidXattr 65535"
  using assms by (simp add: xattr_stream_def)

text \<open>The runs of an object come from pointers of its tree that name bytes.\<close>

lemma push_children_bounded: "length next \<le> MAX_RUNS \<Longrightarrow> length (push_children e chunks next) \<le> MAX_RUNS"
  by (induction e chunks "next" rule: push_children.induct) (simp_all add: Let_def)

lemma expand_level_bounded: "length next \<le> MAX_RUNS \<Longrightarrow> length (expand_level x img bps next) \<le> MAX_RUNS"
  by (induction x img bps "next" rule: expand_level.induct)
    (simp_all add: push_children_bounded split: sum.split)

lemma descend_levels_bounded: "length level \<le> MAX_RUNS \<Longrightarrow> length (descend_levels x img r level) \<le> MAX_RUNS"
  by (induction r arbitrary: level) (simp_all add: expand_level_bounded)

lemma push_children_parsed: "list_all parsed_ptr next \<Longrightarrow> list_all parsed_ptr (push_children e chunks next)"
  by (induction e chunks "next" rule: push_children.induct) (simp_all add: Let_def)

lemma expand_level_parsed: "list_all parsed_ptr next \<Longrightarrow> list_all parsed_ptr (expand_level x img bps next)"
  by (induction x img bps "next" rule: expand_level.induct) (simp_all add: push_children_parsed split: sum.split)

lemma descend_levels_parsed: "list_all parsed_ptr level \<Longrightarrow> list_all parsed_ptr (descend_levels x img r level)"
  by (induction r arbitrary: level) (simp_all add: expand_level_parsed)

lemma parsed_psize:
  assumes "parsed_ptr bp" and "\<not> bp_embedded bp"
  shows "512 \<le> psize_bytes bp \<and> psize_bytes bp \<le> 2 ^ 25"
proof -
  obtain raw e where bp: "bp = blkptr_parse raw e" using assms(1) by (auto simp: parsed_ptr_def)
  have "512 \<le> psize_bytes bp"
    using assms(2) by (simp add: psize_bytes_def sat_add_word_1)
  then show ?thesis using psize_bytes_parse(2) by (simp add: bp)
qed

text \<open>
  Whatever the indirect tree claims, the extents of an object number at most 65536, and each
  is a run of 512 bytes to 32 MiB.
\<close>

lemma extents_bounded:
  assumes "vfs_extents x m ino stream = Inr runs"
  shows "length runs \<le> 65536 \<and> list_all (\<lambda>r. 512 \<le> unat (ri_len r) \<and> unat (ri_len r) \<le> 2 ^ 25) runs"
proof -
  obtain dn obj where dn: "mos_dnode x (zf_image m) (zf_zpl m) obj = Some dn" and runs: "runs = map run_of (l0_blkptrs x m dn)"
    using assms by (auto simp: vfs_extents_def vfs_dnode_def rbind_def ok_or_def split: if_splits sum.splits option.splits)
  let ?top = "take MAX_RUNS (filter (\<lambda>b. \<not> is_hole b) (dn_blkptrs dn))"
  have "list_all parsed_ptr ?top"
    using mos_dnode_parsed [OF dn] by (auto simp: list_all_iff dest: in_set_takeD)
  then have "list_all parsed_ptr (l0_blkptrs x m dn)" and nemb: "list_all (\<lambda>bp. \<not> bp_embedded bp) (l0_blkptrs x m dn)"
    using descend_levels_parsed by (fastforce simp: l0_blkptrs_def Let_def list_all_iff)+
  then have "list_all (\<lambda>bp. 512 \<le> psize_bytes bp \<and> psize_bytes bp \<le> 2 ^ 25) (l0_blkptrs x m dn)"
    using parsed_psize by (auto simp: list_all_iff)
  then have "list_all (\<lambda>r. 512 \<le> unat (ri_len r) \<and> unat (ri_len r) \<le> 2 ^ 25) runs"
    unfolding runs by (auto simp: list_all_iff run_of_def unat_of_nat)
  moreover have "length (l0_blkptrs x m dn) \<le> MAX_RUNS"
    unfolding l0_blkptrs_def Let_def by (rule le_trans [OF length_filter_le]) (rule descend_levels_bounded, simp)
  ultimately show ?thesis by (simp add: runs MAX_RUNS_def)
qed

end
