(* ===== verification/Zfs_Mount.thy ===== *)
theory Zfs_Mount
  imports Zfs_Vfs Zfs_Pool
begin

section \<open>Mounting a reference pool\<close>

text \<open>
  The adapter run on a device formatted with a pool: the mount succeeds and its operations answer
  what the tree the pool was formatted from says. The last part builds a concrete device image.
\<close>

subsection \<open>The mounted system\<close>

definition device_on :: "bytes \<Rightarrow> fs_node list list \<Rightarrow> bool" where
  "device_on img fss \<longleftrightarrow> wf_pool fss \<and> sector_at img 0 (pool_body fss) \<and>
     (\<exists>ub. active_uberblock_across_labels img = Some ub \<and> ub_endian ub = Little \<and> rootbp_full ub = sector_ptr 0 2)"

definition mounted :: "bytes \<Rightarrow> fs_node list \<Rightarrow> zfs_fs \<Rightarrow> bool" where
  "mounted img fs m \<longleftrightarrow> zf_image m = img \<and> (\<exists>b. fs_on img b fs (zf_zpl m)) \<and>
     zf_registry m = sample_registry \<and> zf_layouts m = sample_layouts \<and> zf_root_id m = node_id 0"

lemma open_mounted:
  assumes "device_on img fss" and "read_all src = Inr img"
  shows "\<exists>m. zfs_open x src = Inr m \<and> mounted img (fss ! 0) m"
proof -
  obtain ub where ub: "active_uberblock_across_labels img = Some ub" "ub_endian ub = Little" "rootbp_full ub = sector_ptr 0 2"
    using assms(1) by (auto simp: device_on_def)
  obtain blk mos where mos: "read_block x img (sector_ptr 0 2) = Inr blk" "objset_parse (blk_data blk) Little = Inr mos"
      "mos_on img fss mos"
    using pool_mos [of fss img x] assms(1) by (auto simp: device_on_def)
  obtain os where os: "zpl_objset x img mos = Some os" "os_type os = DMU_OST_ZFS" "fs_on img (first_fs (length fss) + 2) (fss ! 0) os"
    using pool_zpl_objset [OF mos(3), of x] by blast
  note fs = fs_master [OF os(3), of x]
  show ?thesis
    using os(3) by (auto simp: zfs_open_def assms(2) ub mos(1,2) os(1,2) fs ok_or_def mounted_def)
qed

lemma mounted_fs: "mounted img fs m \<Longrightarrow> \<exists>b. fs_on img b fs (zf_zpl m)"
  by (simp add: mounted_def)

lemma dirent_type: "t < 16 \<Longrightarrow> 5 + c < 2 ^ 48 \<Longrightarrow> drop_bit DIRENT_TYPE_SHIFT (dirent_val t c) AND 0xF = of_nat t"
proof -
  assume a: "t < 16" "5 + c < 2 ^ 48"
  let ?fs = "[(48, 5 + c), (12, 0), (4, t)]"
  have u: "unat (dirent_val t c) = pack ?fs"
    unfolding dirent_val_def by (rule word_of_pack) (use a in simp_all)
  have m: "(0xF :: u64) = mask 4" by (simp add: mask_eq_exp_minus_1)
  have "unat (drop_bit 60 (dirent_val t c) AND 0xF) = bits 60 4 (unat (dirent_val t c))"
    unfolding unat_and_mask [OF m] bits_def unat_drop_bit ..
  also have "\<dots> = t" unfolding u using a by (simp add: bits_pack del: pack.simps)
  also have "\<dots> = unat (of_nat t :: u64)" using a(1) by (simp add: unat_of_nat)
  finally show ?thesis unfolding DIRENT_TYPE_SHIFT_def by (rule word_eq_unatI)
qed

text \<open>The operations on the node of number \<open>j\<close>.\<close>

lemma mounted_dir_entries:
  assumes "mounted img fs m" and "j < length fs" and "fs ! j = FDir es"
  shows "vfs_dir_entries x m (node_id j) = Inr (map (\<lambda>(n, t, c). (n, node_id c, node_kind_from_dirent (of_nat t))) es)"
proof -
  obtain b where on: "fs_on img b fs (zf_zpl m)" using mounted_fs [OF assms(1)] by blast
  have es: "list_all (\<lambda>(nm, t, c). wf_zap_name nm \<and> 47 \<notin> set nm \<and> t < 16 \<and> c < length fs) es" and n: "length fs < 65000"
    using wf_fs_dir [OF on assms(2,3)] on by (simp_all add: fs_on_def wf_fs_def)
  have "zap_list (zap_data (dir_entries_of es)) = dir_entries_of es"
    by (rule zap_list_data) (use es in \<open>auto simp: dir_entries_of_def list_all_iff\<close>)
  moreover have "map (\<lambda>(nm, v). (nm, v AND ZPL_DIRENT_OBJ_MASK, node_kind_from_dirent (drop_bit DIRENT_TYPE_SHIFT v AND 0xF))) (dir_entries_of es) =
      map (\<lambda>(n, t, c). (n, node_id c, node_kind_from_dirent (of_nat t))) es"
    using es n unfolding dir_entries_of_def by (induction es) (auto simp: dirent_mask dirent_type)
  moreover obtain dn where "mos_dnode x img (zf_zpl m) (node_id j) = Some dn"
      "read_zap_object x img dn = Inr (zap_data (dir_entries_of es))"
    using fs_node_object [OF on assms(2), of x] assms(3) by auto
  ultimately show ?thesis using assms(1) by (simp add: vfs_dir_entries_def mounted_def rbind_def ok_or_def)
qed

lemma mounted_attrs:
  "mounted img fs m \<Longrightarrow> j < length fs \<Longrightarrow> vfs_attrs x m (node_id j) = Some (node_attrs (fs ! j))"
  using fs_attrs [of img _ fs "zf_zpl m" j x] by (auto simp: vfs_attrs_def mounted_def)

lemma mounted_content:
  assumes "mounted img fs m" and "j < length fs" and "fs ! j = FFile bs"
  shows "vfs_content x m (node_id j) = Inr bs"
proof -
  obtain b where on: "fs_on img b fs (zf_zpl m)" using mounted_fs [OF assms(1)] by blast
  show ?thesis
    using fs_read_file [OF on assms(2,3), of x] mounted_attrs [OF assms(1,2), of x] assms
    by (simp add: vfs_content_def mounted_def node_attrs_def)
qed

lemma mounted_dnode:
  assumes "mounted img fs m" and "j < length fs"
  shows "\<exists>dn. vfs_dnode x m (FidOpaque (node_id j)) = Inr dn"
proof -
  obtain b where on: "fs_on img b fs (zf_zpl m)" using mounted_fs [OF assms(1)] by blast
  show ?thesis
    using fs_node_object [OF on assms(2), of x] assms(1)
    by (auto simp: vfs_dnode_def object_of_def mounted_def rbind_def ok_or_def)
qed

definition node_kind_of :: "fs_node \<Rightarrow> node_kind" where
  "node_kind_of nd = (case nd of FDir _ \<Rightarrow> NkDir | FFile _ \<Rightarrow> NkFile)"

lemma mounted_meta:
  assumes "mounted img fs m" and "j < length fs"
  shows "\<exists>meta. vfs_meta x m (FidOpaque (node_id j)) = Inr meta \<and> fm_ino meta = node_id j \<and>
    fm_kind meta = node_kind_of (fs ! j) \<and> fm_size meta = za_size (node_attrs (fs ! j))"
proof -
  obtain dn where "vfs_dnode x m (FidOpaque (node_id j)) = Inr dn" using mounted_dnode [OF assms] by blast
  then show ?thesis
    using mounted_attrs [OF assms, of x]
    by (cases "fs ! j") (simp_all add: vfs_meta_def object_of_def rbind_def node_kind_of_def node_attrs_def node_kind_from_mode_def S_IFMT_def Let_def)
qed

lemma vfs_lookup_find:
  "vfs_dir_entries x m obj = Inr es \<Longrightarrow>
     vfs_lookup x m (FidOpaque obj) n = Inr (map_option (\<lambda>(c, k). FidOpaque c) (find_name n es))"
  by (simp add: vfs_lookup_def object_of_def rbind_def find_name_def option.map_comp comp_def case_prod_unfold)

text \<open>A client's walk along names, by the adapter's own lookup.\<close>

fun vfs_walk :: "ext \<Rightarrow> zfs_fs \<Rightarrow> file_id \<Rightarrow> rstr list \<Rightarrow> vfs_error + file_id option" where
  "vfs_walk x m fid [] = Inr (Some fid)"
| "vfs_walk x m fid (n # ns) = rbind (vfs_lookup x m fid n) (\<lambda>r. case r of None \<Rightarrow> Inr None | Some c \<Rightarrow> vfs_walk x m c ns)"

lemma mounted_walk:
  assumes "mounted img fs m" and "j < length fs" and "fs_walk fs j names = Some k"
  shows "vfs_walk x m (FidOpaque (node_id j)) names = Inr (Some (FidOpaque (node_id k))) \<and> k < length fs"
  using assms(2,3)
proof (induction names arbitrary: j)
  case (Cons n ns)
  obtain b where on: "fs_on img b fs (zf_zpl m)" using mounted_fs [OF assms(1)] by blast
  obtain es where es: "fs ! j = FDir es" using Cons.prems(2) by (cases "fs ! j") simp_all
  then obtain t c where c: "find_name n es = Some (t, c)" "fs_walk fs c ns = Some k"
    using Cons.prems(2) by (auto split: option.splits)
  have "(n, t, c) \<in> set es" using c(1) by (rule find_name_SomeD)
  then have "c < length fs" using wf_fs_dir [OF on Cons.prems(1) es] by (auto simp: list_all_iff)
  moreover have "find_name n (map (\<lambda>(n, t, c). (n, node_id c, node_kind_from_dirent (of_nat t))) es) = Some (node_id c, node_kind_from_dirent (of_nat t))"
    using find_name_map_val [of n "\<lambda>p. (node_id (snd p), node_kind_from_dirent (of_nat (fst p)))" es] c(1) by (simp add: case_prod_unfold)
  ultimately show ?case
    using Cons.IH [of c] c(2) vfs_lookup_find [OF mounted_dir_entries [OF assms(1) Cons.prems(1) es], of x n] by (simp add: rbind_def)
qed simp

text \<open>
  C3. End to end through the adapter: a pool formatted from a tree mounts, walking names by repeated
  lookup from the root reaches the node the tree has there, its metadata is of the node's kind and
  size, a directory lists its entries with the kinds their dirent types say, and any read of a file
  returns exactly that slice of its bytes.
\<close>

theorem formatted_pool_mounts:
  assumes "device_on img fss" and "read_all src = Inr img" and "fs_walk (fss ! 0) 0 names = Some j"
  shows "\<exists>m. zfs_open x src = Inr m \<and> vfs_walk x m (vfs_root m) names = Inr (Some (FidOpaque (node_id j))) \<and>
    map_option fm_kind (res_ok (vfs_meta x m (FidOpaque (node_id j)))) = Some (node_kind_of (fss ! 0 ! j)) \<and>
    map_option fm_size (res_ok (vfs_meta x m (FidOpaque (node_id j)))) = Some (za_size (node_attrs (fss ! 0 ! j))) \<and>
    (case fss ! 0 ! j of
       FDir es \<Rightarrow> vfs_read_dir x m (FidOpaque (node_id j)) =
         Inr (map (\<lambda>(n, t, c). \<lparr>de_name = n, de_id = FidOpaque (node_id c), de_kind = node_kind_from_dirent (of_nat t)\<rparr>) es)
     | FFile bs \<Rightarrow> vfs_read_at x m (FidOpaque (node_id j)) SidDefault off n = Inr (take n (drop (unat off) bs)))"
proof -
  obtain m where m: "zfs_open x src = Inr m" "mounted img (fss ! 0) m" using open_mounted [OF assms(1,2)] by blast
  then obtain b where on: "fs_on img b (fss ! 0) (zf_zpl m)" using mounted_fs by blast
  have "0 < length (fss ! 0)" using on by (simp add: fs_on_def wf_fs_def)
  from mounted_walk [OF m(2) this assms(3), of x] have walk:
    "vfs_walk x m (vfs_root m) names = Inr (Some (FidOpaque (node_id j)))" and j: "j < length (fss ! 0)"
    using m(2) by (simp_all add: vfs_root_def mounted_def)
  obtain meta where "vfs_meta x m (FidOpaque (node_id j)) = Inr meta" "fm_kind meta = node_kind_of (fss ! 0 ! j)"
      "fm_size meta = za_size (node_attrs (fss ! 0 ! j))"
    using mounted_meta [OF m(2) j, of x] by blast
  then show ?thesis
    using m(1) walk mounted_dir_entries [OF m(2) j, of _ x] vfs_read_at_default [OF mounted_content [OF m(2) j], of _ x off n]
    by (intro exI [of _ m]) (auto simp: vfs_read_dir_def object_of_def rbind_def split: fs_node.split)
qed

text \<open>A device image: the pool image with an empty tail, so that only the first label has an uberblock.\<close>

definition device_image :: "fs_node list list \<Rightarrow> bytes" where
  "device_image fss = pool_image fss @ replicate 524288 0"

lemma length_fs_bodies:
  "list_all wf_fs fss \<Longrightarrow> fss_end c fss < 2 ^ 40 \<Longrightarrow> length (fs_bodies c fss) + 512 * c = 512 * fss_end c fss"
proof (induction fss arbitrary: c)
  case (Cons fs fss)
  let ?r = "region_sectors (fs_objs fs)"
  have wf: "wf_objs (c + 2) (fs_objs fs)"
    using Cons.prems fss_end_ge [of "c + 2 + ?r" fss] by (intro wf_fs_objs) simp_all
  have "length (fs_bodies c (fs # fss)) = 512 * (2 + ?r) + length (fs_bodies (c + 2 + ?r) fss)"
    using length_objset_bytes [OF wf, of DMU_OST_ZFS] length_region [OF wf] by simp
  moreover have "length (fs_bodies (c + 2 + ?r) fss) + 512 * (c + 2 + ?r) = 512 * fss_end (c + 2 + ?r) fss"
    using Cons.prems by (intro Cons.IH) simp_all
  moreover have "512 * (2 + r) + L + 512 * c = L + 512 * (c + 2 + r)" for r L :: nat by simp
  ultimately show ?case by (simp only: fss_end.simps)
qed simp

lemma length_pool_body: "wf_pool fss \<Longrightarrow> length (pool_body fss) < 2 ^ 50"
proof -
  assume wf: "wf_pool fss"
  note l = length_objset_bytes [OF wf_mos_objs [OF wf], of DMU_OST_META] length_region [OF wf_mos_objs [OF wf]]
  let ?f = "first_fs (length fss)"
  have e: "fss_end ?f fss < 2 ^ 40" "list_all wf_fs fss" "length fss < 60000" using wf by (simp_all add: wf_pool_def)
  have "length (fs_bodies ?f fss) < 512 * 2 ^ 40"
    using length_fs_bodies [OF e(2,1)] e(1) by linarith
  then show ?thesis using l e(3) mos_objs_wf(3) [OF wf] by (simp add: pool_body_def)
qed

lemma label_candidate_zeros:
  assumes "slice_get img (unat off + 131072) (262144 + unat off) = Some (replicate 131072 0)" and "unat off + 262144 < 2 ^ 63"
  shows "label_candidate img off = None"
proof -
  have "best_of (ring_slot (replicate 131072 0) 1024) {..<128} None"
    by (simp add: best_of_def ring_slot_def uberblock_parse_zeros)
  then have "active_uberblock (replicate 131072 0) 1024 128 = None"
    using best_of_unique active_uberblock_best [of 128 1024 "replicate 131072 0"] by (simp add: usize_max_def)
  moreover have "unat off + 262144 \<le> length img" using assms(1) by (simp add: slice_get_def split: if_splits)
  ultimately show ?thesis
    using assms by (simp add: label_candidate_def label_consts checked_add_def sat_add_def usize_max_def UBERBLOCK_MIN_SHIFT_def)
qed

lemma slice_get_zeros: "a + n \<le> m \<Longrightarrow> slice_get (pre @ replicate m 0 @ post) (length pre + a) (length pre + a + n) = Some (replicate n 0)"
  by (simp add: slice_get_def)

lemma root_label_candidate:
  assumes "wf_blkptr bp"
  shows "label_candidate (root_label bp @ rest) 0 = Some (root_uberblock bp)"
proof -
  let ?ub = "root_uberblock bp" and ?img = "root_label bp @ rest"
  let ?a = "replicate 16384 0 @
     (nvlist_encode sample_config @ replicate (114688 - length (nvlist_encode sample_config)) 0)"
  let ?ring = "uberblock_encode ?ub @ replicate 3928 0 @ replicate 126976 0"
  have wf: "wf_uberblock ?ub" and ub: "length (uberblock_encode ?ub) = 168"
    using length_blkptr_encode [OF assms, of "[0, 0, 0]"]
    by (simp_all add: wf_uberblock_def root_uberblock_def uberblock_encode_def Let_def)
  have "?ring = (uberblock_encode ?ub @ replicate 856 0) @ replicate 130048 0" by (simp add: replicate_add [symmetric])
  then have "active_uberblock ?ring 1024 128 = Some (?ub, 0)"
    using ub by (intro active_uberblock_single [OF wf, of "replicate 856 0"]) (simp_all add: usize_max_def)
  moreover have "slice_get ?img 131072 262144 = Some ?ring"
    using slice_get_prefix [of ?ring 131072 ?a rest] ub length_sample_nv by (simp add: root_label_def)
  moreover have "262144 \<le> length ?img" using root_label_facts(1) [OF assms] by (simp add: LABEL_SIZE_def)
  ultimately show ?thesis
    using ub by (simp add: label_candidate_def label_consts checked_add_def sat_add_def usize_max_def UBERBLOCK_MIN_SHIFT_def)
qed

lemma device_image_on:
  assumes "wf_pool fss"
  shows "device_on (device_image fss) fss"
proof -
  let ?bp = "sector_ptr 0 2"
  let ?ub = "root_uberblock ?bp" and ?img = "device_image fss" and ?lab = "root_label ?bp"
  have bp: "wf_blkptr ?bp" by (intro wf_sector_ptr) simp_all
  note lab = root_label_facts(1) [OF bp, unfolded LABEL_SIZE_def]
  have img: "?img = ?lab @ replicate 3932160 0 @ pool_body fss @ replicate 524288 0"
    by (simp add: device_image_def pool_image_def)
  define len where "len = length ?img"
  have len: "len = 4194304 + length (pool_body fss) + 524288" "len < 2 ^ 51"
    using lab length_pool_body [OF assms] by (simp_all add: len_def img)
  have u: "unat (of_nat n :: u64) = n" if "n \<le> len" for n using that len(2) by (simp add: unat_of_nat)
  have sub: "(of_nat len :: u64) - 524288 = of_nat (len - 524288)" "(of_nat len :: u64) - 262144 = of_nat (len - 262144)"
    using len(1) by (simp_all add: of_nat_diff)
  have offs: "scanned_offsets ?img = [0, 262144, of_nat (len - 524288), of_nat (len - 262144)]"
    using len(1) u [of len] by (simp add: scanned_offsets_def label_offsets_def label_consts len_def [symmetric] sub Let_def word_le_nat_alt)
  have "sector_at ?img 0 (pool_body fss)"
    using sector_at_image [of "?lab @ replicate 3932160 0" "[]" 0 "pool_body fss" "replicate 524288 0"] lab by (simp add: img)
  moreover have "label_candidate ?img 0 = Some ?ub" unfolding img by (rule root_label_candidate [OF bp])
  moreover have "label_candidate ?img 262144 = None"
    using slice_get_zeros [of 131072 131072 3932160 ?lab] lab by (intro label_candidate_zeros) (simp_all add: img)
  moreover have "label_candidate ?img (of_nat (len - k)) = None" if "k = 524288 \<or> k = 262144" for k
  proof (rule label_candidate_zeros)
    have k: "unat (of_nat (len - k) :: u64) = len - k" by (rule u) simp
    let ?pre = "?lab @ replicate 3932160 0 @ pool_body fss"
    have pre: "length ?pre + 524288 = len" "?img = ?pre @ replicate 524288 0 @ []" using len(1) lab by (simp_all add: img)
    have at: "length ?pre + (524288 - k + 131072) = len - k + 131072" "length ?pre + (524288 - k + 131072) + 131072 = 262144 + (len - k)"
      using pre(1) that by auto
    have "slice_get ?img (len - k + 131072) (262144 + (len - k)) = Some (replicate 131072 0)"
      using slice_get_zeros [of "524288 - k + 131072" 131072 524288 ?pre "[]"] that unfolding at pre(2) [symmetric] by auto
    then show "slice_get ?img (unat (of_nat (len - k) :: u64) + 131072) (262144 + unat (of_nat (len - k) :: u64)) = Some (replicate 131072 0)"
      unfolding k .
    show "unat (of_nat (len - k) :: u64) + 262144 < 2 ^ 63" using len(2) by (simp add: k)
  qed
  ultimately show ?thesis
    using assms by (simp add: device_on_def active_uberblock_across_labels_def offs better_uberblock_def rootbp_root_uberblock [OF bp])
qed

lemma sample_device_length: "length (device_image sample_pool) \<le> usize_max"
proof -
  have "length (root_label (sector_ptr 0 2)) = LABEL_SIZE" by (intro root_label_facts(1) wf_sector_ptr) simp_all
  then show ?thesis
    using length_pool_body [OF wf_sample_pool] by (simp add: device_image_def pool_image_def LABEL_SIZE_def usize_max_def)
qed

lemma sample_device_reads: "read_all (mem_source 4095 (device_image sample_pool)) = Inr (device_image sample_pool)"
  using mem.read_all_content [of 4095 "device_image sample_pool"] sample_device_length by (simp add: addressable_def)

lemma sample_mount:
  obtains m where "zfs_open no_codecs (mem_source 4095 (device_image sample_pool)) = Inr m"
    "mounted (device_image sample_pool) (sample_pool ! 0) m"
  using open_mounted [OF device_image_on [OF wf_sample_pool] sample_device_reads] by blast

lemma formatted_pool_mounts_witness:
  "\<exists>m. zfs_open no_codecs (mem_source 4095 (device_image sample_pool)) = Inr m \<and>
    vfs_walk no_codecs m (vfs_root m) [lit ''keep''] = Inr (Some (FidOpaque (node_id 1))) \<and>
    vfs_read_at no_codecs m (FidOpaque (node_id 1)) SidDefault 0 10 = Inr [1]"
proof -
  have "fs_walk (sample_pool ! 0) 0 [lit ''keep''] = Some 1" by (simp add: sample_pool_def)
  from formatted_pool_mounts [OF device_image_on [OF wf_sample_pool] sample_device_reads this, of no_codecs 0 10]
  obtain m where "zfs_open no_codecs (mem_source 4095 (device_image sample_pool)) = Inr m"
      "vfs_walk no_codecs m (vfs_root m) [lit ''keep''] = Inr (Some (FidOpaque (node_id 1)))"
      "case sample_pool ! 0 ! 1 of FDir es \<Rightarrow> True
       | FFile bs \<Rightarrow> vfs_read_at no_codecs m (FidOpaque (node_id 1)) SidDefault 0 10 = Inr (take 10 (drop (unat (0 :: u64)) bs))"
    by (metis (no_types, lifting) fs_node.exhaust fs_node.simps(5,6))
  then show ?thesis by (intro exI [of _ m]) (simp add: sample_pool_def)
qed

lemma extents_bounded_witness:
  "\<exists>m runs. zfs_open no_codecs (mem_source 4095 (device_image sample_pool)) = Inr m \<and>
    vfs_extents no_codecs m (FidOpaque (node_id 1)) SidDefault = Inr runs \<and> length runs \<le> 65536"
proof -
  obtain m where m: "zfs_open no_codecs (mem_source 4095 (device_image sample_pool)) = Inr m"
      "mounted (device_image sample_pool) (sample_pool ! 0) m" by (rule sample_mount)
  obtain dn where "vfs_dnode no_codecs m (FidOpaque (node_id 1)) = Inr dn"
    using mounted_dnode [OF m(2), of 1 no_codecs] by (auto simp: sample_pool_def)
  then have "vfs_extents no_codecs m (FidOpaque (node_id 1)) SidDefault = Inr (map run_of (l0_blkptrs no_codecs m dn))"
    by (simp add: vfs_extents_def rbind_def)
  with extents_bounded [OF this] m(1) show ?thesis by blast
qed

end
