(* ===== verification/Zfs_Extents.thy ===== *)
theory Zfs_Extents
  imports Zfs_Mount
begin

section \<open>The extents of a file and its content\<close>

text \<open>
  The two ways the adapter reaches a file's blocks: \<^verbatim>\<open>extents\<close> expands the pointer tree level by level
  and lists runs of the device, the read path descends it once per block. Both are related to the
  sequence of leaf pointers under the dnode.
\<close>

subsection \<open>The leaf pointers of a tree\<close>

text \<open>
  The pointers at level 0 under a pointer, in block order. A hole above level 0 stands for all the
  blocks below it; an indirect block on disk has at least one child that is not a hole.
\<close>

inductive ptr_tree :: "ext \<Rightarrow> bytes \<Rightarrow> dnode \<Rightarrow> nat \<Rightarrow> blkptr \<Rightarrow> blkptr list \<Rightarrow> bool" for x img dn where
  leaf: "ptr_tree x img dn 0 bp [bp]"
| hole: "is_hole bp \<Longrightarrow> ptr_tree x img dn (Suc l) bp (replicate (2 ^ (fan_bits dn * Suc l)) bp)"
| node: "\<not> is_hole bp \<Longrightarrow> read_block x img bp = Inr b \<Longrightarrow> length (blk_data b) = 128 * 2 ^ fan_bits dn \<Longrightarrow>
    bp_byteorder bp = dn_endian dn \<Longrightarrow> length kids = 2 ^ fan_bits dn \<Longrightarrow>
    (\<And>i. i < 2 ^ fan_bits dn \<Longrightarrow>
       ptr_tree x img dn l (blkptr_parse (take 128 (drop (128 * i) (blk_data b))) (dn_endian dn)) (kids ! i)) \<Longrightarrow>
    (\<exists>i<2 ^ fan_bits dn. \<not> is_hole (blkptr_parse (take 128 (drop (128 * i) (blk_data b))) (dn_endian dn))) \<Longrightarrow>
    ptr_tree x img dn (Suc l) bp (concat kids)"

inductive_cases ptr_tree_leafE: "ptr_tree x img dn 0 bp ptrs"
inductive_cases ptr_tree_nodeE: "ptr_tree x img dn (Suc l) bp ptrs"

definition live :: "blkptr list \<Rightarrow> blkptr list" where
  "live ptrs = filter (\<lambda>bp. \<not> is_hole bp) ptrs"

lemma live_simps [simp]:
  "live [] = []" "live (bp # ptrs) = (if is_hole bp then live ptrs else bp # live ptrs)"
  by (simp_all add: live_def)

lemma take_append_take [simp]: "take n (take n xs @ ys) = take n (xs @ ys)"
  by (cases "length xs \<le> n") simp_all

definition leaf_bytes :: "ext \<Rightarrow> bytes \<Rightarrow> blkptr \<Rightarrow> bytes" where
  "leaf_bytes x img p = (case read_block x img p of Inl _ \<Rightarrow> [] | Inr b \<Rightarrow> blk_data b)"

definition readable :: "ext \<Rightarrow> bytes \<Rightarrow> blkptr \<Rightarrow> bool" where
  "readable x img p \<longleftrightarrow> (\<exists>b. read_block x img p = Inr b)"

text \<open>The tree of leaf pointers is the tree of leaf blocks the read path refines.\<close>

lemma ptr_tree_block_tree:
  "ptr_tree x img dn l bp ptrs \<Longrightarrow> list_all (readable x img) ptrs \<Longrightarrow>
     block_tree x img dn l bp (map (leaf_bytes x img) ptrs)"
proof (induction rule: ptr_tree.induct)
  case (leaf bp)
  then show ?case by (auto simp: readable_def leaf_bytes_def intro: block_tree.leaf)
next
  case (hole bp l)
  have "readable x img bp" using hole.prems by (simp add: list_all_iff)
  then have "lsize_bytes bp \<le> MAX_BLOCK_SIZE" by (auto simp: readable_def read_block_def Let_def split: if_splits)
  then show ?case
    using block_tree.hole [OF hole.hyps, where l = l and x = x and img = img and dn = dn] hole.hyps
    by (simp add: leaf_bytes_def read_block_hole)
next
  case (node bp b kids l)
  have "block_tree x img dn l (blkptr_parse (take 128 (drop (128 * i) (blk_data b))) (dn_endian dn))
      (map (map (leaf_bytes x img)) kids ! i)" if "i < 2 ^ fan_bits dn" for i
  proof -
    have "kids ! i \<in> set kids" using node.hyps(5) that by simp
    then have "list_all (readable x img) (kids ! i)" using node.prems by (auto simp: list_all_iff)
    then show ?thesis using node.IH [OF that] node.hyps(5) that by simp
  qed
  then show ?case
    using block_tree.indirect [OF node.hyps(1-3), of "map (map (leaf_bytes x img)) kids" l] node.hyps(5)
    by (simp add: map_concat)
qed

subsection \<open>The level-wise expansion\<close>

definition kids_of :: "ext \<Rightarrow> bytes \<Rightarrow> blkptr \<Rightarrow> blkptr list" where
  "kids_of x img bp = (case read_block x img bp of Inl _ \<Rightarrow> []
     | Inr b \<Rightarrow> live (map (\<lambda>c. blkptr_parse c (bp_byteorder bp)) (chunks_exact BLKPTR_SIZE (blk_data b))))"

fun live_at :: "ext \<Rightarrow> bytes \<Rightarrow> nat \<Rightarrow> blkptr \<Rightarrow> blkptr list" where
  "live_at x img 0 bp = [bp]"
| "live_at x img (Suc l) bp = concat (map (live_at x img l) (kids_of x img bp))"

lemma push_children_take:
  "length next \<le> MAX_RUNS \<Longrightarrow> push_children e chunks next =
     take MAX_RUNS (next @ live (map (\<lambda>c. blkptr_parse c e) chunks))"
proof (induction e chunks "next" rule: push_children.induct)
  case (2 e chunk chunks "next")
  show ?case
  proof (cases "MAX_RUNS \<le> length next")
    case False
    then obtain k where "MAX_RUNS - length next = Suc k" "MAX_RUNS - Suc (length next) = k"
      by (metis Suc_diff_Suc not_le)
    then show ?thesis using False "2.IH" by (simp add: Let_def)
  qed (use "2.prems" in simp)
qed simp

lemma expand_level_take:
  "length next \<le> MAX_RUNS \<Longrightarrow> expand_level x img bps next = take MAX_RUNS (next @ concat (map (kids_of x img) bps))"
proof (induction x img bps "next" rule: expand_level.induct)
  case (2 x img bp bps "next")
  show ?case
  proof (cases "MAX_RUNS \<le> length next")
    case False
    then show ?thesis
      using 2 push_children_take [OF "2.prems"] push_children_bounded [OF "2.prems"]
      by (cases "read_block x img bp") (simp_all add: kids_of_def del: take_append)
  qed (use "2.prems" in simp)
qed simp

lemma length_concat_nonempty: "\<forall>y\<in>set ys. f y \<noteq> [] \<Longrightarrow> length ys \<le> length (concat (map f ys))"
proof (induction ys)
  case (Cons y ys)
  then have "0 < length (f y)" "length ys \<le> length (concat (map f ys))" by simp_all
  then show ?case unfolding list.map concat.simps length_append list.size by linarith
qed simp

lemma take_concat_take:
  assumes "\<forall>y\<in>set ys. f y \<noteq> []"
  shows "take n (concat (map f (take n ys))) = take n (concat (map f ys))"
proof (cases "length ys \<le> n")
  case False
  have "\<forall>y\<in>set (take n ys). f y \<noteq> []" using assms by (auto dest: in_set_takeD)
  from length_concat_nonempty [OF this] have "n \<le> length (concat (map f (take n ys)))" using False by simp
  moreover have "concat (map f ys) = concat (map f (take n ys)) @ concat (map f (drop n ys))"
    by (metis append_take_drop_id concat_append map_append)
  ultimately show ?thesis by simp
qed simp

lemma chunks_exact_nth: "length xs = n * m \<Longrightarrow> 0 < n \<Longrightarrow> chunks_exact n xs = map (\<lambda>i. take n (drop (n * i) xs)) [0..<m]"
proof (induction m arbitrary: xs)
  case 0
  then show ?case by (simp add: chunks_exact.simps)
next
  case (Suc m)
  then have "chunks_exact n (drop n xs) = map (\<lambda>i. take n (drop (n * i) (drop n xs))) [0..<m]" by (intro Suc.IH) simp_all
  then show ?case
    using Suc.prems by (subst chunks_exact.simps) (simp add: upt_conv_Cons map_Suc_upt [symmetric] add.commute del: upt_Suc)
qed

lemma concat_filter_map:
  "(\<And>i. i \<in> set is \<Longrightarrow> g i = (if Q (p i) then f (p i) else [])) \<Longrightarrow>
     concat (map f (filter Q (map p is))) = concat (map g is)"
  by (induction "is") auto

lemma ptr_tree_hole: "ptr_tree x img dn l bp ptrs \<Longrightarrow> is_hole bp \<Longrightarrow> live ptrs = []"
  by (cases rule: ptr_tree.cases) (auto simp: live_def)

lemma node_kids:
  assumes "read_block x img bp = Inr b" and "length (blk_data b) = 128 * 2 ^ fan_bits dn" and "bp_byteorder bp = dn_endian dn"
  shows "kids_of x img bp = live (map (\<lambda>i. blkptr_parse (take 128 (drop (128 * i) (blk_data b))) (dn_endian dn)) [0..<2 ^ fan_bits dn])"
  using assms chunks_exact_nth [OF assms(2)] by (simp add: kids_of_def BLKPTR_SIZE_def comp_def)

lemma live_at_leaves:
  "ptr_tree x img dn l bp ptrs \<Longrightarrow> \<not> is_hole bp \<Longrightarrow> live_at x img l bp = live ptrs \<and> live ptrs \<noteq> []"
proof (induction rule: ptr_tree.induct)
  case (node bp b kids l)
  let ?p = "\<lambda>i. blkptr_parse (take 128 (drop (128 * i) (blk_data b))) (dn_endian dn)"
  let ?n = "2 ^ fan_bits dn :: nat"
  have kid: "live (kids ! i) = (if \<not> is_hole (?p i) then live_at x img l (?p i) else [])" if "i \<in> set [0..<?n]" for i
  proof -
    have "i < ?n" using that by simp
    then have "ptr_tree x img dn l (?p i) (kids ! i)"
        and "\<not> is_hole (?p i) \<Longrightarrow> live_at x img l (?p i) = live (kids ! i)"
      using node.hyps node.IH by blast+
    then show ?thesis using ptr_tree_hole by auto
  qed
  have "live (concat kids) = concat (map (\<lambda>i. live (kids ! i)) [0..<?n])"
    using node.hyps(5) by (metis (no_types, lifting) filter_concat live_def map_nth list.map_comp comp_def map_eq_conv)
  moreover have "live_at x img (Suc l) bp = concat (map (\<lambda>i. live (kids ! i)) [0..<?n])"
    unfolding live_at.simps node_kids [OF node.hyps(2-4)] live_def [of "map ?p [0..<?n]"]
    by (rule concat_filter_map) (use kid in auto)
  moreover obtain i where "i < ?n" "\<not> is_hole (?p i)" using node.hyps(7) by blast
  then have "live (kids ! i) \<noteq> []" using node.IH by blast
  then have "concat (map (\<lambda>i. live (kids ! i)) [0..<?n]) \<noteq> []" using \<open>i < ?n\<close> by (auto intro!: bexI [of _ i])
  ultimately show ?case by simp
qed (simp_all add: live_def)

definition rooted_tree :: "ext \<Rightarrow> bytes \<Rightarrow> dnode \<Rightarrow> nat \<Rightarrow> blkptr \<Rightarrow> bool" where
  "rooted_tree x img dn l bp \<longleftrightarrow> \<not> is_hole bp \<and> (\<exists>ptrs. ptr_tree x img dn l bp ptrs)"

lemma rooted_kids: "rooted_tree x img dn (Suc l) bp \<Longrightarrow> list_all (rooted_tree x img dn l) (kids_of x img bp)"
proof -
  assume "rooted_tree x img dn (Suc l) bp"
  then obtain ptrs where "\<not> is_hole bp" "ptr_tree x img dn (Suc l) bp ptrs" by (auto simp: rooted_tree_def)
  from this(2,1) show ?thesis
  proof (cases rule: ptr_tree.cases)
    case (node b kids)
    then show ?thesis unfolding node_kids [OF node(3-5)] by (fastforce simp: live_def list_all_iff rooted_tree_def)
  qed simp_all
qed

lemma descend_levels_take:
  "list_all (rooted_tree x img dn l) level \<Longrightarrow> length level \<le> MAX_RUNS \<Longrightarrow>
     descend_levels x img (Suc l) level = take MAX_RUNS (concat (map (live_at x img l) level))"
proof (induction l arbitrary: level)
  case (Suc l)
  let ?next = "concat (map (kids_of x img) level)"
  have kids: "list_all (rooted_tree x img dn l) ?next"
    using Suc.prems(1) rooted_kids by (fastforce simp: list_all_iff)
  then have "list_all (rooted_tree x img dn l) (take MAX_RUNS ?next)"
    by (simp only: list_all_iff) (blast dest: in_set_takeD)
  then have "descend_levels x img (Suc l) (take MAX_RUNS ?next) =
      take MAX_RUNS (concat (map (live_at x img l) (take MAX_RUNS ?next)))"
    by (rule Suc.IH) simp
  also have "\<dots> = take MAX_RUNS (concat (map (live_at x img l) ?next))"
    by (rule take_concat_take) (use kids live_at_leaves in \<open>fastforce simp: list_all_iff rooted_tree_def\<close>)
  also have "concat (map (live_at x img l) ?next) = concat (map (live_at x img (Suc l)) level)"
    by (induction level) simp_all
  finally have "descend_levels x img (Suc l) (expand_level x img level []) =
      take MAX_RUNS (concat (map (live_at x img (Suc l)) level))"
    using expand_level_take [of "[]" x img level] by simp
  then show ?case
    by (cases "level = []") (simp_all only: descend_levels.simps(2) [of x img "Suc l"] nat.distinct simp_thms
      if_False if_True list.map concat.simps take_Nil)
next
  case 0
  have "concat (map (live_at x img 0) level) = level" by (induction level) simp_all
  then show ?case using 0 by simp
qed

subsection \<open>The extents of an object\<close>

definition leaf_ptrs :: "ext \<Rightarrow> bytes \<Rightarrow> dnode \<Rightarrow> blkptr list list \<Rightarrow> bool" where
  "leaf_ptrs x img dn tops \<longleftrightarrow> dn_nlevels dn \<noteq> 0 \<and>
     list_all2 (ptr_tree x img dn (tree_levels dn - 1)) (dn_blkptrs dn) tops"

lemma live_tops:
  "list_all2 (ptr_tree x img dn l) bps tops \<Longrightarrow>
     concat (map (live_at x img l) (live bps)) = live (concat tops) \<and> list_all (rooted_tree x img dn l) (live bps)"
proof (induction bps arbitrary: tops)
  case (Cons bp bps)
  then obtain ptrs rest where tops: "tops = ptrs # rest" "ptr_tree x img dn l bp ptrs"
      "list_all2 (ptr_tree x img dn l) bps rest"
    by (auto simp: list_all2_Cons1)
  then show ?case
    using Cons.IH [OF tops(3)] live_at_leaves [OF tops(2)] ptr_tree_hole [OF tops(2)]
    by (auto simp: live_def rooted_tree_def)
qed simp

lemma l0_blkptrs_leaves:
  assumes "leaf_ptrs x (zf_image m) dn tops"
  shows "l0_blkptrs x m dn =
    filter (\<lambda>bp. \<not> bp_embedded bp \<and> \<not> dva_is_empty (bp_dvas bp ! 0)) (take MAX_RUNS (live (concat tops)))"
proof -
  let ?l = "tree_levels dn - 1" and ?img = "zf_image m"
  have "tree_levels dn \<noteq> 0"
    using assms by (simp add: leaf_ptrs_def tree_levels_def MAX_INDIRECT_LEVELS_def min_def unat_eq_0)
  then have levels: "unat (min (dn_nlevels dn) MAX_INDIRECT_LEVELS) = Suc ?l" by (simp add: tree_levels_def)
  have top: "concat (map (live_at x ?img ?l) (live (dn_blkptrs dn))) = live (concat tops)"
      "list_all (rooted_tree x ?img dn ?l) (live (dn_blkptrs dn))"
    using assms live_tops by (auto simp: leaf_ptrs_def)
  then have rooted: "list_all (rooted_tree x ?img dn ?l) (take MAX_RUNS (live (dn_blkptrs dn)))"
    by (simp only: list_all_iff) (blast dest: in_set_takeD)
  have "descend_levels x ?img (Suc ?l) (take MAX_RUNS (live (dn_blkptrs dn))) =
      take MAX_RUNS (concat (map (live_at x ?img ?l) (take MAX_RUNS (live (dn_blkptrs dn)))))"
    by (rule descend_levels_take [OF rooted]) simp
  also have "\<dots> = take MAX_RUNS (live (concat tops))"
    by (subst take_concat_take)
      (use top live_at_leaves in \<open>auto simp: list_all_iff rooted_tree_def\<close>)
  finally show ?thesis by (simp only: l0_blkptrs_def Let_def levels live_def)
qed

text \<open>A block stored as it is: uncompressed, whole in its first copy.\<close>

definition run_bytes :: "bytes \<Rightarrow> run_info \<Rightarrow> bytes" where
  "run_bytes img r = take (unat (ri_len r)) (drop (unat (ri_image_offset r)) img)"

definition stored_raw :: "bytes \<Rightarrow> blkptr \<Rightarrow> bool" where
  "stored_raw img p \<longleftrightarrow> \<not> bp_embedded p \<and> bp_compression p = 2 \<and> bp_dvas p \<noteq> [] \<and> \<not> dva_is_empty (bp_dvas p ! 0) \<and>
     psize_bytes p = lsize_bytes p \<and> lsize_bytes p \<le> MAX_BLOCK_SIZE \<and>
     unat (physical_byte_offset (bp_dvas p ! 0)) + lsize_bytes p \<le> length img \<and> length img \<le> usize_max"

lemma stored_raw_not_hole: "stored_raw img p \<Longrightarrow> \<not> is_hole p"
  by (auto simp: stored_raw_def is_hole_def list_all_length)

lemma read_stored_raw:
  assumes "stored_raw img p"
  shows "readable x img p \<and> leaf_bytes x img p = run_bytes img (run_of p)"
proof -
  let ?o = "unat (physical_byte_offset (bp_dvas p ! 0))" and ?n = "lsize_bytes p"
  obtain d ds where d: "bp_dvas p = d # ds" using assms by (cases "bp_dvas p") (auto simp: stored_raw_def)
  have p: "\<not> dva_is_empty d" "psize_bytes p = ?n" "unat (physical_byte_offset d) + ?n \<le> length img" "length img \<le> usize_max"
      "\<not> bp_embedded p" "?n \<le> MAX_BLOCK_SIZE" "compress_from_raw (bp_compression p) = CzOff"
    using assms d by (simp_all add: stored_raw_def compress_from_raw_def)
  have "sat_add (unat (physical_byte_offset d)) ?n = unat (physical_byte_offset d) + ?n"
    using p(3,4) by (simp add: sat_add_def)
  then have copy: "copy_bytes img p d = Some (take ?n (drop (unat (physical_byte_offset d)) img))"
    using p by (simp add: copy_bytes_def slice_get_def)
  have len: "length (take ?n (drop (unat (physical_byte_offset d)) img)) = ?n" using p(3) by simp
  have "copy_block x img p 0 d = Some \<lparr>blk_data = take ?n (drop (unat (physical_byte_offset d)) img),
      blk_checksum_valid = verify x (checksum_from_raw (bp_checksum p)) (bp_byteorder p)
        (take ?n (drop (unat (physical_byte_offset d)) img)) (bp_checksum_words p), blk_dva_used = 0\<rparr>"
    using len unfolding copy_block_def copy p(7)
    by (simp add: decompress_def decompress_off_def Let_def)
  then have "first_copy x img p 0 (bp_dvas p) \<noteq> None \<and>
      map_option blk_data (first_copy x img p 0 (bp_dvas p)) = Some (take ?n (drop ?o img))"
    by (simp add: d)
  moreover have "on_disk p" using p stored_raw_not_hole [OF assms] by (simp add: on_disk_def)
  ultimately have "map_option blk_data (res_ok (read_block x img p)) = Some (take ?n (drop ?o img))"
    by (simp add: read_block_on_disk read_dvas_first_copy)
  moreover have "unat (of_nat (psize_bytes p) :: u64) = ?n"
    using p(2,6) by (simp add: unat_of_nat MAX_BLOCK_SIZE_def)
  ultimately show ?thesis
    by (auto simp: readable_def leaf_bytes_def run_bytes_def run_of_def res_simps)
qed

lemma extents_leaves:
  assumes "mos_dnode x (zf_image m) (zf_zpl m) k = Some dn" and "leaf_ptrs x (zf_image m) dn tops"
  shows "vfs_extents x m (FidOpaque k) SidDefault =
    Inr (map run_of (filter (\<lambda>bp. \<not> bp_embedded bp \<and> \<not> dva_is_empty (bp_dvas bp ! 0))
      (take MAX_RUNS (live (concat tops)))))"
  using assms l0_blkptrs_leaves [OF assms(2)]
  by (simp add: vfs_extents_def vfs_dnode_def object_of_def rbind_def ok_or_def)

text \<open>
  A file of \<open>n\<close> blocks whose leaf pointers are stored raw up to its last block and holes after it,
  below the caps of both paths.
\<close>

definition raw_file :: "ext \<Rightarrow> bytes \<Rightarrow> dnode \<Rightarrow> blkptr list list \<Rightarrow> nat \<Rightarrow> bool" where
  "raw_file x img dn tops n \<longleftrightarrow> leaf_ptrs x img dn tops \<and> \<not> shift_overflows dn \<and>
     (tree_levels dn = 1 \<or> list_all (\<lambda>bp. \<not> is_hole bp) (dn_blkptrs dn)) \<and>
     n = unat (dn_maxblkid dn) + 1 \<and> n \<le> length (concat tops) \<and> n \<le> MAX_RUNS \<and>
     0 < data_block_size dn \<and> n * data_block_size dn \<le> MAX_FILE_BYTES \<and>
     list_all (stored_raw img) (take n (concat tops)) \<and>
     list_all (\<lambda>p. is_hole p \<and> lsize_bytes p \<le> MAX_BLOCK_SIZE) (drop n (concat tops))"

lemma raw_file_live: "raw_file x img dn tops n \<Longrightarrow> live (concat tops) = take n (concat tops)"
proof -
  assume "raw_file x img dn tops n"
  then have raw: "list_all (stored_raw img) (take n (concat tops))" and "list_all is_hole (drop n (concat tops))"
    by (auto simp: raw_file_def list_all_iff)
  moreover from raw have "list_all (\<lambda>p. \<not> is_hole p) (take n (concat tops))"
    using stored_raw_not_hole by (simp only: list_all_iff) blast
  ultimately have "live (take n (concat tops)) = take n (concat tops)" "live (drop n (concat tops)) = []"
    by (simp_all only: live_def filter_id_conv filter_empty_conv list_all_iff) simp_all
  then show ?thesis
    by (metis append_Nil2 append_take_drop_id filter_append live_def)
qed

lemma raw_file_blocks:
  assumes "raw_file x img dn tops n"
  shows "concat_blocks (read_dnode_data x img dn) [0..<file_nblocks dn] [] =
    Inr (concat (map (leaf_bytes x img) (take n (concat tops))))"
proof -
  let ?ps = "concat tops" and ?leaves = "map (map (leaf_bytes x img)) tops"
  have raw: "list_all (stored_raw img) (take n ?ps)"
      "list_all (\<lambda>p. is_hole p \<and> lsize_bytes p \<le> MAX_BLOCK_SIZE) (drop n ?ps)"
    using assms unfolding raw_file_def by blast+
  have "list_all (readable x img) (take n ?ps)"
    using raw(1) read_stored_raw by (simp only: list_all_iff) blast
  moreover have "list_all (readable x img) (drop n ?ps)"
    using raw(2) read_block_hole unfolding list_all_iff readable_def by blast
  ultimately have "list_all (readable x img) ?ps" by (metis append_take_drop_id list_all_append)
  then have "list_all2 (block_tree x img dn (tree_levels dn - 1)) (dn_blkptrs dn) ?leaves"
    using assms ptr_tree_block_tree
    by (fastforce simp: raw_file_def leaf_ptrs_def list_all2_conv_all_nth list_all_iff)
  then have tree: "object_tree x img dn ?leaves"
    using assms by (simp add: raw_file_def object_tree_def leaf_ptrs_def)
  have n: "n = unat (dn_maxblkid dn) + 1" "n \<le> length ?ps" "n \<le> MAX_RUNS" "0 < data_block_size dn"
      "n * data_block_size dn \<le> MAX_FILE_BYTES"
    using assms unfolding raw_file_def by blast+
  then have "n \<le> MAX_FILE_BYTES div data_block_size dn" by (simp only: less_eq_div_iff_mult_less_eq)
  moreover have "sat_add (unat (dn_maxblkid dn)) 1 = n"
    using n(1,3) by (simp add: sat_add_def usize_max_def MAX_RUNS_def)
  ultimately have "file_nblocks dn = n" by (simp add: file_nblocks_def Let_def)
  moreover have "concat ?leaves = map (leaf_bytes x img) ?ps" by (simp add: map_concat)
  ultimately show ?thesis using read_blocks_concat [OF tree, of n] n by (simp add: take_map)
qed

text \<open>
  C31. For an object whose indirect blocks can be read, the runs \<^verbatim>\<open>extents\<close> reports are determined by
  its leaf pointers, in block order and whatever the depth of the tree: of the first 65536 pointers that
  are not holes it drops the embedded ones and those whose first copy is empty (which the read path
  reads from another copy), and gives the run of the first copy of each that is left.
\<close>

theorem extents_are_leaf_blocks:
  assumes "mos_dnode x (zf_image m) (zf_zpl m) k = Some dn" and "leaf_ptrs x (zf_image m) dn tops"
  shows "vfs_extents x m (FidOpaque k) SidDefault =
    Inr (map run_of (filter (\<lambda>bp. \<not> bp_embedded bp \<and> \<not> dva_is_empty (bp_dvas bp ! 0))
      (take MAX_RUNS (live (concat tops)))))"
  by (rule extents_leaves [OF assms])

text \<open>
  C30. Carving agrees with reading: for a file of at most 65536 blocks and 512 MiB by its declared
  block size, stored uncompressed without holes before its end, the bytes of the device at the reported
  runs, in order, are the file's blocks as the read path returns them, and cut to the logical size
  they are its content.
\<close>

theorem extents_carve_content:
  assumes "mos_dnode x (zf_image m) (zf_zpl m) k = Some dn" and "raw_file x (zf_image m) dn tops n"
  shows "\<exists>runs. vfs_extents x m (FidOpaque k) SidDefault = Inr runs \<and> length runs = n \<and>
    zpl_read_file_with x (zf_image m) (zf_zpl m) k None = Inr (concat (map (run_bytes (zf_image m)) runs)) \<and>
    zpl_read_file_with x (zf_image m) (zf_zpl m) k (Some sz) =
      Inr (take (unat sz) (concat (map (run_bytes (zf_image m)) runs)))"
proof -
  let ?img = "zf_image m" and ?ps = "take n (concat tops)"
  have raw: "list_all (stored_raw ?img) ?ps" and ptrs: "leaf_ptrs x ?img dn tops" and n: "length ?ps = n" "n \<le> MAX_RUNS"
      and size: "0 < data_block_size dn"
    using assms(2) unfolding raw_file_def by (blast, blast, simp, blast, blast)
  have "filter (\<lambda>bp. \<not> bp_embedded bp \<and> \<not> dva_is_empty (bp_dvas bp ! 0)) ?ps = ?ps"
    using raw unfolding filter_id_conv list_all_iff stored_raw_def by blast
  then have runs: "vfs_extents x m (FidOpaque k) SidDefault = Inr (map run_of ?ps)"
    using extents_leaves [OF assms(1) ptrs] raw_file_live [OF assms(2)] n by simp
  have "map (leaf_bytes x ?img) ?ps = map (run_bytes ?img) (map run_of ?ps)"
    using raw read_stored_raw by (auto simp: list_all_iff)
  then have "concat_blocks (read_dnode_data x ?img dn) [0..<file_nblocks dn] [] =
      Inr (concat (map (run_bytes ?img) (map run_of ?ps)))"
    using raw_file_blocks [OF assms(2)] by (simp only:)
  then show ?thesis
    using runs n assms(1) size by (simp add: zpl_read_file_with_def rbind_def ok_or_def min_def)
qed

subsection \<open>A formatted file\<close>

lemma sector_ptr_raw:
  assumes "0 < n" "n \<le> 65535" "k < 2 ^ 40" "sector_at img k data" "length data = 512 * n" "length img \<le> usize_max"
  shows "stored_raw img (sector_ptr k n)"
proof -
  have "0x400000 + 512 * k + 512 * n \<le> length img"
    using bytes_at_le [OF assms(4) [unfolded sector_at_def]] assms(5) by simp
  moreover have "\<not> bp_embedded (sector_ptr k n)" "bp_compression (sector_ptr k n) = 2" "bp_dvas (sector_ptr k n) \<noteq> []"
      "\<not> dva_is_empty (bp_dvas (sector_ptr k n) ! 0)"
    using assms(1,2) unat_small32 [of n] by (auto simp: sector_ptr_def blkptr_default_def dva_is_empty_def)
  ultimately show ?thesis
    using assms(2,6)
    by (simp add: stored_raw_def sector_ptr_sizes [OF assms(1,2)] sector_ptr_offset [OF assms(3)] MAX_BLOCK_SIZE_def)
qed

lemma formatted_object_raw:
  assumes "objset_on img b obs os" and "i < length obs" and "length img \<le> usize_max"
  shows "\<exists>dn tops. mos_dnode x img os (of_nat (Suc i)) = Some dn \<and> raw_file x img dn tops 1"
proof -
  obtain dn where dn: "mos_dnode x img os (of_nat (Suc i)) = Some dn"
      "obj_dnode (obj_start b obs i) (obs ! i) dn" using mkfs_mos_dnode [OF assms(1,2)] by blast
  note at = mkfs_data_at [OF assms(1,2)]
  let ?p = "sector_ptr (obj_start b obs i) (ro_sectors (obs ! i))"
  have "tree_levels dn = 1" using dn(2) by (simp add: obj_dnode_def tree_levels_def MAX_INDIRECT_LEVELS_def min_def)
  then have "raw_file x img dn [[?p]] 1"
    using dn(2) at sector_ptr_raw [OF at(3,4,2,1,5) assms(3)] ptr_tree.leaf
    by (simp add: raw_file_def leaf_ptrs_def obj_dnode_def shift_overflows_def data_block_size_def MAX_RUNS_def MAX_FILE_BYTES_def)
  with dn(1) show ?thesis by blast
qed

lemma mounted_raw:
  assumes "mounted img fs m" and "j < length fs" and "length img \<le> usize_max"
  shows "\<exists>dn tops. mos_dnode x (zf_image m) (zf_zpl m) (node_id j) = Some dn \<and> raw_file x (zf_image m) dn tops 1"
proof -
  obtain b where on: "fs_on img b fs (zf_zpl m)" using mounted_fs [OF assms(1)] by blast
  then have "objset_on img b (fs_objs fs) (zf_zpl m)" "4 + j < length (fs_objs fs)"
    using assms(2) by (simp_all add: fs_on_def fs_objs_def)
  from formatted_object_raw [OF this assms(3), of x] show ?thesis
    using assms(1) by (simp add: mounted_def node_id_def eval_nat_numeral)
qed

text \<open>The one-byte file of the sample pool, carved from its one run and cut to its size.\<close>

lemma extents_carve_content_witness:
  "\<exists>m r. zfs_open no_codecs (mem_source 4095 (device_image sample_pool)) = Inr m \<and>
    vfs_extents no_codecs m (FidOpaque (node_id 1)) SidDefault = Inr [r] \<and>
    zpl_read_file_with no_codecs (zf_image m) (zf_zpl m) (node_id 1) (Some 1) =
      Inr (take 1 (run_bytes (zf_image m) r))"
proof -
  obtain m where m: "zfs_open no_codecs (mem_source 4095 (device_image sample_pool)) = Inr m"
      "mounted (device_image sample_pool) (sample_pool ! 0) m" by (rule sample_mount)
  obtain dn tops where f: "mos_dnode no_codecs (zf_image m) (zf_zpl m) (node_id 1) = Some dn"
      "raw_file no_codecs (zf_image m) dn tops 1"
    using mounted_raw [OF m(2) _ sample_device_length, of 1 no_codecs] by (auto simp: sample_pool_def)
  from extents_carve_content [OF f, of 1] obtain runs where
    "vfs_extents no_codecs m (FidOpaque (node_id 1)) SidDefault = Inr runs" "length runs = 1"
    "zpl_read_file_with no_codecs (zf_image m) (zf_zpl m) (node_id 1) (Some 1) =
      Inr (take 1 (concat (map (run_bytes (zf_image m)) runs)))" by auto
  then show ?thesis using m(1) by (auto simp: length_Suc_conv)
qed

end
