(* ===== verification/Zfs_Sa_Fields.thy ===== *)
theory Zfs_Sa_Fields
  imports Zfs_Sa
begin

section \<open>System attributes, field by field\<close>

text \<open>
  Every attribute the decoder knows, treated alike: a field of the decoded record is a getter, the
  identifier the registry gives its name and its width in 64-bit words. The locale states what the
  assignment of one attribute does to one field; the walk's lemmas are proved from that once and hold
  for the twelve fields.
\<close>

subsection \<open>Fields\<close>

definition field_words :: "reader \<Rightarrow> bytes \<Rightarrow> usize \<Rightarrow> nat \<Rightarrow> u64 list" where
  "field_words rd bonus off width = map (\<lambda>k. rd_u64 rd bonus (off + 8 * k)) [0..<width]"

definition known_list :: "known_attrs \<Rightarrow> u16 option list" where
  "known_list k = [ka_mode k, ka_size k, ka_links k, ka_uid k, ka_gid k, ka_gen k, ka_parent k, ka_flags k,
     ka_atime k, ka_mtime k, ka_ctime k, ka_crtime k]"

text \<open>No identifier is registered for two of the known names.\<close>

definition known_distinct :: "known_attrs \<Rightarrow> bool" where
  "known_distinct k \<longleftrightarrow> (\<forall>a<12. \<forall>b<12. a \<noteq> b \<longrightarrow> known_list k ! a = known_list k ! b \<longrightarrow> known_list k ! a = None)"

lemma known_others:
  assumes "known_distinct k" and "a < 12" and "known_list k ! a = Some i"
  shows "(a \<noteq> 0 \<longrightarrow> Some i \<noteq> ka_mode k) \<and> (a \<noteq> 1 \<longrightarrow> Some i \<noteq> ka_size k) \<and> (a \<noteq> 2 \<longrightarrow> Some i \<noteq> ka_links k) \<and>
    (a \<noteq> 3 \<longrightarrow> Some i \<noteq> ka_uid k) \<and> (a \<noteq> 4 \<longrightarrow> Some i \<noteq> ka_gid k) \<and> (a \<noteq> 5 \<longrightarrow> Some i \<noteq> ka_gen k) \<and>
    (a \<noteq> 6 \<longrightarrow> Some i \<noteq> ka_parent k) \<and> (a \<noteq> 7 \<longrightarrow> Some i \<noteq> ka_flags k) \<and> (a \<noteq> 8 \<longrightarrow> Some i \<noteq> ka_atime k) \<and>
    (a \<noteq> 9 \<longrightarrow> Some i \<noteq> ka_mtime k) \<and> (a \<noteq> 10 \<longrightarrow> Some i \<noteq> ka_ctime k) \<and> (a \<noteq> 11 \<longrightarrow> Some i \<noteq> ka_crtime k)"
proof -
  have other: "Some i \<noteq> known_list k ! b" if "b < 12" "a \<noteq> b" for b
    using assms that unfolding known_distinct_def by fastforce
  show ?thesis
    using other [of 0] other [of 1] other [of 2] other [of 3] other [of 4] other [of 5] other [of 6] other [of 7]
      other [of 8] other [of 9] other [of 10] other [of 11]
    by (simp add: known_list_def)
qed

locale sa_field =
  fixes get :: "zpl_attrs_rec \<Rightarrow> u64 list" and ka :: "known_attrs \<Rightarrow> u16 option" and width :: nat
  assumes other: "ka known \<noteq> Some i \<Longrightarrow> get (assign_known attrs known i rd bonus off sz) = get attrs"
    and hit: "known_distinct known \<Longrightarrow> ka known = Some i \<Longrightarrow> get (assign_known attrs known i rd bonus off sz) =
      (if 8 * width \<le> sz then field_words rd bonus off width else get attrs)"
    and unknown: "get (attrs\<lparr>za_unknown_attr_ids := u\<rparr>) = get attrs"
    and initial: "get zpl_attrs_default = replicate width 0"
begin

lemma walk_other:
  "(\<And>j. j \<in> set ids \<Longrightarrow> ka known \<noteq> Some j) \<Longrightarrow> get (sa_walk reg known rd bonus ids off attrs) = get attrs"
proof (induction ids arbitrary: off attrs)
  case (Cons j ids)
  then show ?case by (auto simp: Let_def other unknown split: option.splits)
qed simp

lemma walk_hit:
  assumes "known_distinct known" and "ka known = Some i" and "i \<notin> set (pre @ post)" and "fixed_ids reg (pre @ [i])"
    and "attr_pos reg off (pre @ [i]) \<le> length bonus" and "length bonus \<le> usize_max"
  shows "get (sa_walk reg known rd bonus (pre @ i # post) off attrs) =
    (if 8 * width \<le> attr_size reg i then field_words rd bonus (attr_pos reg off pre) width else get attrs)"
  using assms(3-5)
proof (induction pre arbitrary: off attrs)
  case Nil
  then obtain s where "sr_size_of reg i = Some s" "unat s = attr_size reg i" "0 < attr_size reg i"
    using fixed_size [of reg i] by auto
  moreover have "get (sa_walk reg known rd bonus post o1 a1) = get a1" for o1 a1
    using Nil assms(2) by (intro walk_other) auto
  ultimately show ?case using Nil assms(1,2,6) by (simp add: sat_add_def Let_def hit)
next
  case (Cons j pre)
  then obtain s where s: "sr_size_of reg j = Some s" "unat s = attr_size reg j" "0 < attr_size reg j"
    using fixed_size [of reg j] by auto
  have "off + attr_size reg j \<le> length bonus"
    using Cons.prems(3) attr_pos_ge [of "off + attr_size reg j" reg "pre @ [i]"] by simp
  then show ?case using Cons s assms(2,6) by (simp add: sat_add_def Let_def other)
qed

end

lemmas field_defs = assign_known_def Let_def field_words_def known_list_def zpl_attrs_default_def SA_TIME_SIZE_def
  eval_nat_numeral

interpretation fld_mode: sa_field "\<lambda>a. [za_mode a]" ka_mode 1
  by unfold_locales (use known_others [of _ 0] in \<open>simp_all add: field_defs\<close>)

interpretation fld_size: sa_field "\<lambda>a. [za_size a]" ka_size 1
  by unfold_locales (use known_others [of _ 1] in \<open>simp_all add: field_defs\<close>)

interpretation fld_links: sa_field "\<lambda>a. [za_links a]" ka_links 1
  by unfold_locales (use known_others [of _ 2] in \<open>simp_all add: field_defs\<close>)

interpretation fld_uid: sa_field "\<lambda>a. [za_uid a]" ka_uid 1
  by unfold_locales (use known_others [of _ 3] in \<open>simp_all add: field_defs\<close>)

interpretation fld_gid: sa_field "\<lambda>a. [za_gid a]" ka_gid 1
  by unfold_locales (use known_others [of _ 4] in \<open>simp_all add: field_defs\<close>)

interpretation fld_gen: sa_field "\<lambda>a. [za_gen a]" ka_gen 1
  by unfold_locales (use known_others [of _ 5] in \<open>simp_all add: field_defs\<close>)

interpretation fld_parent: sa_field "\<lambda>a. [za_parent a]" ka_parent 1
  by unfold_locales (use known_others [of _ 6] in \<open>simp_all add: field_defs\<close>)

interpretation fld_flags: sa_field "\<lambda>a. [za_flags a]" ka_flags 1
  by unfold_locales (use known_others [of _ 7] in \<open>simp_all add: field_defs\<close>)

interpretation fld_atime: sa_field "\<lambda>a. [fst (za_atime a), snd (za_atime a)]" ka_atime 2
  by unfold_locales (use known_others [of _ 8] in \<open>simp_all add: field_defs\<close>)

interpretation fld_mtime: sa_field "\<lambda>a. [fst (za_mtime a), snd (za_mtime a)]" ka_mtime 2
  by unfold_locales (use known_others [of _ 9] in \<open>simp_all add: field_defs\<close>)

interpretation fld_ctime: sa_field "\<lambda>a. [fst (za_ctime a), snd (za_ctime a)]" ka_ctime 2
  by unfold_locales (use known_others [of _ 10] in \<open>simp_all add: field_defs\<close>)

interpretation fld_crtime: sa_field "\<lambda>a. [fst (za_crtime a), snd (za_crtime a)]" ka_crtime 2
  by unfold_locales (use known_others [of _ 11] in \<open>simp_all add: field_defs\<close>)

text \<open>The fields by their registered names.\<close>

definition sa_fields :: "(string \<times> (zpl_attrs_rec \<Rightarrow> u64 list) \<times> (known_attrs \<Rightarrow> u16 option) \<times> nat) list" where
  "sa_fields =
    [(''ZPL_MODE'', \<lambda>a. [za_mode a], ka_mode, 1),
     (''ZPL_SIZE'', \<lambda>a. [za_size a], ka_size, 1),
     (''ZPL_LINKS'', \<lambda>a. [za_links a], ka_links, 1),
     (''ZPL_UID'', \<lambda>a. [za_uid a], ka_uid, 1),
     (''ZPL_GID'', \<lambda>a. [za_gid a], ka_gid, 1),
     (''ZPL_GEN'', \<lambda>a. [za_gen a], ka_gen, 1),
     (''ZPL_PARENT'', \<lambda>a. [za_parent a], ka_parent, 1),
     (''ZPL_FLAGS'', \<lambda>a. [za_flags a], ka_flags, 1),
     (''ZPL_ATIME'', \<lambda>a. [fst (za_atime a), snd (za_atime a)], ka_atime, 2),
     (''ZPL_MTIME'', \<lambda>a. [fst (za_mtime a), snd (za_mtime a)], ka_mtime, 2),
     (''ZPL_CTIME'', \<lambda>a. [fst (za_ctime a), snd (za_ctime a)], ka_ctime, 2),
     (''ZPL_CRTIME'', \<lambda>a. [fst (za_crtime a), snd (za_crtime a)], ka_crtime, 2)]"

lemma sa_fields_law:
  assumes "(n, get, ka, w) \<in> set sa_fields"
  shows "sa_field get ka w" "ka (known_of reg) = map_option sd_id (sr_lookup reg (lit n))"
  using assms
  by (auto simp: sa_fields_def known_of_def Let_def simp del: One_nat_def intro: fld_mode.sa_field_axioms fld_size.sa_field_axioms 
    fld_links.sa_field_axioms fld_uid.sa_field_axioms fld_gid.sa_field_axioms 
    fld_gen.sa_field_axioms fld_parent.sa_field_axioms fld_flags.sa_field_axioms 
    fld_atime.sa_field_axioms fld_mtime.sa_field_axioms 
    fld_ctime.sa_field_axioms fld_crtime.sa_field_axioms)

subsection \<open>A packed buffer\<close>

lemma sa_walk_no_unknown:
  "fixed_ids reg ids \<Longrightarrow> za_unknown_attr_ids (sa_walk reg known rd bonus ids off attrs) = za_unknown_attr_ids attrs"
proof (induction ids arbitrary: off attrs)
  case (Cons i ids)
  then show ?case by (auto simp: Let_def assign_known_def split: option.splits)
qed simp

definition packed_values :: "sa_registry \<Rightarrow> u16 list \<Rightarrow> bytes list \<Rightarrow> bool" where
  "packed_values reg ids vals \<longleftrightarrow> fixed_ids reg ids \<and> distinct ids \<and> list_all2 (\<lambda>i v. length v = attr_size reg i) ids vals"

lemma packed_length: "list_all2 (\<lambda>i v. length v = attr_size reg i) ids vals \<Longrightarrow> attr_pos reg h ids = h + length (concat vals)"
  by (induction arbitrary: h rule: list_all2_induct) simp_all

lemma packed_split:
  assumes "list_all2 P ids vals" and "map_of (zip ids vals) i = Some v"
  shows "\<exists>pre post vs ws. ids = pre @ i # post \<and> vals = vs @ v # ws \<and> list_all2 P pre vs"
  using assms
proof (induction rule: list_all2_induct)
  case (Cons j ids u vals)
  show ?case
  proof (cases "j = i")
    case True
    then show ?thesis
      using Cons.prems by (intro exI [of _ "[]"] exI [of _ ids] exI [of _ "[]"] exI [of _ vals]) simp
  next
    case False
    then obtain pre post vs ws where "ids = pre @ i # post" "vals = vs @ v # ws" "list_all2 P pre vs"
      using Cons by auto
    then show ?thesis using Cons.hyps(1) by (intro exI [of _ "j # pre"] exI [of _ post] exI [of _ "u # vs"] exI [of _ ws]) simp
  qed
qed simp

text \<open>The words of a value in the pool's byte order.\<close>

definition value_words :: "endian \<Rightarrow> nat \<Rightarrow> bytes \<Rightarrow> u64 list" where
  "value_words e w v = map (\<lambda>k. dec_bytes e (take 8 (drop (8 * k) v))) [0..<w]"

lemma field_words_at:
  assumes "8 * w \<le> length v"
  shows "field_words (reader_new e) (xs @ v @ ys) (length xs) w = value_words e w v"
proof -
  have "rd_u64 (reader_new e) (xs @ v @ ys) (length xs + 8 * k) = dec_bytes e (take 8 (drop (8 * k) v))" if "k < w" for k
  proof -
    have fit: "8 * k + 8 \<le> length v" using assms that by linarith
    have "rd_u64 (reader_new e) (xs @ v @ ys) (length xs + 8 * k) = rd_u64 (reader_new e) v (8 * k)"
      using fit by (simp add: rd64.append_right rd64.append_left)
    also have "\<dots> = dec_bytes e (take 8 (drop (8 * k) v))" using fit by (simp add: rd64.in_range)
    finally show ?thesis .
  qed
  then show ?thesis by (simp add: field_words_def value_words_def)
qed

definition sa_header :: "bytes \<Rightarrow> sa_layouts \<Rightarrow> u16 list \<Rightarrow> bool" where
  "sa_header hdr layouts ids \<longleftrightarrow> 6 \<le> length hdr \<and> length hdr = sa_hdrsz hdr \<and> le_u32 hdr 0 = SA_MAGIC \<and>
     sl_attr_ids layouts (sa_layout_num hdr) = Some ids"

lemma sa_header_append:
  assumes "sa_header hdr layouts ids"
  shows "le_u32 (hdr @ xs) 0 = SA_MAGIC" "sl_attr_ids layouts (sa_layout_num (hdr @ xs)) = Some ids"
    "sa_hdrsz (hdr @ xs) = length hdr"
  using assms by (simp_all add: sa_header_def sa_layout_num_def sa_hdrsz_def le32.append_left le16.append_left)

subsection \<open>The legacy znode\<close>

lemma rd_u64_words:
  "k < length ws \<Longrightarrow> rd_u64 (reader_new e) (concat (map (enc_bytes e 8) ws) @ tail) (8 * k) = ws ! k"
proof (induction ws arbitrary: k)
  case (Cons w ws)
  show ?case
  proof (cases k)
    case 0
    then show ?thesis using rd64.read_enc [of "reader_new e" w] by simp
  next
    case (Suc j)
    then show ?thesis
      using Cons rd64.append_right [of "reader_new e" "enc_bytes e 8 w" _ "8 * j"] by simp
  qed
qed simp

definition znode_words :: "zpl_attrs_rec \<Rightarrow> u64 list" where
  "znode_words a = [fst (za_atime a), snd (za_atime a), fst (za_mtime a), snd (za_mtime a), fst (za_ctime a), snd (za_ctime a),
     fst (za_crtime a), snd (za_crtime a), za_gen a, za_mode a, za_size a, za_parent a, za_links a]"

text \<open>
  A legacy znode written in either byte order decodes to its times, generation, mode, size, parent
  and link count; the owner, group and flags it also stores, at bytes 120 to 144, are reported as zero,
  and a bonus shorter than 264 bytes is refused.
\<close>

lemma znode_round_trip:
  "decode_znode_phys (concat (map (enc_bytes e 8) (znode_words a)) @ tail) e =
     (if length tail < 160 then None
      else Some (a\<lparr>za_uid := 0, za_gid := 0, za_flags := 0, za_unknown_attr_ids := []\<rparr>))"
proof -
  let ?b = "concat (map (enc_bytes e 8) (znode_words a)) @ tail"
  have w: "rd_u64 (reader_new e) ?b (8 * k) = znode_words a ! k" if "k < 13" for k
    using that by (intro rd_u64_words) (simp add: znode_words_def)
  have "length ?b = 104 + length tail" by (simp add: znode_words_def)
  then show ?thesis
    using w [of 0] w [of 1] w [of 2] w [of 3] w [of 4] w [of 5] w [of 6] w [of 7] w [of 8] w [of 9] w [of 10] w [of 11] w [of 12]
    by (simp add: decode_znode_phys_def ZNODE_PHYS_SIZE_def Let_def) (simp add: znode_words_def)
qed

subsection \<open>Attributes of any length\<close>

text \<open>
  A value has its registered size, or any size below 64 KiB when that is zero; the sizes of the latter
  stand in the header, in layout order from byte 6.
\<close>

definition sized_value :: "sa_registry \<Rightarrow> u16 \<Rightarrow> bytes \<Rightarrow> bool" where
  "sized_value reg i v \<longleftrightarrow> (case sr_size_of reg i of None \<Rightarrow> False
     | Some s \<Rightarrow> if s = 0 then length v < 65536 else length v = unat s)"

fun var_lengths :: "sa_registry \<Rightarrow> u16 list \<Rightarrow> bytes list \<Rightarrow> u16 list" where
  "var_lengths reg (i # ids) (v # vals) =
     (if sr_size_of reg i = Some 0 then of_nat (length v) # var_lengths reg ids vals else var_lengths reg ids vals)"
| "var_lengths reg _ _ = []"

lemma sa_locate_value:
  assumes "list_all2 (sized_value reg) ids vals" and "bytes_at sa off (concat vals)"
    and "bytes_at sa (6 + 2 * k) (concat (map (to_le_bytes 2) (var_lengths reg ids vals)))"
    and "6 + 2 * k + 2 * length (var_lengths reg ids vals) \<le> h" and "h \<le> length sa" and "length sa \<le> usize_max"
  shows "sa_locate reg sa h want ids k off = map_of (zip ids vals) want"
  using assms(1-4)
proof (induction ids arbitrary: vals k off)
  case (Cons i ids)
  then obtain v vs where vals: "vals = v # vs" and v: "sized_value reg i v" and vs: "list_all2 (sized_value reg) ids vs"
    by (auto simp: list_all2_Cons1)
  obtain s where s: "sr_size_of reg i = Some s" using v by (auto simp: sized_value_def split: option.splits)
  have at: "bytes_at sa off v" "bytes_at sa (off + length v) (concat vs)"
    using Cons.prems(2) by (simp_all add: vals bytes_at_append)
  have fin: "checked_add off (length v) = Some (off + length v)" "slice_get sa off (off + length v) = Some v"
    using bytes_at_le [OF at(1)] bytes_at_slice [OF at(1)] assms(6) by (simp_all add: checked_add_def)
  show ?case
  proof (cases "s = 0")
    case True
    let ?l = "of_nat (length v) :: u16"
    have l: "unat ?l = length v" using v s True by (simp add: sized_value_def unat_of_nat)
    have "bytes_at sa (6 + 2 * k) (to_le_bytes 2 ?l)" "bytes_at sa (6 + 2 * Suc k) (concat (map (to_le_bytes 2) (var_lengths reg ids vs)))"
      using Cons.prems(3) s True by (simp_all add: vals bytes_at_append)
    then show ?thesis
      using Cons.IH [OF vs at(2), of "Suc k"] Cons.prems(4) s True l le16_at [of sa "6 + 2 * k" ?l] fin assms(5)
      by (simp add: vals mult.commute)
  next
    case False
    then have "length v = unat s" using v s by (simp add: sized_value_def)
    then show ?thesis using Cons.IH [OF vs at(2), of k] Cons.prems(3,4) s False fin by (simp add: vals)
  qed
qed simp

definition sa_var_header :: "sa_registry \<Rightarrow> sa_layouts \<Rightarrow> bytes \<Rightarrow> u16 list \<Rightarrow> bytes list \<Rightarrow> bool" where
  "sa_var_header reg layouts hdr ids vals \<longleftrightarrow> sa_header hdr layouts ids \<and>
     bytes_at hdr 6 (concat (map (to_le_bytes 2) (var_lengths reg ids vals)))"

lemma sa_attr_bytes_value:
  assumes "sa_var_header reg layouts hdr ids vals" and "list_all2 (sized_value reg) ids vals"
    and "length (hdr @ concat vals @ rest) \<le> usize_max" and "sr_lookup reg name = Some d"
  shows "sa_attr_bytes (hdr @ concat vals @ rest) reg layouts name = map_of (zip ids vals) (sd_id d)"
proof -
  let ?ls = "concat (map (to_le_bytes 2) (var_lengths reg ids vals))"
  have hdr: "sa_header hdr layouts ids" and at: "bytes_at hdr 6 ?ls" using assms(1) by (simp_all add: sa_var_header_def)
  have len: "length ?ls = 2 * length (var_lengths reg ids vals)" by (simp add: length_concat comp_def sum_list_triv)
  have "sa_locate reg (hdr @ concat vals @ rest) (length hdr) (sd_id d) ids 0 (length hdr) = map_of (zip ids vals) (sd_id d)"
    by (rule sa_locate_value [OF assms(2)])
      (use at bytes_at_le [OF at] assms(3) len in \<open>simp_all add: bytes_at_def\<close>)
  then show ?thesis
    using sa_header_append [OF hdr, of "concat vals @ rest"] assms(4) by (simp add: sa_attr_bytes_def)
qed

text \<open>
  C32. Locating an attribute finds its value whatever the lengths: in a buffer whose header records the
  lengths of the variable-size attributes in layout order and whose values follow it, each attribute
  of the layout is located at exactly its value, whatever stands before it, and an attribute the
  layout lacks is not located.
\<close>

theorem sa_attr_located:
  assumes "sa_var_header reg layouts hdr ids vals" and "list_all2 (sized_value reg) ids vals"
    and "length (hdr @ concat vals @ rest) \<le> usize_max" and "sr_lookup reg name = Some d"
  shows "sa_attr_bytes (hdr @ concat vals @ rest) reg layouts name = map_of (zip ids vals) (sd_id d)"
  by (rule sa_attr_bytes_value [OF assms])

definition linked_registry :: sa_registry where
  "linked_registry = \<lparr>sr_by_name =
     [(lit ''ZPL_DXATTR'', \<lparr>sd_id = 19, sd_size = 0, sd_bswap = 3\<rparr>),
      (lit ''ZPL_SYMLINK'', \<lparr>sd_id = 17, sd_size = 0, sd_bswap = 3\<rparr>),
      (lit ''ZPL_SIZE'', \<lparr>sd_id = 6, sd_size = 8, sd_bswap = 0\<rparr>)]\<rparr>"

definition linked_header :: bytes where
  "linked_header = to_le_bytes 4 SA_MAGIC @ to_le_bytes 2 (0x803 :: u16) @ to_le_bytes 2 (3 :: u16) @
     to_le_bytes 2 (1 :: u16) @ replicate 6 0"

lemma sa_attr_located_witness:
  "sa_attr_bytes (linked_header @ [9, 9, 9] @ [0, 0, 0, 0, 0, 0, 0, 12] @ [7] @ [5, 5]) linked_registry
     \<lparr>sl_by_num = [(3, [19, 6, 17])]\<rparr> (lit ''ZPL_SYMLINK'') = Some [7]"
proof -
  let ?lay = "\<lparr>sl_by_num = [(3 :: u64, [19, 6, 17 :: u16])]\<rparr>"
  let ?vals = "[[9, 9, 9], [0, 0, 0, 0, 0, 0, 0, 12], [7]] :: bytes list"
  have sizes: "sr_size_of linked_registry 19 = Some 0" "sr_size_of linked_registry 6 = Some 8"
    "sr_size_of linked_registry 17 = Some 0"
    by (simp_all add: sr_size_of_def linked_registry_def)
  have "le_u16 linked_header 4 = 0x803" unfolding linked_header_def by (rule le16.read_enc_at') simp
  moreover have "le_u32 linked_header 0 = SA_MAGIC" by (simp add: linked_header_def le32.read_enc)
  ultimately have "sa_header linked_header ?lay [19, 6, 17]"
    by (simp add: sa_header_def sa_layout_num_def sa_hdrsz_def sl_attr_ids_def find_name_def linked_header_def)
  moreover have "bytes_at linked_header 6 (concat (map (to_le_bytes 2) (var_lengths linked_registry [19, 6, 17] ?vals)))"
    by (simp add: sizes bytes_at_def linked_header_def)
  ultimately have "sa_var_header linked_registry ?lay linked_header [19, 6, 17] ?vals" by (simp add: sa_var_header_def)
  moreover have "list_all2 (sized_value linked_registry) [19, 6, 17] ?vals" by (simp add: sized_value_def sizes)
  moreover have "sr_lookup linked_registry (lit ''ZPL_SYMLINK'') = Some \<lparr>sd_id = 17, sd_size = 0, sd_bswap = 3\<rparr>"
    by (simp add: sr_lookup_def linked_registry_def find_name_def lit_def)
  ultimately show ?thesis
    using sa_attr_located [of linked_registry ?lay linked_header "[19, 6, 17]" ?vals "[5, 5]" "lit ''ZPL_SYMLINK''"]
    by (simp add: usize_max_def linked_header_def)
qed

subsection \<open>Every field of a packed buffer\<close>

definition stored_words :: "endian \<Rightarrow> nat \<Rightarrow> bytes option \<Rightarrow> u64 list" where
  "stored_words e w v = (case v of None \<Rightarrow> replicate w 0
     | Some bs \<Rightarrow> if 8 * w \<le> length bs then value_words e w bs else replicate w 0)"

lemma packed_field:
  assumes "sa_field get ka w" and "ka known = Some i" and "known_distinct known" and "packed_values reg ids vals"
    and "length (hdr @ concat vals @ rest) \<le> usize_max"
  shows "get (sa_walk reg known (reader_new e) (hdr @ concat vals @ rest) ids (length hdr) zpl_attrs_default) =
    stored_words e w (map_of (zip ids vals) i)"
proof -
  let ?sa = "hdr @ concat vals @ rest" and ?rd = "reader_new e"
  let ?size = "\<lambda>i v. length v = attr_size reg i"
  have packed: "fixed_ids reg ids" "distinct ids" "list_all2 ?size ids vals"
    using assms(4) by (simp_all add: packed_values_def)
  show ?thesis
  proof (cases "map_of (zip ids vals) i")
    case None
    then have absent: "i \<notin> set ids" using list_all2_lengthD [OF packed(3)] by (simp add: map_of_zip_is_None)
    have "get (sa_walk reg known ?rd ?sa ids (length hdr) zpl_attrs_default) = get zpl_attrs_default"
      by (rule sa_field.walk_other [OF assms(1)]) (use assms(2) absent in auto)
    then show ?thesis using None by (simp add: sa_field.initial [OF assms(1)] stored_words_def)
  next
    case (Some v)
    then obtain pre post vs ws where ids: "ids = pre @ i # post" and vals: "vals = vs @ v # ws" and vs: "list_all2 ?size pre vs"
      using packed_split [OF packed(3)] by blast
    let ?pos = "attr_pos reg (length hdr) pre"
    have v: "length v = attr_size reg i" using packed(3) vs by (simp add: ids vals list_all2_append list_all2_lengthD)
    have pos: "?pos = length (hdr @ concat vs)" using packed_length [OF vs] by simp
    have sa: "?sa = (hdr @ concat vs) @ v @ (concat ws @ rest)" by (simp add: vals)
    have fit: "attr_pos reg (length hdr) (pre @ [i]) \<le> length ?sa" using pos v by (simp add: sa)
    have fixed: "fixed_ids reg (pre @ [i])" and new: "i \<notin> set (pre @ post)" using packed(1,2) by (auto simp: ids)
    have "8 * w \<le> length v \<Longrightarrow> field_words ?rd ?sa ?pos w = value_words e w v"
      unfolding sa pos by (rule field_words_at)
    then show ?thesis
      using sa_field.walk_hit [OF assms(1,3,2) new fixed fit assms(5), of ?rd zpl_attrs_default] Some
      by (simp add: ids v sa_field.initial [OF assms(1)] stored_words_def)
  qed
qed

lemma packed_sized:
  assumes "packed_values reg ids vals"
  shows "list_all2 (sized_value reg) ids vals" "var_lengths reg ids vals = []"
proof -
  have "list_all2 (\<lambda>i v. length v = attr_size reg i) ids vals" "fixed_ids reg ids"
    using assms by (simp_all add: packed_values_def)
  then have "list_all2 (sized_value reg) ids vals \<and> var_lengths reg ids vals = []"
    by (induction rule: list_all2_induct) (auto simp: sized_value_def attr_size_def)
  then show "list_all2 (sized_value reg) ids vals" "var_lengths reg ids vals = []" by simp_all
qed

text \<open>
  C35. A packed attribute buffer decodes field by field: for each of the twelve attributes the reader
  knows, under any registry that gives them distinct identifiers and any layout of fixed-size
  attributes, the decoded field is the words of the value stored for it (in the pool's byte order),
  zero when the layout lacks it or registers it too short, and locating the attribute by name yields
  exactly the stored bytes, or nothing.
\<close>

theorem sa_bonus_round_trip:
  assumes "sa_header hdr layouts ids" and "packed_values reg ids vals" and "known_distinct (known_of reg)"
    and "length (hdr @ concat vals @ rest) \<le> usize_max"
    and "(n, get, ka, w) \<in> set sa_fields" and "sr_lookup reg (lit n) = Some d"
  shows "sa_attr_bytes (hdr @ concat vals @ rest) reg layouts (lit n) = map_of (zip ids vals) (sd_id d) \<and>
    (\<exists>attrs. decode_sa_bonus (hdr @ concat vals @ rest) reg layouts e = Some attrs \<and> za_unknown_attr_ids attrs = [] \<and>
      get attrs = stored_words e w (map_of (zip ids vals) (sd_id d)))"
proof -
  let ?sa = "hdr @ concat vals @ rest" and ?k = "known_of reg"
  let ?attrs = "sa_walk reg ?k (reader_new e) ?sa ids (length hdr) zpl_attrs_default"
  have ka: "ka ?k = Some (sd_id d)" using sa_fields_law(2) [OF assms(5)] assms(6) by simp
  have "sa_var_header reg layouts hdr ids vals"
    using assms(1) packed_sized(2) [OF assms(2)] by (simp add: sa_var_header_def sa_header_def bytes_at_def)
  then have "sa_attr_bytes ?sa reg layouts (lit n) = map_of (zip ids vals) (sd_id d)"
    by (rule sa_attr_bytes_value [OF _ packed_sized(1) [OF assms(2)] assms(4,6)])
  moreover have "get ?attrs = stored_words e w (map_of (zip ids vals) (sd_id d))"
    by (rule packed_field [OF sa_fields_law(1) [OF assms(5)] ka assms(3,2,4)])
  moreover have "za_unknown_attr_ids ?attrs = []"
    using assms(2) sa_walk_no_unknown by (simp add: packed_values_def zpl_attrs_default_def)
  moreover have "decode_sa_bonus ?sa reg layouts e = Some ?attrs"
    using sa_header_append [OF assms(1)] by (simp add: decode_sa_bonus_def)
  ultimately show ?thesis by blast
qed

definition timed_registry :: sa_registry where
  "timed_registry = \<lparr>sr_by_name =
     [(lit ''ZPL_CRTIME'', \<lparr>sd_id = 9, sd_size = 16, sd_bswap = 0\<rparr>),
      (lit ''ZPL_SIZE'', \<lparr>sd_id = 6, sd_size = 8, sd_bswap = 0\<rparr>)]\<rparr>"

definition timed_header :: bytes where
  "timed_header = to_le_bytes 4 SA_MAGIC @ to_le_bytes 2 (0x802 :: u16) @ replicate 10 0"

lemma timed_facts:
  "sa_header timed_header \<lparr>sl_by_num = [(2, [6, 9])]\<rparr> [6, 9]"
  "packed_values timed_registry [6, 9] [[0, 0, 0, 0, 0, 0, 0, 12], [0, 0, 0, 0, 0, 0, 0, 1, 0, 0, 0, 0, 0, 0, 0, 2]]"
  "known_distinct (known_of timed_registry)"
  "sr_lookup timed_registry (lit ''ZPL_CRTIME'') = Some \<lparr>sd_id = 9, sd_size = 16, sd_bswap = 0\<rparr>"
proof -
  have "le_u16 timed_header 4 = 0x802" unfolding timed_header_def by (rule le16.read_enc_at') simp
  moreover have "le_u32 timed_header 0 = SA_MAGIC" by (simp add: timed_header_def le32.read_enc)
  ultimately show "sa_header timed_header \<lparr>sl_by_num = [(2, [6, 9])]\<rparr> [6, 9]"
    by (simp add: sa_header_def sa_layout_num_def sa_hdrsz_def sl_attr_ids_def find_name_def timed_header_def)
  show "packed_values timed_registry [6, 9] [[0, 0, 0, 0, 0, 0, 0, 12], [0, 0, 0, 0, 0, 0, 0, 1, 0, 0, 0, 0, 0, 0, 0, 2]]"
    by (simp add: packed_values_def timed_registry_def attr_size_def sr_size_of_def)
  show "known_distinct (known_of timed_registry)"
  proof -
    have "known_list (known_of timed_registry) = [None, Some 6, None, None, None, None, None, None, None, None, None, Some 9]"
      by (simp add: known_list_def known_of_def timed_registry_def sr_lookup_def find_name_def lit_def)
    moreover have "(9 :: u16) \<noteq> 6" by simp
    ultimately show ?thesis by (simp only: known_distinct_def) (auto simp: All_less_Suc nth_append nth_Cons' split: if_splits)
  qed
  show "sr_lookup timed_registry (lit ''ZPL_CRTIME'') = Some \<lparr>sd_id = 9, sd_size = 16, sd_bswap = 0\<rparr>"
    by (simp add: sr_lookup_def timed_registry_def find_name_def lit_def)
qed

lemma sa_bonus_round_trip_witness:
  "\<exists>attrs. decode_sa_bonus (timed_header @ [0, 0, 0, 0, 0, 0, 0, 12] @ [0, 0, 0, 0, 0, 0, 0, 1, 0, 0, 0, 0, 0, 0, 0, 2])
      timed_registry \<lparr>sl_by_num = [(2, [6, 9])]\<rparr> Big = Some attrs \<and> za_crtime attrs = (1, 2)"
proof -
  let ?v = "[0, 0, 0, 0, 0, 0, 0, 1, 0, 0, 0, 0, 0, 0, 0, 2] :: bytes"
  have "(''ZPL_CRTIME'', \<lambda>a. [fst (za_crtime a), snd (za_crtime a)], ka_crtime, 2) \<in> set sa_fields"
    by (simp add: sa_fields_def)
  note rt = sa_bonus_round_trip [OF timed_facts(1-3) _ this timed_facts(4), of "[]" Big]
  have "value_words Big 2 ?v = [1, 2]"
    by (simp add: value_words_def upt_rec dec_bytes_def from_be_bytes_def)
  then show ?thesis using rt by (auto simp: usize_max_def timed_header_def prod_eq_iff stored_words_def)
qed

end
