(* ===== verification/Zfs_Xattr_Fs.thy ===== *)
theory Zfs_Xattr_Fs
  imports Zfs_Xattr Zfs_Sa_Fields
begin

section \<open>Extended attributes of a formatted file system\<close>

text \<open>
  The reference formatter extended to both ways of storing extended attributes, and the proof that
  \<^verbatim>\<open>list_xattrs\<close> lists what was stored: through the object set, the attribute tables, the locator of
  a variable-length attribute, the nvlist parser, the directory listing and the file reader.
\<close>

subsection \<open>Tagged file systems\<close>

text \<open>
  A node of the reference file system with the extended attributes it stores: none, a packed nvlist in
  its own attribute buffer, or a hidden directory of value files.
\<close>

datatype xa_store = XaNone | XaPacked nvlist | XaDir nat

definition store_fits :: "xa_store \<Rightarrow> bool" where
  "store_fits st \<longleftrightarrow> (case st of XaPacked l \<Rightarrow> length (nvlist_encode l) \<le> 296 | _ \<Rightarrow> True)"

definition tagged_head :: "xa_store \<Rightarrow> bytes" where
  "tagged_head st = to_le_bytes 4 SA_MAGIC @ (case st of
     XaNone \<Rightarrow> to_le_bytes 2 (0x402 :: u16) @ [0, 0]
   | XaPacked l \<Rightarrow> to_le_bytes 2 (0x403 :: u16) @ to_le_bytes 2 (of_nat (length (nvlist_encode l)) :: u16)
   | XaDir d \<Rightarrow> to_le_bytes 2 (0x404 :: u16) @ [0, 0])"

definition tagged_ids :: "xa_store \<Rightarrow> u16 list" where
  "tagged_ids st = [5, 6] @ (case st of XaNone \<Rightarrow> [] | XaPacked _ \<Rightarrow> [19] | XaDir _ \<Rightarrow> [14])"

definition tagged_vals :: "u64 \<Rightarrow> u64 \<Rightarrow> xa_store \<Rightarrow> bytes list" where
  "tagged_vals mode sz st = [to_le_bytes 8 mode, to_le_bytes 8 sz] @
     (case st of XaNone \<Rightarrow> [] | XaPacked l \<Rightarrow> [nvlist_encode l] | XaDir d \<Rightarrow> [to_le_bytes 8 (node_id d)])"

definition tagged_bonus :: "u64 \<Rightarrow> u64 \<Rightarrow> xa_store \<Rightarrow> bytes" where
  "tagged_bonus mode sz st = tagged_head st @ concat (tagged_vals mode sz st)"

definition tagged_obj :: "fs_node \<times> xa_store \<Rightarrow> raw_obj" where
  "tagged_obj p = (node_obj (fst p))\<lparr>ro_bonus := tagged_bonus (za_mode (node_attrs (fst p))) (za_size (node_attrs (fst p))) (snd p)\<rparr>"

definition file_bytes :: "fs_node \<Rightarrow> bytes option" where
  "file_bytes nd = (case nd of FFile bs \<Rightarrow> Some bs | FDir _ \<Rightarrow> None)"

definition wf_tagged :: "(fs_node \<times> xa_store) list \<Rightarrow> fs_node \<times> xa_store \<Rightarrow> bool" where
  "wf_tagged fs p \<longleftrightarrow> wf_node (length fs) (fst p) \<and> store_fits (snd p) \<and>
     (case snd p of
        XaNone \<Rightarrow> True
      | XaPacked l \<Rightarrow> wf_nvlist l
      | XaDir d \<Rightarrow> d < length fs \<and> (case fst (fs ! d) of FFile _ \<Rightarrow> False
          | FDir es \<Rightarrow> list_all (\<lambda>(n, t, c). file_bytes (fst (fs ! c)) \<noteq> None) es))"

definition tagged_on :: "bytes \<Rightarrow> nat \<Rightarrow> (fs_node \<times> xa_store) list \<Rightarrow> objset \<Rightarrow> bool" where
  "tagged_on img b fs os \<longleftrightarrow> list_all (wf_tagged fs) fs \<and> length fs < 65000 \<and>
     objset_on img b (sys_objs @ map tagged_obj fs) os"

text \<open>The specification: what the attributes of a node are.\<close>

definition byte_pairs :: "nvlist \<Rightarrow> xattr list" where
  "byte_pairs l = List.map_filter (\<lambda>p. case snd p of
     NvBytes b \<Rightarrow> Some \<lparr>xa_name = fst p, xa_value = b\<rparr> | _ \<Rightarrow> None) (nv_pairs l)"

definition node_xattrs :: "(fs_node \<times> xa_store) list \<Rightarrow> fs_node \<times> xa_store \<Rightarrow> xattr list" where
  "node_xattrs fs p = (case snd p of
     XaNone \<Rightarrow> []
   | XaPacked l \<Rightarrow> byte_pairs l
   | XaDir d \<Rightarrow> (case fst (fs ! d) of FFile _ \<Rightarrow> []
       | FDir es \<Rightarrow> map (\<lambda>(n, t, c). \<lparr>xa_name = n, xa_value = the (file_bytes (fst (fs ! c)))\<rparr>) es))"

lemma sample_ids:
  "sl_attr_ids sample_layouts 2 = Some [5, 6]" "sl_attr_ids sample_layouts 3 = Some [5, 6, 19]"
  "sl_attr_ids sample_layouts 4 = Some [5, 6, 14]"
  by (simp_all add: sl_attr_ids_def sample_layouts_def)

lemma sample_sizes:
  "sr_size_of sample_registry 5 = Some 8" "sr_size_of sample_registry 6 = Some 8"
  "sr_size_of sample_registry 14 = Some 8" "sr_size_of sample_registry 19 = Some 0"
  by (simp_all add: sample_registry_def sr_size_of_def)

lemma sample_lookup:
  "sr_lookup sample_registry ZPL_DXATTR = Some \<lparr>sd_id = 19, sd_size = 0, sd_bswap = 3\<rparr>"
  "sr_lookup sample_registry ZPL_XATTR = Some \<lparr>sd_id = 14, sd_size = 8, sd_bswap = 0\<rparr>"
  by (simp_all add: sample_registry_def sr_lookup_def lit_def ZPL_DXATTR_def ZPL_XATTR_def)

lemma tagged_header:
  assumes "store_fits st"
  shows "sa_var_header sample_registry sample_layouts (tagged_head st) (tagged_ids st) (tagged_vals mode sz st)"
    and "list_all2 (sized_value sample_registry) (tagged_ids st) (tagged_vals mode sz st)" and "length (tagged_head st) = 8"
proof -
  have head: "sa_header (to_le_bytes 4 SA_MAGIC @ to_le_bytes 2 info @ tl) sample_layouts ids"
    if "sl_attr_ids sample_layouts (ucast (info AND 0x3FF)) = Some ids" "length tl = 2"
      and "unat (drop_bit 10 info AND 0x3F) * 2 ^ 3 = 8" for info :: u16 and tl ids
  proof -
    have "le_u16 (to_le_bytes 4 SA_MAGIC @ to_le_bytes 2 info @ tl) 4 = info" by (rule le16.read_enc_at') simp
    then show ?thesis using that by (simp add: sa_header_def sa_layout_num_def sa_hdrsz_def le32.read_enc)
  qed
  have "sa_header (tagged_head st) sample_layouts (tagged_ids st)"
    by (cases st) (use sample_ids in \<open>simp_all add: tagged_head_def tagged_ids_def head\<close>)
  then show "sa_var_header sample_registry sample_layouts (tagged_head st) (tagged_ids st) (tagged_vals mode sz st)"
    by (cases st) (simp_all add: sa_var_header_def tagged_head_def tagged_ids_def tagged_vals_def sample_sizes bytes_at_def)
  show "list_all2 (sized_value sample_registry) (tagged_ids st) (tagged_vals mode sz st)"
    by (cases st) (use assms in \<open>simp_all add: store_fits_def tagged_ids_def tagged_vals_def sample_sizes sized_value_def\<close>)
  show "length (tagged_head st) = 8" by (cases st) (simp_all add: tagged_head_def)
qed

lemma tagged_located:
  assumes "store_fits st"
  shows "sa_attr_bytes (tagged_bonus mode sz st) sample_registry sample_layouts ZPL_DXATTR =
      (case st of XaPacked l \<Rightarrow> Some (nvlist_encode l) | _ \<Rightarrow> None)"
    and "sa_attr_bytes (tagged_bonus mode sz st) sample_registry sample_layouts ZPL_XATTR =
      (case st of XaDir d \<Rightarrow> Some (to_le_bytes 8 (node_id d)) | _ \<Rightarrow> None)"
proof -
  have "length (tagged_bonus mode sz st) \<le> usize_max"
    using assms by (cases st) (simp_all add: store_fits_def tagged_bonus_def tagged_vals_def tagged_head_def usize_max_def)
  then have loc: "sr_lookup sample_registry name = Some d \<Longrightarrow>
      sa_attr_bytes (tagged_bonus mode sz st) sample_registry sample_layouts name =
        map_of (zip (tagged_ids st) (tagged_vals mode sz st)) (sd_id d)" for name d
    using sa_attr_bytes_value [OF tagged_header(1,2) [OF assms], of mode sz "[]"] by (simp add: tagged_bonus_def)
  show "sa_attr_bytes (tagged_bonus mode sz st) sample_registry sample_layouts ZPL_DXATTR =
      (case st of XaPacked l \<Rightarrow> Some (nvlist_encode l) | _ \<Rightarrow> None)"
    "sa_attr_bytes (tagged_bonus mode sz st) sample_registry sample_layouts ZPL_XATTR =
      (case st of XaDir d \<Rightarrow> Some (to_le_bytes 8 (node_id d)) | _ \<Rightarrow> None)"
    unfolding loc [OF sample_lookup(1)] loc [OF sample_lookup(2)] tagged_ids_def tagged_vals_def
    by (cases st; simp)+
qed

lemma sample_walk:
  assumes "ids = [] \<or> ids = [19] \<or> ids = [14] \<and> 32 \<le> length b" and "24 \<le> length b"
    and "le_u64 b 8 = mode" and "le_u64 b 16 = sz"
  shows "sa_walk sample_registry (known_of sample_registry) (reader_new Little) b (5 # 6 # ids) 8 zpl_attrs_default =
    zpl_attrs_default\<lparr>za_mode := mode, za_size := sz\<rparr>"
proof -
  have known: "ka_mode (known_of sample_registry) = Some 5" "ka_size (known_of sample_registry) = Some 6"
    "Some (14 :: u16) \<notin> set (known_list (known_of sample_registry))"
    by (simp_all add: known_of_def known_list_def sample_registry_def sr_lookup_def lit_def)
  show ?thesis
    using assms known
    by (auto simp: sample_sizes sat_add_def usize_max_def assign_known_def known_list_def Let_def rd_u64_def)
qed

lemma decode_tagged:
  assumes "store_fits st"
  shows "decode_sa_bonus (tagged_bonus mode sz st) sample_registry sample_layouts Little =
    Some (zpl_attrs_default\<lparr>za_mode := mode, za_size := sz\<rparr>)"
proof -
  let ?b = "tagged_bonus mode sz st" and ?h = "tagged_head st"
  let ?tl = "case st of XaNone \<Rightarrow> [] | XaPacked l \<Rightarrow> nvlist_encode l | XaDir d \<Rightarrow> to_le_bytes 8 (node_id d)"
  let ?more = "case st of XaNone \<Rightarrow> [] | XaPacked _ \<Rightarrow> [19] | XaDir _ \<Rightarrow> [14 :: u16]"
  have b: "?b = ?h @ to_le_bytes 8 mode @ to_le_bytes 8 sz @ ?tl"
    by (cases st) (simp_all add: tagged_bonus_def tagged_vals_def)
  have hdr: "sa_header ?h sample_layouts (tagged_ids st)" and h: "length ?h = 8"
    using tagged_header [OF assms] by (simp_all add: sa_var_header_def)
  have md: "le_u64 ?b 8 = mode" unfolding b by (rule le64.read_enc_at') (simp add: h)
  have "?b = (?h @ to_le_bytes 8 mode) @ to_le_bytes 8 sz @ ?tl" by (simp add: b)
  then have s: "le_u64 ?b 16 = sz" by (simp only:) (rule le64.read_enc_at', simp add: h)
  have len: "length ?b = 24 + length ?tl" by (simp add: b h)
  have "?more = [] \<or> ?more = [19] \<or> ?more = [14] \<and> length ?tl = 8" by (cases st) simp_all
  then have "?more = [] \<or> ?more = [19] \<or> ?more = [14] \<and> 32 \<le> length ?b" unfolding len by auto
  from sample_walk [OF this _ md s] len
  show ?thesis
    using sa_header_append [OF hdr, of "concat (tagged_vals mode sz st)"] h
    by (simp add: decode_sa_bonus_def tagged_bonus_def [symmetric]) (simp add: tagged_ids_def)
qed

subsection \<open>Listing a tagged node\<close>

lemma tagged_node:
  assumes "tagged_on img b fs os" and "j < length fs"
  shows "objset_on img b (sys_objs @ map tagged_obj fs) os" "4 + j < length (sys_objs @ map tagged_obj fs)"
    "(sys_objs @ map tagged_obj fs) ! (4 + j) = tagged_obj (fs ! j)" "of_nat (Suc (4 + j)) = node_id j"
    "wf_tagged fs (fs ! j)"
  using assms by (simp_all add: tagged_on_def nth_append node_id_def list_all_length)

lemma tagged_dnode:
  assumes "tagged_on img b fs os" and "j < length fs"
  shows "\<exists>dn. mos_dnode x img os (node_id j) = Some dn \<and> dn_bonustype dn = DMU_OT_SA \<and> dn_endian dn = Little \<and>
    dn_bonus dn = tagged_bonus (za_mode (node_attrs (fst (fs ! j)))) (za_size (node_attrs (fst (fs ! j)))) (snd (fs ! j))"
proof -
  note t = tagged_node [OF assms]
  have "ro_bonustype (tagged_obj p) = DMU_OT_SA" for p by (cases "fst p") (simp_all add: tagged_obj_def DMU_OT_SA_def)
  then show ?thesis
    using mkfs_object [OF t(1,2), of x] unfolding t(3,4) by (auto simp: obj_dnode_def tagged_obj_def)
qed

lemma tagged_attrs:
  assumes "tagged_on img b fs os" and "j < length fs" and "fst (fs ! j) = FFile bs"
  shows "zpl_attrs x img os sample_registry sample_layouts (node_id j) =
      Some (zpl_attrs_default\<lparr>za_mode := za_mode (node_attrs (FFile bs)), za_size := of_nat (length bs)\<rparr>)"
proof -
  note t = tagged_node [OF assms(1,2)]
  obtain dn where dn: "mos_dnode x img os (node_id j) = Some dn" "dn_bonustype dn = DMU_OT_SA" "dn_endian dn = Little"
      "dn_bonus dn = tagged_bonus (za_mode (node_attrs (FFile bs))) (za_size (node_attrs (FFile bs))) (snd (fs ! j))"
    using tagged_dnode [OF assms(1,2), of x] assms(3) by auto
  have wf: "wf_node (length fs) (FFile bs)" "store_fits (snd (fs ! j))" using t(5) assms(3) by (simp_all add: wf_tagged_def)
  have sz: "za_size (node_attrs (FFile bs)) = of_nat (length bs)" by (simp add: node_attrs_def)
  show ?thesis using dn decode_tagged [OF wf(2)] by (simp add: zpl_attrs_def sz)
qed

lemma tagged_read_file:
  assumes "tagged_on img b fs os" and "j < length fs" and "fst (fs ! j) = FFile bs"
  shows "zpl_read_file x img os (node_id j) = Inr bs"
proof -
  note t = tagged_node [OF assms(1,2)]
  obtain dn where "mos_dnode x img os (node_id j) = Some dn" using tagged_dnode [OF assms(1,2), of x] by blast
  moreover have "wf_node (length fs) (FFile bs)" using t(5) assms(3) by (simp add: wf_tagged_def)
  moreover have "ro_data (tagged_obj (fs ! j)) = pad_sectors bs" using assms(3) by (simp add: tagged_obj_def)
  ultimately show ?thesis
    using tagged_attrs [OF assms, of x] mkfs_read [OF t(1,2), of x] node_size_small sys_context(2) [OF t(1), of x]
    unfolding t(3,4) by (simp add: zpl_read_file_def pad_sectors_def)
qed

lemma tagged_list_dir:
  assumes "tagged_on img b fs os" and "j < length fs" and "fst (fs ! j) = FDir es"
  shows "zpl_list_dir x img os (node_id j) = map (\<lambda>(n, t, c). (n, node_id c)) es"
proof -
  note t = tagged_node [OF assms(1,2)]
  have "wf_node (length fs) (FDir es)" "length fs < 65000" using t(5) assms(1,3) by (simp_all add: wf_tagged_def tagged_on_def)
  then have "map (\<lambda>(nm, v). (nm, v AND ZPL_DIRENT_OBJ_MASK)) (zap_list (zap_data (dir_entries_of es))) =
      map (\<lambda>(n, t, c). (n, node_id c)) es"
    by (intro dir_entries_masked) (simp_all add: wf_node_def)
  moreover have "ro_data (tagged_obj (fs ! j)) = zap_data (dir_entries_of es)" using assms(3) by (simp add: tagged_obj_def)
  ultimately show ?thesis using mkfs_list_dir [OF t(1,2), of x] unfolding t(3,4) by simp
qed

lemma node_id_nonzero: "j < 65000 \<Longrightarrow> node_id j \<noteq> 0"
proof -
  assume "j < 65000"
  then have "unat (node_id j) = 5 + j" unfolding node_id_def by (subst unat_of_nat) simp
  then show ?thesis by auto
qed

lemma xattr_dir_object_enc: "xattr_dir_object (to_le_bytes 8 w) = (if w = 0 then None else Some w)"
  by (simp add: xattr_dir_object_def slice_get_def le64.dec_enc)

lemma dxattr_pairs_nvlist:
  "wf_nvlist l \<Longrightarrow> length (nvlist_encode l) < 2 ^ 63 \<Longrightarrow> dxattr_pairs (nvlist_encode l) = byte_pairs l"
  using nvlist_parse_encode [of l "[]"] by (simp add: dxattr_pairs_def byte_pairs_def)

lemma hidden_values:
  assumes "tagged_on img b fs os" and "list_all (\<lambda>(n, t, c). c < length fs \<and> file_bytes (fst (fs ! c)) \<noteq> None) es"
  shows "List.map_filter (\<lambda>(name, obj). do {
      val \<leftarrow> res_ok (zpl_read_file x img os obj);
      Some \<lparr>xa_name = name, xa_value = val\<rparr> }) (map (\<lambda>(n, t, c). (n, node_id c)) es) =
    map (\<lambda>(n, t, c). \<lparr>xa_name = n, xa_value = the (file_bytes (fst (fs ! c)))\<rparr>) es"
  using assms(2)
proof (induction es)
  case (Cons e es)
  obtain n t c where e: "e = (n, t, c)" by (cases e) auto
  obtain bs where "fst (fs ! c) = FFile bs" "c < length fs"
    using Cons.prems by (auto simp: e file_bytes_def split: fs_node.splits)
  then show ?case
    using Cons tagged_read_file [OF assms(1), of c bs x] by (simp add: e List.map_filter_def file_bytes_def)
qed (simp add: List.map_filter_def)

lemma tagged_dir_xattrs:
  assumes "tagged_on img b fs os" and "j < length fs" and "snd (fs ! j) = XaDir d"
  shows "List.map_filter (\<lambda>(name, obj). do {
      val \<leftarrow> res_ok (zpl_read_file x img os obj);
      Some \<lparr>xa_name = name, xa_value = val\<rparr> }) (zpl_list_dir x img os (node_id d)) = node_xattrs fs (fs ! j)"
proof -
  have "wf_tagged fs (fs ! j)" using tagged_node(5) [OF assms(1,2)] .
  then obtain es where d: "d < length fs" "fst (fs ! d) = FDir es"
      and files: "list_all (\<lambda>(n, t, c). file_bytes (fst (fs ! c)) \<noteq> None) es"
    using assms(3) by (auto simp: wf_tagged_def split: fs_node.splits)
  have "wf_node (length fs) (FDir es)" using tagged_node(5) [OF assms(1) d(1)] d(2) by (simp add: wf_tagged_def)
  then have "list_all (\<lambda>(n, t, c). c < length fs \<and> file_bytes (fst (fs ! c)) \<noteq> None) es"
    using files by (auto simp: wf_node_def list_all_iff)
  from hidden_values [OF assms(1) this] show ?thesis
    by (simp add: tagged_list_dir [OF assms(1) d] node_xattrs_def assms(3) d(2))
qed

lemma tagged_list_xattrs:
  assumes "tagged_on img b fs os" and "j < length fs"
  shows "list_xattrs x img os (node_id j) = node_xattrs fs (fs ! j)"
proof -
  note t = tagged_node [OF assms]
  have fits: "store_fits (snd (fs ! j))" using t(5) by (simp add: wf_tagged_def)
  obtain dn where dn: "mos_dnode x img os (node_id j) = Some dn" and bonus: "dn_bonus dn =
      tagged_bonus (za_mode (node_attrs (fst (fs ! j)))) (za_size (node_attrs (fst (fs ! j)))) (snd (fs ! j))"
    using tagged_dnode [OF assms, of x] by blast
  note loc = tagged_located [OF fits, of "za_mode (node_attrs (fst (fs ! j)))" "za_size (node_attrs (fst (fs ! j)))", folded bonus]
  note ctx = sys_context(2) [OF t(1), of x]
  show ?thesis
  proof (cases "snd (fs ! j)")
    case XaNone
    then show ?thesis using dn loc ctx by (simp add: list_xattrs_def sa_xattrs_def dir_xattrs_def node_xattrs_def)
  next
    case (XaPacked l)
    then have "dxattr_pairs (nvlist_encode l) = byte_pairs l"
      using t(5) by (intro dxattr_pairs_nvlist) (simp_all add: wf_tagged_def store_fits_def)
    then show ?thesis using XaPacked dn loc ctx
      by (simp add: list_xattrs_def sa_xattrs_def dir_xattrs_def node_xattrs_def Let_def)
  next
    case (XaDir d)
    then have "d < 65000" using t(5) assms(1) by (simp add: wf_tagged_def tagged_on_def)
    then show ?thesis using XaDir dn loc ctx tagged_dir_xattrs [OF assms XaDir, of x]
      by (simp add: list_xattrs_def sa_xattrs_def dir_xattrs_def xattr_dir_object_enc node_id_nonzero)
  qed
qed

subsection \<open>Properties\<close>

text \<open>
  C4. End to end, the extended attributes listed are the ones stored: on an image formatted from
  nodes with a packed attribute list, a hidden attribute directory or neither, listing a node reads
  the attribute tables, locates the attribute behind the fixed ones and returns, in order, the
  byte-array pairs of the packed list, or the name and the bytes of every file of the hidden
  directory, or nothing.
\<close>

theorem formatted_xattrs_listed:
  assumes "tagged_on img b fs os" and "j < length fs"
  shows "list_xattrs x img os (node_id j) = node_xattrs fs (fs ! j)"
  by (rule tagged_list_xattrs [OF assms])

definition tagged_fs :: "(fs_node \<times> xa_store) list" where
  "tagged_fs = [(FDir [(lit ''a'', 8, 1), (lit ''b'', 8, 4)], XaNone), (FFile [104, 105], XaPacked sample_xattrs),
     (FDir [(lit ''user.c'', 8, 3)], XaNone), (FFile [7, 8], XaNone), (FFile [], XaDir 2)]"

definition tagged_image :: bytes where
  "tagged_image = replicate 0x400000 0 @ [] @ region 0 (sys_objs @ map tagged_obj tagged_fs) @ []"

definition tagged_objset :: objset where
  "tagged_objset =
     (case objset_parse (objset_bytes 0 DMU_OST_ZFS (sys_objs @ map tagged_obj tagged_fs)) Little of Inr os \<Rightarrow> os)"

lemma sample_xattrs_facts: "wf_nvlist sample_xattrs" "length (nvlist_encode sample_xattrs) \<le> 296"
  by (simp_all add: sample_xattrs_def wf_nvlist_def nvlist_encode_def length_pair_bytes length_xdr_pad lit_def valid_utf8_ascii
    xdr_string_def)

lemma tagged_names: "wf_zap_name (lit ''a'')" "wf_zap_name (lit ''b'')" "wf_zap_name (lit ''user.c'')"
  by (simp_all add: wf_zap_name_def lit_def valid_utf8_ascii)

lemma tagged_obj_wf: "wf_node n (fst p) \<Longrightarrow> store_fits (snd p) \<Longrightarrow> wf_obj (tagged_obj p)"
proof -
  assume a: "wf_node n (fst p)" "store_fits (snd p)"
  then have "length (tagged_bonus mode sz (snd p)) \<le> 320" for mode sz
    by (cases "snd p") (simp_all add: store_fits_def tagged_bonus_def tagged_vals_def tagged_head_def)
  moreover have "wf_obj (node_obj (fst p))" using a(1) by (simp add: wf_node_def)
  ultimately show ?thesis by (simp add: tagged_obj_def wf_obj_def ro_sectors_def)
qed

lemma wf_tagged_fs: "list_all (wf_tagged tagged_fs) tagged_fs"
proof -
  have sectors: "ro_sectors (node_obj (FDir [(lit ''a'', 8, 1), (lit ''b'', 8, 4)])) = 1"
    "ro_sectors (node_obj (FDir [(lit ''user.c'', 8, 3)])) = 1" "ro_sectors (node_obj (FFile [104, 105])) = 1"
    "ro_sectors (node_obj (FFile [7, 8])) = 1" "ro_sectors (node_obj (FFile [])) = 1"
    using tagged_names by (simp_all add: ro_sectors_def length_zap_data length_pad_sectors dir_entries_of_def)
  have nodes: "wf_node 5 (FDir [(lit ''a'', 8, 1), (lit ''b'', 8, 4)])" "wf_node 5 (FDir [(lit ''user.c'', 8, 3)])"
    "wf_node 5 (FFile [104, 105])" "wf_node 5 (FFile [7, 8])" "wf_node 5 (FFile [])"
    unfolding wf_node_def wf_obj_def sectors
    using tagged_names by (simp_all add: length_zap_data length_pad_sectors dir_entries_of_def lit_def)
  have "length tagged_fs = 5" by (simp add: tagged_fs_def)
  then show ?thesis
    using nodes sample_xattrs_facts unfolding wf_tagged_def
    by (simp only:) (simp add: tagged_fs_def store_fits_def file_bytes_def)
qed

lemma tagged_fs_on: "tagged_on tagged_image 0 tagged_fs tagged_objset"
proof -
  let ?obs = "sys_objs @ map tagged_obj tagged_fs"
  have "list_all wf_obj (map tagged_obj tagged_fs)"
    using wf_tagged_fs tagged_obj_wf by (fastforce simp: list_all_iff wf_tagged_def)
  then have all: "list_all wf_obj ?obs" using wf_sys_objs(1) by simp
  have "ro_sectors (tagged_obj p) \<le> 65535" if "p \<in> set tagged_fs" for p
    using all that by (auto simp: list_all_iff wf_obj_def)
  then have "sum_list (map (ro_sectors \<circ> tagged_obj) tagged_fs) \<le> 65535 * length tagged_fs"
    using sum_list_mono [of tagged_fs "ro_sectors \<circ> tagged_obj" "\<lambda>_. 65535"] by (simp add: sum_list_triv mult.commute comp_def)
  moreover have len: "length tagged_fs = 5" by (simp add: tagged_fs_def)
  ultimately have wf: "wf_objs 0 ?obs" using all wf_sys_objs(2) by (simp add: wf_objs_def region_sectors_def)
  have "sector_at tagged_image 0 (region 0 ?obs)" unfolding tagged_image_def by (rule sector_at_image) simp_all
  from objset_parse_bytes [OF wf this, of DMU_OST_ZFS] show ?thesis
    using wf_tagged_fs len by (auto simp: tagged_on_def tagged_objset_def)
qed

lemma formatted_xattrs_listed_witness:
  "list_xattrs no_codecs tagged_image tagged_objset (node_id 1) =
     [\<lparr>xa_name = lit ''user.a'', xa_value = [1, 2, 3]\<rparr>, \<lparr>xa_name = lit ''user.b'', xa_value = []\<rparr>] \<and>
   list_xattrs no_codecs tagged_image tagged_objset (node_id 4) = [\<lparr>xa_name = lit ''user.c'', xa_value = [7, 8]\<rparr>] \<and>
   list_xattrs no_codecs tagged_image tagged_objset (node_id 3) = []"
  using formatted_xattrs_listed [OF tagged_fs_on, of 1 no_codecs] formatted_xattrs_listed [OF tagged_fs_on, of 4 no_codecs]
    formatted_xattrs_listed [OF tagged_fs_on, of 3 no_codecs]
  by (simp add: tagged_fs_def node_xattrs_def byte_pairs_def sample_xattrs_def List.map_filter_def file_bytes_def)

end
