(* ===== verification/Zfs_Tree.thy ===== *)
theory Zfs_Tree
  imports Zfs_Extents
begin

section \<open>Files behind indirect blocks\<close>

text \<open>
  A reference writer for trees of indirect blocks, holes included, and the proof that the image it
  describes is one the read path and the extents refine (\<open>object_tree\<close>, \<open>leaf_ptrs\<close>). With it a sparse
  file behind two levels, whose dnode lies behind an indirect block itself, as the example of the
  properties of the indirect walk.
\<close>

subsection \<open>Writing a tree\<close>

text \<open>
  A tree of blocks as it is written: data, a hole of so many sectors, or the children of an indirect
  block. The subtrees of an indirect block lie one after the other, the table of their pointers
  behind them.
\<close>

datatype ftree = FLeaf bytes | FHole nat | FNode "ftree list"

definition hole_ptr :: "nat \<Rightarrow> blkptr" where
  "hole_ptr n = (sector_ptr 0 n)\<lparr>bp_dvas := [dva_default, dva_default, dva_default]\<rparr>"

fun ft_sectors :: "ftree \<Rightarrow> nat" where
  "ft_sectors (FLeaf d) = length d div 512"
| "ft_sectors (FHole n) = 0"
| "ft_sectors (FNode ts) = sum_list (map ft_sectors ts) + length ts div 4"

fun ft_ptr :: "nat \<Rightarrow> ftree \<Rightarrow> blkptr" where
  "ft_ptr k (FLeaf d) = sector_ptr k (length d div 512)"
| "ft_ptr k (FHole n) = hole_ptr n"
| "ft_ptr k (FNode ts) = sector_ptr (k + sum_list (map ft_sectors ts)) (length ts div 4)"

fun ft_starts :: "nat \<Rightarrow> ftree list \<Rightarrow> nat list" where
  "ft_starts k [] = []"
| "ft_starts k (t # ts) = k # ft_starts (k + ft_sectors t) ts"

definition ft_ptrs :: "nat \<Rightarrow> ftree list \<Rightarrow> blkptr list" where
  "ft_ptrs k ts = map2 ft_ptr (ft_starts k ts) ts"

definition ft_table :: "nat \<Rightarrow> ftree list \<Rightarrow> bytes" where
  "ft_table k ts = concat (map (blkptr_encode Little [0, 0, 0]) (ft_ptrs k ts))"

fun ft_data :: "nat \<Rightarrow> ftree \<Rightarrow> bytes" and ft_kids :: "nat \<Rightarrow> ftree list \<Rightarrow> bytes" where
  "ft_data k (FLeaf d) = d"
| "ft_data k (FHole n) = []"
| "ft_data k (FNode ts) = ft_kids k ts @ ft_table k ts"
| "ft_kids k [] = []"
| "ft_kids k (t # ts) = ft_data k t @ ft_kids (k + ft_sectors t) ts"

text \<open>A tree of \<open>l\<close> levels of indirect blocks with \<open>2 ^ fb\<close> pointers each, none of them all holes.\<close>

fun is_fhole :: "ftree \<Rightarrow> bool" where
  "is_fhole (FHole n) = True" | "is_fhole _ = False"

fun wf_ft :: "nat \<Rightarrow> nat \<Rightarrow> ftree \<Rightarrow> bool" where
  "wf_ft fb l (FLeaf d) = (l = 0 \<and> length d mod 512 = 0 \<and> 0 < length d div 512 \<and> length d div 512 \<le> 65535)"
| "wf_ft fb l (FHole n) = (0 < n \<and> n \<le> 65535)"
| "wf_ft fb l (FNode ts) = (l \<noteq> 0 \<and> length ts = 2 ^ fb \<and> list_all (wf_ft fb (l - 1)) ts \<and> \<not> list_all is_fhole ts)"

text \<open>The blocks of a tree, and the pointers to them.\<close>

fun ft_blocks :: "nat \<Rightarrow> nat \<Rightarrow> ftree \<Rightarrow> bytes list" where
  "ft_blocks fb l (FLeaf d) = [d]"
| "ft_blocks fb l (FHole n) = replicate (2 ^ (fb * l)) (replicate (512 * n) 0)"
| "ft_blocks fb l (FNode ts) = concat (map (ft_blocks fb (l - 1)) ts)"

fun ft_leaves :: "nat \<Rightarrow> nat \<Rightarrow> nat \<Rightarrow> ftree \<Rightarrow> blkptr list" and
    ft_kid_leaves :: "nat \<Rightarrow> nat \<Rightarrow> nat \<Rightarrow> ftree list \<Rightarrow> blkptr list list" where
  "ft_leaves fb l k (FLeaf d) = [ft_ptr k (FLeaf d)]"
| "ft_leaves fb l k (FHole n) = replicate (2 ^ (fb * l)) (hole_ptr n)"
| "ft_leaves fb l k (FNode ts) = concat (ft_kid_leaves fb (l - 1) k ts)"
| "ft_kid_leaves fb l k [] = []"
| "ft_kid_leaves fb l k (t # ts) = ft_leaves fb l k t # ft_kid_leaves fb l (k + ft_sectors t) ts"

lemma length_ft_starts [simp]: "length (ft_starts k ts) = length ts"
  by (induction ts arbitrary: k) simp_all

lemma ft_ptrs_simps [simp]:
  "ft_ptrs k [] = []" "ft_ptrs k (t # ts) = ft_ptr k t # ft_ptrs (k + ft_sectors t) ts" "length (ft_ptrs k ts) = length ts"
  by (simp_all add: ft_ptrs_def)

lemma length_ft_kid_leaves [simp]: "length (ft_kid_leaves fb l k ts) = length ts"
  by (induction ts arbitrary: k) simp_all

lemma ft_start_le: "i < length ts \<Longrightarrow> ft_starts k ts ! i + ft_sectors (ts ! i) \<le> k + sum_list (map ft_sectors ts)"
proof (induction ts arbitrary: k i)
  case (Cons t ts)
  then show ?case using Cons.IH [of "i - 1" "k + ft_sectors t"] by (cases i) (simp_all add: add.assoc)
qed simp

lemma nth_ft_ptrs: "i < length ts \<Longrightarrow> ft_ptrs k ts ! i = ft_ptr (ft_starts k ts ! i) (ts ! i)"
  by (simp add: ft_ptrs_def)

lemma nth_ft_kid_leaves: "i < length ts \<Longrightarrow> ft_kid_leaves fb l k ts ! i = ft_leaves fb l (ft_starts k ts ! i) (ts ! i)"
proof (induction ts arbitrary: k i)
  case (Cons t ts)
  then show ?case by (cases i) simp_all
qed simp

lemma hole_ptr_facts:
  assumes "0 < n" "n \<le> 65535"
  shows "is_hole (hole_ptr n)" "lsize_bytes (hole_ptr n) = 512 * n" "wf_blkptr (hole_ptr n)"
proof -
  have "lsize_bytes (hole_ptr n) = lsize_bytes (sector_ptr 0 n)"
    by (simp add: lsize_bytes_def hole_ptr_def sector_ptr_def)
  then show "lsize_bytes (hole_ptr n) = 512 * n" using sector_ptr_sizes [OF assms] by simp
  show "is_hole (hole_ptr n)"
    by (simp add: hole_ptr_def is_hole_def sector_ptr_def blkptr_default_def dva_is_empty_def dva_default_def)
  show "wf_blkptr (hole_ptr n)"
    using wf_sector_ptr [of n 0] assms by (simp add: hole_ptr_def wf_blkptr_def sector_ptr_def wf_dva_def dva_default_def)
qed

text \<open>Indirect blocks are whole sectors, of at least four pointers.\<close>

definition fan_ok :: "nat \<Rightarrow> bool" where
  "fan_ok fb \<longleftrightarrow> 2 \<le> fb \<and> fb \<le> 17"

lemma fan_sectors:
  assumes "fan_ok fb"
  shows "128 * 2 ^ fb = 512 * ((2::nat) ^ fb div 4)" "0 < (2::nat) ^ fb div 4" "(2::nat) ^ fb div 4 \<le> 65535"
proof -
  obtain m where m: "fb = m + 2" using assms by (metis fan_ok_def add.commute le_Suc_ex)
  then have "(2::nat) ^ fb div 4 = 2 ^ m" by simp
  moreover have "(2::nat) ^ m \<le> 2 ^ 15" using assms m by (intro power_increasing) (simp_all add: fan_ok_def)
  ultimately show "128 * 2 ^ fb = 512 * ((2::nat) ^ fb div 4)" "0 < (2::nat) ^ fb div 4" "(2::nat) ^ fb div 4 \<le> 65535"
    using m by simp_all
qed

lemma wf_ft_ptr:
  assumes "fan_ok fb" and "wf_ft fb l t" and "k + ft_sectors t < 2 ^ 40"
  shows "wf_blkptr (ft_ptr k t)"
proof (cases t)
  case (FLeaf d)
  then show ?thesis using assms(2,3) by (simp add: wf_sector_ptr)
next
  case (FHole n)
  then show ?thesis using assms(2) hole_ptr_facts [of n] by simp
next
  case (FNode ts)
  then show ?thesis using assms fan_sectors [OF assms(1)] by (simp add: wf_sector_ptr)
qed

lemma ft_kids_size: "(\<And>t k. t \<in> set ts \<Longrightarrow> length (ft_data k t) = 512 * ft_sectors t) \<Longrightarrow>
    length (ft_kids k ts) = 512 * sum_list (map ft_sectors ts)"
  by (induction ts arbitrary: k) (simp_all add: algebra_simps)

lemma ft_table_128:
  assumes "fan_ok fb" and "list_all (wf_ft fb l) ts" and "k + sum_list (map ft_sectors ts) < 2 ^ 40"
  shows "list_all (\<lambda>bs. length bs = 128) (map (blkptr_encode Little [0, 0, 0]) (ft_ptrs k ts))"
proof -
  have "length (blkptr_encode Little [0, 0, 0] (ft_ptrs k ts ! i)) = 128" if "i < length ts" for i
  proof -
    have "ft_starts k ts ! i + ft_sectors (ts ! i) < 2 ^ 40" using ft_start_le [OF that, of k] assms(3) by linarith
    then have "wf_blkptr (ft_ptrs k ts ! i)"
      unfolding nth_ft_ptrs [OF that] using assms(2) that by (intro wf_ft_ptr [OF assms(1), of l]) (simp_all add: list_all_length)
    then show ?thesis by (simp add: length_blkptr_encode)
  qed
  then show ?thesis by (simp add: list_all_length)
qed

lemma length_ft_data:
  assumes "fan_ok fb"
  shows "wf_ft fb l t \<Longrightarrow> k + ft_sectors t < 2 ^ 40 \<Longrightarrow> length (ft_data k t) = 512 * ft_sectors t"
    and "list_all (wf_ft fb l) ts \<Longrightarrow> k + sum_list (map ft_sectors ts) < 2 ^ 40 \<Longrightarrow>
      length (ft_kids k ts) = 512 * sum_list (map ft_sectors ts)"
proof (induction k t and k ts arbitrary: l and l rule: ft_data_ft_kids.induct)
  case (3 k ts)
  have "length (ft_table k ts) = 2 ^ fb * 128"
    using length_concat_const [OF ft_table_128 [OF assms, of "l - 1" ts k]] 3 by (simp add: ft_table_def)
  moreover have "length (ft_kids k ts) = 512 * sum_list (map ft_sectors ts)"
    using 3 by (intro "3.IH" [of "l - 1"]) simp_all
  ultimately show ?case using 3 fan_sectors [OF assms] by simp
qed (auto simp: algebra_simps)

lemma ft_child:
  assumes "fan_ok fb" and "list_all (wf_ft fb l) ts" and "k + sum_list (map ft_sectors ts) < 2 ^ 40" and "i < length ts"
  shows "blkptr_parse (take 128 (drop (128 * i) (ft_table k ts))) Little = ft_ptr (ft_starts k ts ! i) (ts ! i)"
proof -
  let ?p = "ft_ptr (ft_starts k ts ! i) (ts ! i)"
  have "ft_starts k ts ! i + ft_sectors (ts ! i) < 2 ^ 40" using ft_start_le [OF assms(4), of k] assms(3) by linarith
  then have wf: "wf_blkptr ?p"
    using assms(2,4) by (intro wf_ft_ptr [OF assms(1), of l]) (simp_all add: list_all_length)
  have "take 128 (drop (128 * i) (ft_table k ts)) = take 128 (blkptr_encode Little [0, 0, 0] ?p)"
    using drop_concat_const [OF ft_table_128 [OF assms(1-3)], of i 0 128] assms(4)
    by (simp add: ft_table_def nth_ft_ptrs mult.commute)
  then show ?thesis
    using blkptr_parse_encode [OF wf, of "[0, 0, 0]" Little "[]"] length_blkptr_encode [OF wf, of "[0, 0, 0]" Little] by simp
qed

lemma ft_kid_at:
  assumes "fan_ok fb" and "list_all (wf_ft fb l) ts" and "k + sum_list (map ft_sectors ts) < 2 ^ 40"
    and "sector_at img k (ft_kids k ts)" and "i < length ts"
  shows "sector_at img (ft_starts k ts ! i) (ft_data (ft_starts k ts ! i) (ts ! i))"
  using assms(2-5)
proof (induction ts arbitrary: k i)
  case (Cons t ts)
  have "length (ft_data k t) = 512 * ft_sectors t" using length_ft_data(1) [OF assms(1), of l t k] Cons.prems(1,2) by simp
  from sector_at_append [OF this, of img k] Cons.prems(3)
  have "sector_at img k (ft_data k t)" "sector_at img (k + ft_sectors t) (ft_kids (k + ft_sectors t) ts)" by simp_all
  then show ?case using Cons by (cases i) (simp_all add: add.assoc)
qed simp

lemma ft_ptr_byteorder: "bp_byteorder (ft_ptr k t) = Little"
  by (cases t) (simp_all add: sector_ptr_def hole_ptr_def)

lemma ft_ptr_hole:
  "fan_ok fb \<Longrightarrow> wf_ft fb l t \<Longrightarrow> is_hole (ft_ptr k t) = is_fhole t"
  using sector_ptr_not_hole hole_ptr_facts(1) fan_sectors [of fb] by (cases t) simp_all

subsection \<open>What the writer describes is a tree of blocks\<close>

text \<open>What the writer puts on the image is a tree of pointers to the blocks.\<close>

lemma ft_ptr_tree:
  assumes "fan_ok fb" and "fan_bits dn = fb" and "dn_endian dn = Little"
  shows "wf_ft fb l t \<Longrightarrow> sector_at img k (ft_data k t) \<Longrightarrow> k + ft_sectors t < 2 ^ 40 \<Longrightarrow>
    ptr_tree x img dn l (ft_ptr k t) (ft_leaves fb l k t)"
proof (induction l arbitrary: k t)
  case 0
  then show ?case by (cases t) (simp_all add: ptr_tree.leaf)
next
  case (Suc l)
  show ?case
  proof (cases t)
    case (FHole n)
    then show ?thesis using Suc.prems(1) hole_ptr_facts(1) ptr_tree.hole [of "hole_ptr n" x img dn l] assms(2) by simp
  next
    case (FNode ts)
    let ?s = "sum_list (map ft_sectors ts)" and ?n = "(2::nat) ^ fb div 4"
    let ?b = "\<lparr>blk_data = ft_table k ts, blk_checksum_valid = None, blk_dva_used = 0\<rparr>"
    have ts: "length ts = 2 ^ fb" "list_all (wf_ft fb l) ts" "\<not> list_all is_fhole ts" and k: "k + ?s + ?n < 2 ^ 40"
      using Suc.prems(1,3) by (simp_all add: FNode)
    note enc = ft_table_128 [OF assms(1) ts(2), of k]
    have len: "length (ft_kids k ts) = 512 * ?s" using length_ft_data(2) [OF assms(1) ts(2), of k] k by simp
    have kids: "sector_at img k (ft_kids k ts)" and table: "sector_at img (k + ?s) (ft_table k ts)"
      using Suc.prems(2) by (simp_all add: FNode sector_at_append [OF len])
    have tlen: "length (ft_table k ts) = 128 * 2 ^ fb"
      using length_concat_const [OF enc] k ts(1) by (simp add: ft_table_def)
    have read: "read_block x img (sector_ptr (k + ?s) ?n) = Inr ?b"
      using k tlen fan_sectors [OF assms(1)] by (intro read_sector_ptr [OF _ _ _ table]) simp_all
    have child: "blkptr_parse (take 128 (drop (128 * i) (ft_table k ts))) Little = ft_ptr (ft_starts k ts ! i) (ts ! i)"
      if "i < 2 ^ fb" for i using ft_child [OF assms(1) ts(2), of k i] k ts(1) that by simp
    have sub: "ptr_tree x img dn l (ft_ptr (ft_starts k ts ! i) (ts ! i)) (ft_kid_leaves fb l k ts ! i)" if "i < 2 ^ fb" for i
      using that ts k ft_start_le [of i ts k] ft_kid_at [OF assms(1) ts(2) _ kids, of i]
      by (subst nth_ft_kid_leaves) (auto simp: list_all_length intro!: Suc.IH)
    obtain i where i: "i < 2 ^ fb" "\<not> is_fhole (ts ! i)" using ts(1,3) by (auto simp: list_all_length)
    then have some: "\<exists>i<2 ^ fb. \<not> is_hole (blkptr_parse (take 128 (drop (128 * i) (ft_table k ts))) (dn_endian dn))"
      using ts(1,2) ft_ptr_hole [OF assms(1), of l "ts ! i"] child assms(3)
      by (intro exI [of _ i]) (simp add: list_all_length)
    have nh: "\<not> is_hole (sector_ptr (k + ?s) ?n)" using sector_ptr_not_hole fan_sectors [OF assms(1)] by simp
    have bo: "bp_byteorder (sector_ptr (k + ?s) ?n) = dn_endian dn" using assms(3) by (simp add: sector_ptr_def)
    have "ptr_tree x img dn (Suc l) (sector_ptr (k + ?s) ?n) (concat (ft_kid_leaves fb l k ts))"
      by (rule ptr_tree.node [OF nh read _ bo]) (use ts(1) tlen child sub some assms(2,3) in \<open>simp_all only: block.simps length_ft_kid_leaves\<close>)
    then show ?thesis using ts(1) by (simp add: FNode)
  qed (use Suc.prems in simp)
qed

lemma ft_leaf_blocks:
  shows "fan_ok fb \<Longrightarrow> wf_ft fb l t \<Longrightarrow> sector_at img k (ft_data k t) \<Longrightarrow> k + ft_sectors t < 2 ^ 40 \<Longrightarrow>
      list_all (readable x img) (ft_leaves fb l k t) \<and> map (leaf_bytes x img) (ft_leaves fb l k t) = ft_blocks fb l t"
    and "fan_ok fb \<Longrightarrow> list_all (wf_ft fb l) ts \<Longrightarrow> sector_at img k (ft_kids k ts) \<Longrightarrow> k + sum_list (map ft_sectors ts) < 2 ^ 40 \<Longrightarrow>
      list_all (list_all (readable x img)) (ft_kid_leaves fb l k ts) \<and>
      map (map (leaf_bytes x img)) (ft_kid_leaves fb l k ts) = map (ft_blocks fb l) ts"
proof (induction fb l k t and fb l k ts rule: ft_leaves_ft_kid_leaves.induct)
  case (1 fb l k d)
  let ?n = "length d div 512"
  have n: "length d = 512 * ?n" "0 < ?n" "?n \<le> 65535" and k: "k < 2 ^ 40" using 1 by (auto simp: mod_eq_0_iff_dvd)
  have "sector_at img k d" using 1 by simp
  from read_sector_ptr [OF n(2,3) k this n(1), of x] show ?case by (simp add: readable_def leaf_bytes_def)
next
  case (2 fb l k n)
  then have n: "0 < n" "n \<le> 65535" by simp_all
  then have "read_block x img (hole_ptr n) = Inr \<lparr>blk_data = replicate (512 * n) 0, blk_checksum_valid = None, blk_dva_used = 0\<rparr>"
    using read_block_hole [of "hole_ptr n" x img] hole_ptr_facts [OF n] by (simp add: MAX_BLOCK_SIZE_def)
  then show ?case by (simp add: readable_def leaf_bytes_def list_all_iff)
next
  case (3 fb l k ts)
  then have ts: "list_all (wf_ft fb (l - 1)) ts" "k + sum_list (map ft_sectors ts) < 2 ^ 40" by simp_all
  have "sector_at img k (ft_kids k ts)"
    using 3 sector_at_append [OF length_ft_data(2) [OF 3(2) ts], of img k] by simp
  from "3.IH" [OF 3(2) ts(1) this ts(2)] show ?case by (simp add: map_concat list_all_iff)
next
  case (5 fb l k t ts)
  have "length (ft_data k t) = 512 * ft_sectors t" using 5 length_ft_data(1) [OF \<open>fan_ok fb\<close>, of l t k] by simp
  from sector_at_append [OF this, of img k] show ?case using 5 by (simp add: add.assoc)
qed simp

subsection \<open>An object behind trees\<close>

text \<open>
  The trees under the pointers of a dnode lie one after the other from sector \<open>b\<close>; no pointer of a
  dnode with indirect blocks is a hole.
\<close>

definition tree_object :: "bytes \<Rightarrow> nat \<Rightarrow> nat \<Rightarrow> nat \<Rightarrow> ftree list \<Rightarrow> dnode \<Rightarrow> bool" where
  "tree_object img b fb l ts dn \<longleftrightarrow> fan_ok fb \<and> fan_bits dn = fb \<and> l * fb < 64 \<and> l < 8 \<and>
     dn_endian dn = Little \<and> unat (dn_nlevels dn) = Suc l \<and> dn_blkptrs dn = ft_ptrs b ts \<and>
     list_all (wf_ft fb l) ts \<and> (l = 0 \<or> list_all (\<lambda>t. \<not> is_fhole t) ts) \<and>
     sector_at img b (ft_kids b ts) \<and> b + sum_list (map ft_sectors ts) < 2 ^ 40"

lemma tree_object_levels:
  assumes "tree_object img b fb l ts dn"
  shows "dn_nlevels dn \<noteq> 0" "tree_levels dn = Suc l" "\<not> shift_overflows dn"
proof -
  have n: "unat (dn_nlevels dn) = Suc l" and small: "l * fb < 64" "l < 8" and fb: "fan_bits dn = fb"
    using assms by (simp_all add: tree_object_def)
  then show nz: "dn_nlevels dn \<noteq> 0" by auto
  have "dn_nlevels dn \<le> MAX_INDIRECT_LEVELS" using n small(2) by (simp add: word_le_nat_alt MAX_INDIRECT_LEVELS_def)
  then show lv: "tree_levels dn = Suc l" using n by (simp add: tree_levels_def min_absorb1)
  show "\<not> shift_overflows dn" using small fb lv by (simp add: shift_overflows_def level_shift_eq)
qed

lemma tree_object_leaf_ptrs:
  assumes "tree_object img b fb l ts dn"
  shows "leaf_ptrs x img dn (ft_kid_leaves fb l b ts)"
proof -
  have t: "fan_ok fb" "fan_bits dn = fb" "dn_endian dn = Little" "dn_blkptrs dn = ft_ptrs b ts" "list_all (wf_ft fb l) ts"
    "sector_at img b (ft_kids b ts)" "b + sum_list (map ft_sectors ts) < 2 ^ 40"
    using assms by (simp_all add: tree_object_def)
  have "ptr_tree x img dn l (ft_ptrs b ts ! i) (ft_kid_leaves fb l b ts ! i)" if "i < length ts" for i
    using t(5,7) that ft_start_le [of i ts b] ft_kid_at [OF t(1,5,7,6) that]
    unfolding nth_ft_ptrs [OF that] nth_ft_kid_leaves [OF that]
    by (intro ft_ptr_tree [OF t(1-3)]) (auto simp: list_all_length)
  then show ?thesis
    using tree_object_levels [OF assms] t(4) by (simp add: leaf_ptrs_def list_all2_conv_all_nth)
qed

lemma tree_object_blocks:
  assumes "tree_object img b fb l ts dn"
  shows "object_tree x img dn (map (ft_blocks fb l) ts)"
proof -
  have t: "fan_ok fb" "dn_blkptrs dn = ft_ptrs b ts" "list_all (wf_ft fb l) ts"
    "sector_at img b (ft_kids b ts)" "b + sum_list (map ft_sectors ts) < 2 ^ 40"
    "l = 0 \<or> list_all (\<lambda>t. \<not> is_fhole t) ts"
    using assms by (simp_all add: tree_object_def)
  note lv = tree_object_levels [OF assms]
  note lb = ft_leaf_blocks(2) [OF t(1,3,4,5), of x]
  have "block_tree x img dn l (ft_ptrs b ts ! i) (map (ft_blocks fb l) ts ! i)" if "i < length ts" for i
  proof -
    have "ptr_tree x img dn l (ft_ptrs b ts ! i) (ft_kid_leaves fb l b ts ! i)"
      using tree_object_leaf_ptrs [OF assms, of x] lv(2) t(2) that by (simp add: leaf_ptrs_def list_all2_conv_all_nth)
    moreover have "list_all (readable x img) (ft_kid_leaves fb l b ts ! i)" using lb that by (simp add: list_all_length)
    moreover have "map (leaf_bytes x img) (ft_kid_leaves fb l b ts ! i) = map (ft_blocks fb l) ts ! i"
      using arg_cong [OF conjunct2 [OF lb], of "\<lambda>xs. xs ! i"] that by simp
    ultimately show ?thesis using ptr_tree_block_tree by metis
  qed
  moreover have "l = 0 \<or> list_all (\<lambda>bp. \<not> is_hole bp) (ft_ptrs b ts)"
    using t(3,6) ft_ptr_hole [OF t(1)] by (auto simp: list_all_length nth_ft_ptrs)
  ultimately show ?thesis
    using lv t(2) by (simp add: object_tree_def list_all2_conv_all_nth)
qed

text \<open>The whole content of a file of \<open>n\<close> blocks, holes included, cut to its size.\<close>

lemma tree_object_content:
  assumes "mos_dnode x img zpl k = Some dn" and "tree_object img b fb l ts dn"
    and "unat (dn_maxblkid dn) + 1 \<le> length (concat (map (ft_blocks fb l) ts))"
    and "0 < data_block_size dn" and "(unat (dn_maxblkid dn) + 1) * data_block_size dn \<le> MAX_FILE_BYTES"
  shows "zpl_read_file_with x img zpl k (Some sz) =
    Inr (take (unat sz) (concat (take (unat (dn_maxblkid dn) + 1) (concat (map (ft_blocks fb l) ts)))))"
proof -
  have "unat (dn_maxblkid dn) + 1 \<le> MAX_FILE_BYTES div data_block_size dn"
    using assms(4,5) by (simp only: less_eq_div_iff_mult_less_eq)
  moreover have blocks: "concat_blocks (read_dnode_data x img dn) [0..<file_nblocks dn] [] = Inr (concat (take
      (min (unat (dn_maxblkid dn) + 1) (max (MAX_FILE_BYTES div data_block_size dn) 1)) (concat (map (ft_blocks fb l) ts))))"
    by (rule file_blocks_take [OF tree_object_blocks [OF assms(2)] assms(3)])
  ultimately show ?thesis using assms(1,4) by (simp add: zpl_read_file_with_def min_def)
qed

subsection \<open>Properties\<close>

text \<open>
  C13. A file behind indirect blocks reads back. It is laid out as trees of data blocks and holes with
  up to seven levels of indirect blocks, pointer tables of any fan-out from 4 to 131072 whose block
  index fits 64 bits, and no hole directly under the dnode when there are indirect blocks (such a
  hole is walked as if it were an indirect block). Up to 512 MiB by its declared block size, its
  content is the blocks in order, where a hole gives, for each block it stands for, zeros of its
  pointer's own size, all cut to the logical size.
\<close>

theorem tree_object_reads_back:
  assumes "mos_dnode x img zpl k = Some dn" and "tree_object img b fb l ts dn"
    and "unat (dn_maxblkid dn) + 1 \<le> length (concat (map (ft_blocks fb l) ts))"
    and "0 < data_block_size dn" and "(unat (dn_maxblkid dn) + 1) * data_block_size dn \<le> MAX_FILE_BYTES"
  shows "zpl_read_file_with x img zpl k (Some sz) =
    Inr (take (unat sz) (concat (take (unat (dn_maxblkid dn) + 1) (concat (map (ft_blocks fb l) ts)))))"
  by (rule tree_object_content [OF assms])

text \<open>
  A sparse file of nine blocks behind two levels of indirect blocks, and the object array that holds
  its dnode, itself behind an indirect block.
\<close>

definition sparse_tree :: ftree where
  "sparse_tree = FNode [FNode [FLeaf (replicate 512 1), FHole 1, FLeaf (replicate 512 2), FHole 1], FHole 1,
     FNode [FLeaf (replicate 512 3), FHole 1, FHole 1, FHole 1], FHole 1]"

definition sparse_dnode :: dnode where
  "sparse_dnode = \<lparr>dn_type = 19, dn_indblkshift = 9, dn_nlevels = 3, dn_nblkptr = 1, dn_bonustype = 0, dn_checksum = 0,
     dn_compress = 0, dn_flags = 0, dn_datablkszsec = 1, dn_bonuslen = 0, dn_extra_slots = 0, dn_maxblkid = 8, dn_used = 0,
     dn_endian = Little, dn_blkptrs = ft_ptrs 3 [sparse_tree], dn_bonus = []\<rparr>"

definition sparse_array :: ftree where
  "sparse_array = FNode [FLeaf (replicate 512 0), FLeaf (dnode_encode [[0, 0, 0]] sparse_dnode (replicate 320 0)), FHole 1, FHole 1]"

definition sparse_image :: bytes where
  "sparse_image = replicate 0x400000 0 @ [] @ ft_kids 0 [sparse_array] @ ft_kids 3 [sparse_tree]"

definition sparse_objset :: objset where
  "sparse_objset = \<lparr>meta_dnode = sparse_dnode\<lparr>dn_type := 10, dn_nlevels := 2, dn_maxblkid := 1, dn_blkptrs := ft_ptrs 0 [sparse_array]\<rparr>,
     os_type = 2, os_flags = 0, os_endian = Little\<rparr>"

lemma sparse_sizes: "ft_sectors sparse_tree = 6" "wf_ft 2 2 sparse_tree"
  by (simp_all add: sparse_tree_def)

lemma wf_sparse_dnode: "wf_dnode sparse_dnode" "wf_pads [[0, 0, 0]] sparse_dnode"
  using wf_ft_ptr [of 2 2 sparse_tree 3] sparse_sizes
  by (simp_all add: wf_dnode_def wf_pads_def sparse_dnode_def fan_ok_def)

lemma sparse_array_sizes: "ft_sectors sparse_array = 3" "wf_ft 2 1 sparse_array"
  using length_dnode_encode [OF wf_sparse_dnode, of "replicate 320 0"]
  by (simp_all add: sparse_array_def sparse_dnode_def)

lemma sparse_objects:
  "tree_object sparse_image 3 2 2 [sparse_tree] sparse_dnode"
  "tree_object sparse_image 0 2 1 [sparse_array] (meta_dnode sparse_objset)"
proof -
  have len: "length (ft_kids 0 [sparse_array]) = 512 * 3"
    using length_ft_data(2) [of 2 1 "[sparse_array]" 0] sparse_array_sizes by (simp add: fan_ok_def)
  have "sector_at sparse_image 0 (ft_kids 0 [sparse_array] @ ft_kids 3 [sparse_tree])"
    using sector_at_image [of "replicate 0x400000 0" "[]" 0 "ft_kids 0 [sparse_array] @ ft_kids 3 [sparse_tree]" "[]"]
    by (simp add: sparse_image_def)
  then have at: "sector_at sparse_image 0 (ft_kids 0 [sparse_array])" "sector_at sparse_image 3 (ft_kids 3 [sparse_tree])"
    unfolding sector_at_append [OF len] by simp_all
  have fan: "fan_bits sparse_dnode = 2" by (simp add: fan_bits_def sparse_dnode_def)
  show "tree_object sparse_image 3 2 2 [sparse_tree] sparse_dnode"
    using at(2) fan sparse_sizes by (simp add: tree_object_def fan_ok_def) (simp add: sparse_dnode_def sparse_tree_def)
  show "tree_object sparse_image 0 2 1 [sparse_array] (meta_dnode sparse_objset)"
    using at(1) sparse_array_sizes
    by (simp add: tree_object_def fan_ok_def sparse_objset_def fan_bits_def) (simp add: sparse_dnode_def sparse_array_def)
qed

lemma sparse_array_bounds:
  "list_all (\<lambda>b. length b = data_block_size (meta_dnode sparse_objset)) (concat (map (ft_blocks 2 1) [sparse_array]))"
  "0 < data_block_size (meta_dnode sparse_objset)"
  "unat (dn_maxblkid (meta_dnode sparse_objset)) + 1 \<le> length (concat (map (ft_blocks 2 1) [sparse_array]))"
  "512 * unat (1 :: u64) + 512 \<le> data_block_size (meta_dnode sparse_objset) * (unat (dn_maxblkid (meta_dnode sparse_objset)) + 1)"
  using length_dnode_encode [OF wf_sparse_dnode, of "replicate 320 0"]
  by (simp_all add: sparse_objset_def sparse_dnode_def data_block_size_def sparse_array_def)

lemma sparse_slot: "slot_dnode (concat (concat (map (ft_blocks 2 1) [sparse_array]))) 1 Little = Some sparse_dnode"
proof -
  have len: "length (dnode_encode [[0, 0, 0]] sparse_dnode (replicate 320 0)) = 512"
    using length_dnode_encode [OF wf_sparse_dnode, of "replicate 320 0"] by (simp add: sparse_dnode_def)
  have "dn_endian sparse_dnode = Little" "dn_type sparse_dnode \<noteq> 0" by (simp_all add: sparse_dnode_def)
  then show ?thesis
    using dnode_parse_encode [OF wf_sparse_dnode, of "replicate 320 0"] len
    by (simp add: slot_dnode_def sparse_array_def)
qed

lemma sparse_mos_dnode: "mos_dnode no_codecs sparse_image sparse_objset 1 = Some sparse_dnode"
  using mos_dnode_flat [OF tree_object_blocks [OF sparse_objects(2), of no_codecs] sparse_array_bounds] sparse_slot
  by (simp add: sparse_objset_def)

lemma mos_dnode_is_slot_witness:
  "mos_dnode no_codecs sparse_image sparse_objset 1 = Some sparse_dnode"
  using mos_dnode_is_slot [OF tree_object_blocks [OF sparse_objects(2), of no_codecs] sparse_array_bounds] sparse_slot
  by (simp add: sparse_objset_def)

lemma sparse_blocks:
  "concat (map (ft_blocks 2 2) [sparse_tree]) = [replicate 512 1, replicate 512 0, replicate 512 2, replicate 512 0,
     replicate 512 0, replicate 512 0, replicate 512 0, replicate 512 0, replicate 512 3, replicate 512 0, replicate 512 0,
     replicate 512 0, replicate 512 0, replicate 512 0, replicate 512 0, replicate 512 0]"
proof -
  have "replicate 4 (replicate 512 (0 :: u8)) = [replicate 512 0, replicate 512 0, replicate 512 0, replicate 512 0]"
    by (simp only: numeral_eq_Suc pred_numeral_simps BitM.simps replicate.simps)
  then show ?thesis by (simp add: sparse_tree_def)
qed

lemma tree_object_reads_back_witness:
  "zpl_read_file_with no_codecs sparse_image sparse_objset 1 (Some 4100) =
     Inr (replicate 512 1 @ replicate 512 0 @ replicate 512 2 @ replicate 2560 0 @ replicate 4 3)"
proof -
  have "replicate 512 0 @ replicate 512 0 @ replicate 512 0 @ replicate 512 0 @ replicate 512 0 @ xs =
      replicate 2560 0 @ xs" for xs :: bytes
    by (simp flip: replicate_add append_assoc)
  then show ?thesis
    using tree_object_reads_back [OF sparse_mos_dnode sparse_objects(1), of 4100]
    unfolding sparse_blocks by (simp add: sparse_dnode_def data_block_size_def MAX_FILE_BYTES_def)
qed

lemma read_dnode_data_flat_witness:
  "map (\<lambda>k. map_option blk_data (res_ok (read_dnode_data no_codecs sparse_image sparse_dnode k))) [2, 5, 8] =
     [Some (replicate 512 2), Some (replicate 512 0), Some (replicate 512 3)]"
proof -
  have "\<exists>b. read_dnode_data no_codecs sparse_image sparse_dnode k = Inr b \<and>
      blk_data b = concat (map (ft_blocks 2 2) [sparse_tree]) ! unat k" if "k \<le> 8" for k
  proof (rule read_dnode_data_flat [OF tree_object_blocks [OF sparse_objects(1), of no_codecs]])
    show "k \<le> dn_maxblkid sparse_dnode" using that by (simp add: sparse_dnode_def)
    show "unat k < length (concat (map (ft_blocks 2 2) [sparse_tree]))"
      unfolding sparse_blocks using that by (simp add: word_le_nat_alt)
  qed
  from this [of 2] this [of 5] this [of 8] show ?thesis unfolding sparse_blocks by auto
qed

lemma sparse_leaves:
  "concat (ft_kid_leaves 2 2 3 [sparse_tree]) = [sector_ptr 3 1, hole_ptr 1, sector_ptr 4 1, hole_ptr 1,
     hole_ptr 1, hole_ptr 1, hole_ptr 1, hole_ptr 1, sector_ptr 6 1, hole_ptr 1, hole_ptr 1, hole_ptr 1,
     hole_ptr 1, hole_ptr 1, hole_ptr 1, hole_ptr 1]"
proof -
  have "replicate 4 (hole_ptr 1) = [hole_ptr 1, hole_ptr 1, hole_ptr 1, hole_ptr 1]"
    by (simp only: numeral_eq_Suc pred_numeral_simps BitM.simps replicate.simps)
  then show ?thesis by (simp add: sparse_tree_def)
qed

lemma extents_are_leaf_blocks_witness:
  "\<exists>m. zf_image m = sparse_image \<and> zf_zpl m = sparse_objset \<and>
     vfs_extents no_codecs m (FidOpaque 1) SidDefault = Inr (map (\<lambda>k. run_of (sector_ptr k 1)) [3, 4, 6])"
proof -
  obtain m0 where "zfs_open no_codecs (mem_source 4095 (device_image sample_pool)) = Inr m0" by (rule sample_mount)
  obtain m :: zfs_fs where m: "zf_image m = sparse_image" "zf_zpl m = sparse_objset"
    by (rule that [of "m0\<lparr>zf_image := sparse_image, zf_zpl := sparse_objset\<rparr>"]) simp_all
  have "filter (\<lambda>bp. \<not> bp_embedded bp \<and> \<not> dva_is_empty (bp_dvas bp ! 0))
      (take MAX_RUNS (live (concat (ft_kid_leaves 2 2 3 [sparse_tree])))) = map (\<lambda>k. sector_ptr k 1) [3, 4, 6]"
    unfolding sparse_leaves using hole_ptr_facts(1) [of 1] sector_ptr_not_hole [of 1]
    by (simp add: MAX_RUNS_def) (simp add: sector_ptr_def blkptr_default_def dva_is_empty_def)
  then show ?thesis
    using extents_are_leaf_blocks [of no_codecs m 1 sparse_dnode "ft_kid_leaves 2 2 3 [sparse_tree]"]
      tree_object_leaf_ptrs [OF sparse_objects(1), of no_codecs] sparse_mos_dnode m
    by (intro exI [of _ m]) simp
qed

end
