(* ===== verification/Zfs_Redundancy.thy ===== *)
theory Zfs_Redundancy
  imports Zfs_Mount Zfs_Recovery
begin

section \<open>The four labels of a device\<close>

text \<open>
  A device formatted with a pool whose four labels are each intact or torn: what the mount and the
  audit make of it. Both look at one label at a time, which a locale states once for the two.
\<close>

subsection \<open>A device with four labels\<close>

text \<open>
  A label that cannot be read: its ring holds no uberblock, and it does not parse. A slot of the
  device is either the label the formatter wrote or such a torn one.
\<close>

definition torn_label :: "bytes \<Rightarrow> bool" where
  "torn_label l \<longleftrightarrow> length l = LABEL_SIZE \<and> label_candidate l 0 = None \<and> res_ok (vdev_label_parse l) = None"

definition label_slot :: "bytes \<Rightarrow> bool" where
  "label_slot l \<longleftrightarrow> l = root_label (sector_ptr 0 2) \<or> torn_label l"

definition intact :: "bytes \<Rightarrow> bool" where
  "intact l \<longleftrightarrow> l = root_label (sector_ptr 0 2)"

definition labelled_device :: "bytes \<Rightarrow> bytes \<Rightarrow> bytes \<Rightarrow> bytes \<Rightarrow> fs_node list list \<Rightarrow> bytes" where
  "labelled_device l0 l1 l2 l3 fss = l0 @ l1 @ replicate 3670016 0 @ pool_body fss @ l2 @ l3"

text \<open>What a label contributes depends on its own bytes, wherever it lies.\<close>

lemma slice_of_part:
  assumes "length pre = off" and "a \<le> b" and "b \<le> length l"
  shows "slice_get (pre @ l @ post) (off + a) (off + b) = slice_get l a b"
  using assms by (auto simp: slice_get_def)

lemma label_candidate_at:
  assumes "length pre = unat off" and "length l = LABEL_SIZE" and "length (pre @ l @ post) < 2 ^ 63"
  shows "label_candidate (pre @ l @ post) off = label_candidate l 0"
proof -
  have b: "unat off + 262144 + length post < 2 ^ 63" using assms by (simp add: LABEL_SIZE_def)
  have "slice_get (pre @ l @ post) (unat off + 131072) (unat off + 262144) = slice_get l 131072 262144"
    by (rule slice_of_part) (use assms in \<open>simp_all add: LABEL_SIZE_def\<close>)
  then show ?thesis
    using assms(1,2) b by (simp add: label_candidate_def label_consts checked_add_def sat_add_def usize_max_def add.commute [of _ "unat off"])
qed

lemma label_identity_at:
  assumes "length pre = unat off" and "length l = LABEL_SIZE" and "length (pre @ l @ post) < 2 ^ 63"
  shows "label_identity (pre @ l @ post) off = label_identity l 0"
proof -
  have b: "unat off + 262144 + length post < 2 ^ 63" using assms by (simp add: LABEL_SIZE_def)
  have "slice_get (pre @ l @ post) (unat off + 0) (unat off + 262144) = slice_get l 0 262144"
    by (rule slice_of_part) (use assms in \<open>simp_all add: LABEL_SIZE_def\<close>)
  then show ?thesis
    using assms(1,2) b by (simp add: label_identity_def label_consts sat_add_def usize_max_def)
qed

lemma label_identity_self:
  "length l = LABEL_SIZE \<Longrightarrow> label_identity l 0 = do {
     label \<leftarrow> res_ok (vdev_label_parse l);
     guid \<leftarrow> nv_get_u64 (vl_config label) (lit ''pool_guid'');
     Some (guid, case nv_get_u64 (vl_config label) (lit ''txg'') of Some v \<Rightarrow> v | None \<Rightarrow> 0,
       case nv_vdev_tree (vl_config label) of None \<Rightarrow> 0 | Some v \<Rightarrow> vt_ashift v) }"
  by (simp add: label_identity_def label_consts sat_add_def usize_max_def slice_get_def)


subsection \<open>The labels of the device\<close>

lemma root_label_slot:
  "length (root_label (sector_ptr 0 2)) = LABEL_SIZE"
  "vdev_label_parse (root_label (sector_ptr 0 2)) = Inr (root_vdev_label (sector_ptr 0 2))"
  "label_candidate (root_label (sector_ptr 0 2)) 0 = Some (root_uberblock (sector_ptr 0 2))"
  "rootbp_full (root_uberblock (sector_ptr 0 2)) = sector_ptr 0 2"
proof -
  have bp: "wf_blkptr (sector_ptr 0 2)" by (intro wf_sector_ptr) simp_all
  show "length (root_label (sector_ptr 0 2)) = LABEL_SIZE"
    "vdev_label_parse (root_label (sector_ptr 0 2)) = Inr (root_vdev_label (sector_ptr 0 2))"
    "rootbp_full (root_uberblock (sector_ptr 0 2)) = sector_ptr 0 2"
    by (rule root_label_facts [OF bp] rootbp_root_uberblock [OF bp])+
  show "label_candidate (root_label (sector_ptr 0 2)) 0 = Some (root_uberblock (sector_ptr 0 2))"
    using root_label_candidate [OF bp, of "[]"] by simp
qed

lemma root_identity:
  "nv_get_u64 sample_config (lit ''pool_guid'') = Some 0xC0FFEE"
  "map_option vt_ashift (nv_vdev_tree sample_config) = Some 12"
  "label_identity (root_label (sector_ptr 0 2)) 0 = Some (0xC0FFEE, 7, 12)"
proof -
  show guid: "nv_get_u64 sample_config (lit ''pool_guid'') = Some 0xC0FFEE"
    by (simp add: sample_config_def nv_get_u64_def nv_get_def lit_def)
  show tree: "map_option vt_ashift (nv_vdev_tree sample_config) = Some 12"
    by (simp add: sample_config_def nv_vdev_tree_def nv_get_nvlist_def nv_get_u64_def nv_get_def lit_def vdev_tree_from_nvlist_def)
  have "nv_get_u64 sample_config (lit ''txg'') = Some 7"
    by (simp add: sample_config_def nv_get_u64_def nv_get_def lit_def)
  then show "label_identity (root_label (sector_ptr 0 2)) 0 = Some (0xC0FFEE, 7, 12)"
    using guid tree by (auto simp: label_identity_self root_label_slot root_vdev_label_def)
qed

lemma slot_facts:
  assumes "label_slot l"
  shows "length l = LABEL_SIZE" "label_candidate l 0 = (if intact l then Some (root_uberblock (sector_ptr 0 2)) else None)"
    "label_identity l 0 = (if intact l then Some (0xC0FFEE, 7, 12) else None)"
  using assms root_label_slot root_identity(3)
  by (auto simp: label_slot_def intact_def torn_label_def label_identity_self)

subsection \<open>Functions of one label\<close>

text \<open>
  A function of an image and the position of a label is local when it looks at that label only. The
  uberblock scan of the mount and the identity check of the audit both are, so on a device with the
  four labels in place each is the function of the label alone.
\<close>

locale label_local =
  fixes g :: "bytes \<Rightarrow> u64 \<Rightarrow> 'a"
  assumes local: "length pre = unat off \<Longrightarrow> length l = LABEL_SIZE \<Longrightarrow> length (pre @ l @ post) < 2 ^ 63 \<Longrightarrow>
    g (pre @ l @ post) off = g l 0"
begin

lemma on_device:
  assumes "length l0 = LABEL_SIZE" "length l1 = LABEL_SIZE" "length l2 = LABEL_SIZE" "length l3 = LABEL_SIZE"
    and "length mid < 2 ^ 62" and "img = l0 @ l1 @ mid @ l2 @ l3"
  shows "g img 0 = g l0 0" "g img 262144 = g l1 0"
    "g img (of_nat (length img - 524288)) = g l2 0" "g img (of_nat (length img - 262144)) = g l3 0"
proof -
  note len = assms(1-4) [unfolded LABEL_SIZE_def]
  have n: "length img = 1048576 + length mid" and fits: "length img < 2 ^ 63" using assms(5,6) len by simp_all
  have u: "unat (of_nat (length img - k) :: u64) = length img - k" for k using fits by (simp add: unat_of_nat)
  have at: "g img off = g l 0" if "img = pre @ l @ post" "length pre = unat off" "length l = LABEL_SIZE" for pre l post off
    using local [OF that(2,3), of post] fits unfolding that(1) .
  show "g img 0 = g l0 0" by (rule at [of "[]" _ "l1 @ mid @ l2 @ l3"]) (simp_all add: assms(1,6))
  show "g img 262144 = g l1 0" by (rule at [of l0 _ "mid @ l2 @ l3"]) (simp_all add: assms(2,6) len)
  show "g img (of_nat (length img - 524288)) = g l2 0"
    by (rule at [of "l0 @ l1 @ mid" _ l3]) (simp_all only: u assms(3), simp_all add: assms(6) len)
  show "g img (of_nat (length img - 262144)) = g l3 0"
    by (rule at [of "l0 @ l1 @ mid @ l2" _ "[]"]) (simp_all only: u assms(4), simp_all add: assms(6) len)
qed

end

interpretation cand: label_local label_candidate
  by unfold_locales (rule label_candidate_at)

interpretation ident: label_local label_identity
  by unfold_locales (rule label_identity_at)

subsection \<open>What a device with damaged labels tells\<close>

definition device_ok :: "bytes \<Rightarrow> bytes \<Rightarrow> bytes \<Rightarrow> bytes \<Rightarrow> fs_node list list \<Rightarrow> bool" where
  "device_ok l0 l1 l2 l3 fss \<longleftrightarrow> list_all label_slot [l0, l1, l2, l3] \<and> wf_pool fss"

lemma device_lengths:
  assumes "device_ok l0 l1 l2 l3 fss"
  shows "length l0 = LABEL_SIZE" "length l1 = LABEL_SIZE" "length l2 = LABEL_SIZE" "length l3 = LABEL_SIZE"
    "length (replicate 3670016 0 @ pool_body fss) < 2 ^ 51"
    "labelled_device l0 l1 l2 l3 fss = l0 @ l1 @ (replicate 3670016 0 @ pool_body fss) @ l2 @ l3"
    "length (labelled_device l0 l1 l2 l3 fss) = 4718592 + length (pool_body fss)"
    "length (labelled_device l0 l1 l2 l3 fss) < 2 ^ 52"
proof -
  show l: "length l0 = LABEL_SIZE" "length l1 = LABEL_SIZE" "length l2 = LABEL_SIZE" "length l3 = LABEL_SIZE"
    using assms slot_facts(1) by (simp_all add: device_ok_def)
  have b: "length (pool_body fss) < 2 ^ 50" using assms length_pool_body by (simp add: device_ok_def)
  then show "length (replicate 3670016 0 @ pool_body fss) < 2 ^ 51" by simp
  show "labelled_device l0 l1 l2 l3 fss = l0 @ l1 @ (replicate 3670016 0 @ pool_body fss) @ l2 @ l3"
    by (simp add: labelled_device_def)
  show "length (labelled_device l0 l1 l2 l3 fss) = 4718592 + length (pool_body fss)"
    using l by (simp add: labelled_device_def LABEL_SIZE_def)
  then show "length (labelled_device l0 l1 l2 l3 fss) < 2 ^ 52" using b by simp
qed

lemma device_pool:
  assumes "device_ok l0 l1 l2 l3 fss"
  shows "sector_at (labelled_device l0 l1 l2 l3 fss) 0 (pool_body fss)"
  using sector_at_image [of "l0 @ l1 @ replicate 3670016 0" "[]" 0 "pool_body fss" "l2 @ l3"] device_lengths(1,2) [OF assms]
  by (simp add: labelled_device_def LABEL_SIZE_def)

lemma device_uberblock:
  assumes "device_ok l0 l1 l2 l3 fss"
  shows "active_uberblock_across_labels (labelled_device l0 l1 l2 l3 fss) =
    (if list_ex intact [l0, l1, l2, l3] then Some (root_uberblock (sector_ptr 0 2)) else None)"
proof -
  let ?img = "labelled_device l0 l1 l2 l3 fss"
  note len = device_lengths [OF assms]
  define n where "n = length ?img"
  have n: "1048576 \<le> n" "n < 2 ^ 52" using len(7,8) by (simp_all add: n_def)
  have u: "unat (of_nat n :: u64) = n" using n by (simp add: unat_of_nat)
  have sub: "(of_nat n :: u64) - 524288 = of_nat (n - 524288)" "(of_nat n :: u64) - 262144 = of_nat (n - 262144)"
    using n by (simp_all add: of_nat_diff)
  have offs: "scanned_offsets ?img = [0, 262144, of_nat (n - 524288), of_nat (n - 262144)]"
  proof -
    have "(1048576 :: u64) \<le> of_nat n" "(524288 :: u64) \<le> of_nat n" using n(1) u by (simp_all add: word_le_nat_alt)
    then show ?thesis
      by (simp add: scanned_offsets_def label_offsets_def label_consts n_def [symmetric] sub Let_def)
  qed
  have slots: "label_slot l0" "label_slot l1" "label_slot l2" "label_slot l3" using assms by (simp_all add: device_ok_def)
  have "length (replicate 3670016 0 @ pool_body fss) < 2 ^ 62" by (rule less_le_trans [OF len(5)]) simp
  note cands = cand.on_device [OF len(1-4) this len(6), folded n_def]
  show ?thesis
    unfolding active_uberblock_across_labels_def offs foldl.simps cands
    using slots by (simp add: slot_facts(2) better_uberblock_def)
qed


lemma device_mounts:
  assumes "device_ok l0 l1 l2 l3 fss" and "list_ex intact [l0, l1, l2, l3]"
  shows "device_on (labelled_device l0 l1 l2 l3 fss) fss"
  using assms device_uberblock [OF assms(1)] device_pool [OF assms(1)]
  by (simp add: device_on_def device_ok_def root_label_slot)

text \<open>A block without a checksum is never called a mismatch.\<close>

lemma sector_ptr_verdict: "blkptr_checksum_verdict x img (sector_ptr k n) \<noteq> VMismatch"
  by (simp add: blkptr_checksum_verdict_def sector_ptr_def blkptr_default_def checksum_from_raw_def Let_def)

lemma pool_no_mismatch:
  assumes "wf_pool fss" and "sector_at img 0 (pool_body fss)"
  shows "sweep_reachable_blkptrs x [] img (root_vdev_label (sector_ptr 0 2)) = []"
    "blkptr_checksum_verdict x img (rootbp_full (root_uberblock (sector_ptr 0 2))) \<noteq> VMismatch"
proof -
  obtain blk mos where mos: "read_block x img (sector_ptr 0 2) = Inr blk" "objset_parse (blk_data blk) Little = Inr mos"
      "mos_on img fss mos"
    using pool_mos [OF assms, of x] by blast
  from mos(3) have "dn_blkptrs (meta_dnode mos) = [sector_ptr 2 (ro_sectors (array_obj 2 (mos_objs fss)))]"
    by (simp add: mos_on_def objset_on_def obj_dnode_def)
  then show "sweep_reachable_blkptrs x [] img (root_vdev_label (sector_ptr 0 2)) = []"
    by (simp add: sweep_reachable swept_blkptrs_def root_vdev_label_def root_label_slot mos(1,2) sector_ptr_verdict)
  show "blkptr_checksum_verdict x img (rootbp_full (root_uberblock (sector_ptr 0 2))) \<noteq> VMismatch"
    by (simp add: root_label_slot sector_ptr_verdict)
qed

definition torn_finding :: "usize \<Rightarrow> anomaly" where
  "torn_finding idx = anomaly_new (LabelDivergence ''config'' idx torn_reason)"

lemma device_divergence:
  assumes "device_ok l0 l1 l2 l3 fss" and "intact l0"
  shows "check_label_divergence [] (labelled_device l0 l1 l2 l3 fss) (root_vdev_label (sector_ptr 0 2)) =
    (if intact l3 then (if intact l1 then [] else [torn_finding 1]) @ (if intact l2 then [] else [torn_finding 2]) else [])"
proof -
  let ?img = "labelled_device l0 l1 l2 l3 fss"
  note len = device_lengths [OF assms(1)]
  define n where "n = length ?img"
  have n: "1048576 \<le> n" "n < 2 ^ 52" using len(7,8) by (simp_all add: n_def)
  have u: "unat (of_nat n :: u64) = n" using n by (simp add: unat_of_nat)
  have sub: "(of_nat n :: u64) - 524288 = of_nat (n - 524288)" "(of_nat n :: u64) - 262144 = of_nat (n - 262144)"
    using n by (simp_all add: of_nat_diff)
  have big: "\<not> (of_nat n :: u64) < 1048576" using n(1) u by (simp add: word_less_nat_alt)
  have slots: "label_slot l1" "label_slot l2" "label_slot l3" using assms by (simp_all add: device_ok_def)
  have "length (replicate 3670016 0 @ pool_body fss) < 2 ^ 62" by (rule less_le_trans [OF len(5)]) simp
  note ids = ident.on_device [OF len(1-4) this len(6), folded n_def]
  have base: "nv_get_u64 (vl_config (root_vdev_label (sector_ptr 0 2))) (lit ''pool_guid'') = Some 0xC0FFEE"
    "(case nv_vdev_tree (vl_config (root_vdev_label (sector_ptr 0 2))) of None \<Rightarrow> 0 | Some v \<Rightarrow> vt_ashift v) = 12"
    using root_identity by (auto simp: root_vdev_label_def)
  show ?thesis
    unfolding check_label_divergence_def base option.case Let_def n_def [symmetric] compare_label_def
    using big slots by (simp add: label_consts sub ids slot_facts(3) torn_finding_def)
qed


subsection \<open>Properties\<close>

text \<open>
  C5. The redundancy of the labels is used in full: on a device whose four labels are each the
  formatter's or torn, the mount succeeds as soon as any one is intact, in front or at the back, and
  then finds and reads the files of the pool; with none intact it fails with the bootstrap error of
  the uberblock ring.
\<close>

theorem mount_needs_one_label:
  assumes "device_ok l0 l1 l2 l3 fss" and "img = labelled_device l0 l1 l2 l3 fss" and "read_all src = Inr img"
    and "fs_walk (fss ! 0) 0 names = Some j" and "fss ! 0 ! j = FFile bs"
  shows "if list_ex intact [l0, l1, l2, l3]
    then \<exists>m. zfs_open x src = Inr m \<and> vfs_walk x m (vfs_root m) names = Inr (Some (FidOpaque (node_id j))) \<and>
      vfs_read_at x m (FidOpaque (node_id j)) SidDefault off n = Inr (take n (drop (unat off) bs))
    else zfs_open x src = Inl (VfsBootstrap ''zfs uberblock ring'' (no_uberblock_detail img))"
proof (cases "list_ex intact [l0, l1, l2, l3]")
  case True
  obtain m where m: "zfs_open x src = Inr m" "mounted img (fss ! 0) m"
    using open_mounted [OF device_mounts [OF assms(1) True]] assms(2,3) by blast
  then obtain b where "fs_on img b (fss ! 0) (zf_zpl m)" using mounted_fs by blast
  then have "0 < length (fss ! 0)" by (simp add: fs_on_def wf_fs_def)
  note walk = mounted_walk [OF m(2) this assms(4), of x]
  have "vfs_content x m (node_id j) = Inr bs" using mounted_content [OF m(2) _ assms(5)] walk by blast
  then have "vfs_read_at x m (FidOpaque (node_id j)) SidDefault off n = Inr (take n (drop (unat off) bs))"
    by (rule vfs_read_at_default)
  moreover have "vfs_root m = FidOpaque (node_id 0)" using m(2) by (simp add: vfs_root_def mounted_def)
  ultimately show ?thesis using True walk m(1) by auto
next
  case False
  then have "active_uberblock_across_labels img = None" using device_uberblock [OF assms(1)] assms(2) by simp
  then show ?thesis using False assms(3) by (auto simp: zfs_open_def ok_or_def)
qed

text \<open>
  C6. What the audit tells about damaged labels, exactly: with the first and the last label intact
  the report of an otherwise sound device is one torn-label finding for each of the two middle labels
  that is torn, in order, and nothing else. With the first or the last one torn the report is empty,
  however many others are torn.
\<close>

theorem audit_of_torn_labels:
  assumes "device_ok l0 l1 l2 l3 fss"
  shows "audit_image x (labelled_device l0 l1 l2 l3 fss) =
    (if intact l0 \<and> intact l3
     then map (\<lambda>(idx, l). anomaly_new (LabelDivergence ''config'' idx torn_reason))
       (filter (\<lambda>(idx, l). \<not> intact l) [(1, l1), (2, l2)])
     else [])"
proof -
  let ?img = "labelled_device l0 l1 l2 l3 fss"
  have slot: "slice_get ?img 0 LABEL_SIZE = Some l0"
    using device_lengths(1) [OF assms] by (simp add: labelled_device_def slice_get_def)
  show ?thesis
  proof (cases "intact l0")
    case True
    then have parsed: "vdev_label_parse l0 = Inr (root_vdev_label (sector_ptr 0 2))"
      by (simp add: intact_def root_label_slot)
    have "wf_pool fss" using assms by (simp add: device_ok_def)
    from pool_no_mismatch [OF this device_pool [OF assms], of x] True show ?thesis
      unfolding audit_image_parts [OF slot parsed] device_divergence [OF assms True]
      by (simp add: root_vdev_label_def torn_finding_def)
  next
    case False
    then obtain e where "vdev_label_parse l0 = Inl e"
      using assms by (cases "vdev_label_parse l0") (auto simp: device_ok_def label_slot_def intact_def torn_label_def)
    then show ?thesis using False audit_out_of_label(2) [OF slot] by simp
  qed
qed

text \<open>A label overwritten with zeros is torn.\<close>

definition blank_label :: bytes where
  "blank_label = replicate LABEL_SIZE 0"

lemma torn_blank: "torn_label blank_label" "\<not> intact blank_label"
proof -
  have len: "length blank_label = LABEL_SIZE" by (simp add: blank_label_def)
  have "slice_get blank_label (unat (0 :: u64) + 131072) (262144 + unat (0 :: u64)) = Some (replicate 131072 0)"
    by (simp add: blank_label_def slice_get_def LABEL_SIZE_def)
  then have "label_candidate blank_label 0 = None" by (rule label_candidate_zeros) simp
  moreover have "slice_get blank_label NVLIST_OFFSET (NVLIST_OFFSET + NVLIST_SIZE) = Some (replicate 114688 0)"
    by (simp add: blank_label_def slice_get_def label_consts)
  moreover have "nvlist_parse (replicate 114688 0) = Inl (BadNvlistEncoding 0 0)"
    by (simp add: nvlist_parse_def u8_at_def nth_get_def NV_ENCODE_XDR_def)
  ultimately have "res_ok (vdev_label_parse blank_label) = None" and "label_candidate blank_label 0 = None"
    using len by (simp_all add: vdev_label_parse_def ok_or_def)
  then show t: "torn_label blank_label" by (simp add: torn_label_def len)
  then show "\<not> intact blank_label" using root_label_slot(3) by (auto simp: torn_label_def intact_def)
qed

definition good_label :: bytes where
  "good_label = root_label (sector_ptr 0 2)"

lemma sample_labels:
  "label_slot good_label" "label_slot blank_label" "intact good_label" "\<not> intact blank_label"
  using torn_blank by (simp_all add: label_slot_def intact_def good_label_def)

lemma mount_needs_one_label_witness:
  "\<exists>m. zfs_open no_codecs (mem_source 4095 (labelled_device blank_label blank_label blank_label good_label sample_pool)) = Inr m \<and>
    vfs_read_at no_codecs m (FidOpaque (node_id 1)) SidDefault 0 10 = Inr [1]"
proof -
  let ?img = "labelled_device blank_label blank_label blank_label good_label sample_pool"
  have dev: "device_ok blank_label blank_label blank_label good_label sample_pool"
    by (simp add: device_ok_def sample_labels wf_sample_pool)
  have "length ?img \<le> usize_max"
    by (rule order_trans [OF less_imp_le [OF device_lengths(8) [OF dev]]]) (simp add: usize_max_def)
  then have "read_all (mem_source 4095 ?img) = Inr ?img"
    using mem.read_all_content [of 4095 ?img] by (simp add: addressable_def)
  from mount_needs_one_label [OF dev refl this, of "[lit ''keep'']" 1 "[1]" no_codecs 0 10] show ?thesis
    by (auto simp: sample_pool_def sample_labels)
qed

lemma audit_of_torn_labels_witness:
  "map an_code (audit_image no_codecs (labelled_device good_label good_label blank_label good_label sample_pool)) =
     [''ZFS-LABEL-DIVERGENCE''] \<and>
   audit_image no_codecs (labelled_device good_label good_label good_label good_label sample_pool) = [] \<and>
   audit_image no_codecs (labelled_device blank_label good_label good_label good_label sample_pool) = []"
proof -
  have dev: "device_ok l0 l1 l2 l3 sample_pool" if "set [l0, l1, l2, l3] \<subseteq> {good_label, blank_label}" for l0 l1 l2 l3
    using that sample_labels(1,2) by (auto simp: device_ok_def wf_sample_pool)
  show ?thesis by (simp add: audit_of_torn_labels [OF dev] sample_labels)
qed

end
