(* ===== verification/Zfs_Streams.thy ===== *)
theory Zfs_Streams
  imports Zfs_Vfs Zfs_Xattr_Fs
begin

section \<open>Streams of files with extended attributes\<close>

text \<open>
  The adapter's streams on the reference file system whose nodes store extended attributes: the
  listing of a file's streams and the reads by the identifiers it lists agree with what is stored.
\<close>

subsection \<open>The adapter on a file system with extended attributes\<close>

definition tagged_mount :: "bytes \<Rightarrow> objset \<Rightarrow> zfs_fs \<Rightarrow> bool" where
  "tagged_mount img os m \<longleftrightarrow> zf_image m = img \<and> zf_zpl m = os \<and>
     zf_registry m = sample_registry \<and> zf_layouts m = sample_layouts"

lemma tagged_vfs:
  assumes "tagged_on img b fs os" and "tagged_mount img os m" and "j < length fs" and "fst (fs ! j) = FFile bs"
  shows "map_option za_size (vfs_attrs x m (node_id j)) = Some (of_nat (length bs))"
    and "vfs_content x m (node_id j) = Inr bs"
proof -
  have attrs: "vfs_attrs x m (node_id j) = zpl_attrs x img os sample_registry sample_layouts (node_id j)"
    using assms(2) by (simp add: vfs_attrs_def tagged_mount_def)
  show "map_option za_size (vfs_attrs x m (node_id j)) = Some (of_nat (length bs))"
    unfolding attrs tagged_attrs [OF assms(1,3,4)] by simp
  have "zpl_sa_context x img os = Some (sample_registry, sample_layouts)"
    using sys_context(2) [OF tagged_node(1) [OF assms(1,3)], of x] by simp
  then show "vfs_content x m (node_id j) = Inr bs"
    using tagged_read_file [OF assms(1,3,4), of x] assms(2)
    by (simp add: vfs_content_def attrs zpl_read_file_def tagged_mount_def)
qed

text \<open>
  C7. End to end, the streams of a file are its content and its extended attributes, and each is
  readable by the identifier it is listed under: on an image formatted from nodes with attributes, in
  either storage form, the listing of a file's streams is its default stream followed by one stream
  per attribute in order, each with the attribute's name and the length of its value, and a read of
  any listed stream at any offset returns that slice of the value. It holds up to 65536 attributes;
  the identifiers of any more saturate.
\<close>

theorem formatted_streams_read_back:
  assumes "tagged_on img b fs os" and "tagged_mount img os m" and "j < length fs" and "fst (fs ! j) = FFile bs"
    and "length (node_xattrs fs (fs ! j)) \<le> 65536"
  shows "\<exists>d ss. vfs_data_streams x m (FidOpaque (node_id j)) = Inr (d # ss) \<and>
    si_name d = None \<and> si_size d = of_nat (length bs) \<and>
    vfs_read_at x m (FidOpaque (node_id j)) (si_id d) off n = Inr (take n (drop (unat off) bs)) \<and>
    list_all2 (\<lambda>s xa. si_name s = Some (xa_name xa) \<and> si_size s = of_nat (length (xa_value xa)) \<and> si_kind s = SkXattr \<and>
        vfs_read_at x m (FidOpaque (node_id j)) (si_id s) off n = Inr (take n (drop (unat off) (xa_value xa))))
      ss (node_xattrs fs (fs ! j))"
proof -
  have xs: "list_xattrs x (zf_image m) (zf_zpl m) (node_id j) = node_xattrs fs (fs ! j)"
    using tagged_list_xattrs [OF assms(1,3)] assms(2) by (simp add: tagged_mount_def)
  note v = tagged_vfs [OF assms(1-4), of x]
  show ?thesis
    using attribute_streams [of x m "node_id j" off n] v(1) vfs_read_at_default [OF v(2), of off n] assms(5)
    unfolding xs vfs_data_streams_def object_of_def
    by (auto simp: rbind_def data_stream_info_def xs)
qed


definition tagged_system :: zfs_fs where
  "tagged_system = \<lparr>zf_image = tagged_image, zf_zpl = tagged_objset, zf_registry = sample_registry,
     zf_layouts = sample_layouts, zf_root_id = node_id 0, zf_record_size = 512, zf_pool_name = None\<rparr>"

lemma formatted_streams_read_back_witness:
  "\<exists>d s t. vfs_data_streams no_codecs tagged_system (FidOpaque (node_id 1)) = Inr [d, s, t] \<and>
    si_name s = Some (lit ''user.a'') \<and> si_size s = 3 \<and>
    vfs_read_at no_codecs tagged_system (FidOpaque (node_id 1)) (si_id s) 1 9 = Inr [2, 3] \<and>
    vfs_read_at no_codecs tagged_system (FidOpaque (node_id 1)) (si_id d) 1 9 = Inr [105]"
proof -
  have m: "tagged_mount tagged_image tagged_objset tagged_system" by (simp add: tagged_mount_def tagged_system_def)
  have nodes: "1 < length tagged_fs" "fst (tagged_fs ! 1) = FFile [104, 105]"
    "node_xattrs tagged_fs (tagged_fs ! 1) =
      [\<lparr>xa_name = lit ''user.a'', xa_value = [1, 2, 3]\<rparr>, \<lparr>xa_name = lit ''user.b'', xa_value = []\<rparr>]"
    by (simp_all add: tagged_fs_def node_xattrs_def byte_pairs_def sample_xattrs_def List.map_filter_def)
  from formatted_streams_read_back [OF tagged_fs_on m nodes(1,2), of no_codecs 1 9] show ?thesis
    unfolding nodes(3) by (auto simp: list_all2_Cons2)
qed

text \<open>A file of two bytes read one byte at a time.\<close>

lemma mounted_file_reads_in_full_witness:
  "read_all (file_source (\<lambda>off n. min n 1) no_codecs tagged_system (node_id 1) [104, 105]) = Inr [104, 105]"
proof -
  have m: "tagged_mount tagged_image tagged_objset tagged_system" by (simp add: tagged_mount_def tagged_system_def)
  have "vfs_content no_codecs tagged_system (node_id 1) = Inr [104, 105]"
    by (rule tagged_vfs(2) [OF tagged_fs_on m]) (simp_all add: tagged_fs_def)
  moreover have "splits (\<lambda>off n. min n 1)" by (simp add: splits_def)
  ultimately show ?thesis using mounted_file_reads_in_full [of _ _ _ "[104, 105]" _ 0 0] by simp
qed

end
