(* ===== verification/Zfs_Api.thy ===== *)
theory Zfs_Api
  imports Zfs_Vfs
begin

section \<open>The entry points of the crate\<close>

text \<open>
  The functions through which a client of \<^verbatim>\<open>zfs_core\<close> reaches parsers of private modules
  (\<^verbatim>\<open>core/src/lib.rs\<close>), and the function that opens an image as a mounted file system
  (\<^verbatim>\<open>core/src/vfs.rs\<close>). The trait object it returns is the mounted system itself.
\<close>

definition crate_nvlist_parse :: "bytes \<Rightarrow> zfs_error + nvlist" where
  "crate_nvlist_parse data = nvlist_parse data"

definition crate_uberblock_parse :: "bytes \<Rightarrow> uberblock option" where
  "crate_uberblock_parse slot = uberblock_parse slot"

definition vfs_open :: "ext \<Rightarrow> dyn_source \<Rightarrow> vfs_error + zfs_fs" where
  "vfs_open x src = rbind (zfs_open x src) (\<lambda>fs. Inr fs)"

text \<open>The round trips of the parsers hold at the entry points, and opening is mounting.\<close>

lemma crate_uberblock_encoded: "wf_uberblock ub \<Longrightarrow> crate_uberblock_parse (uberblock_encode ub @ rest) = Some ub"
  by (simp add: crate_uberblock_parse_def uberblock_parse_encode)

lemma crate_nvlist_encoded:
  "wf_nvlist l \<Longrightarrow> length (nvlist_encode l @ rest) < 2 ^ 63 \<Longrightarrow> crate_nvlist_parse (nvlist_encode l @ rest) = Inr l"
  by (simp only: crate_nvlist_parse_def nvlist_parse_encode)

lemma vfs_open_eq: "vfs_open x src = zfs_open x src"
  by (cases "zfs_open x src") (simp_all add: vfs_open_def)

end
