(* ===== verification/Spec2Isabelle.thy ===== *)
theory Spec2Isabelle
  imports Zfs_Prelude Zfs_Text Zfs_Bytes Zfs_Error Zfs_Checksum Zfs_Compress Zfs_Blkptr Zfs_Dmu Zfs_Dnode
    Zfs_Objset Zfs_Nvlist Zfs_Label Zfs_Read Zfs_Zap Zfs_Sa Zfs_Zpl Zfs_Mkfs Zfs_Xattr Zfs_Pool
    Zfs_Forensic Zfs_Recovery Zfs_Vfs Zfs_Mount Zfs_Extents Zfs_Sa_Fields
    Zfs_Xattr_Fs Zfs_Tree Zfs_Redundancy Zfs_Streams Zfs_Api
begin

text \<open>
  A model of the zfs-forensic workspace: the on-disk ZFS reader of \<^verbatim>\<open>core/src\<close> (crate
  \<^verbatim>\<open>zfs_core\<close>) and the auditor and snapshot recovery of \<^verbatim>\<open>forensic/src/lib.rs\<close>.

  \<^bold>\<open>The program.\<close> The reader decodes a pool from one byte buffer. A vdev label holds an nvlist
  configuration and a ring of uberblocks; the uberblock of highest txg carries a block pointer to
  the MOS object set; an object set is an array of dnodes reached through a tree of indirect blocks;
  ZAP objects are its name tables; the DSL directory and dataset objects lead to the ZPL object set
  of a file system, whose directories are ZAPs and whose attributes are packed system attributes.
  The auditor checks checksums and compares labels; the recovery follows the snapshot chain and
  returns files absent from the live root. The VFS adapter presents a mounted pool through the
  \<^verbatim>\<open>forensic-vfs\<close> interface.

  \<^bold>\<open>Theories and sources.\<close>
  \<^item> Zfs_Prelude: result and option chains, slices of byte lists, the \<open>name_table\<close> locale.
  \<^item> Zfs_Text: decimal and hexadecimal rendering, UTF-8 replacement decoding, number parsing
    (the standard-library functions the code calls).
  \<^item> Zfs_Bytes: \<^verbatim>\<open>bytes.rs\<close>; the locale \<open>byte_codec\<close> and its interpretations for all readers.
  \<^item> Zfs_Error: \<^verbatim>\<open>error.rs\<close>; the locale \<open>raw_enum\<close> of the on-disk enumerations.
  \<^item> Zfs_Checksum: \<^verbatim>\<open>checksum.rs\<close>. Zfs_Compress: \<^verbatim>\<open>compress.rs\<close>. Zfs_Dmu: \<^verbatim>\<open>dmu.rs\<close>.
  \<^item> Zfs_Blkptr: \<^verbatim>\<open>blkptr.rs\<close>. Zfs_Dnode: \<^verbatim>\<open>dnode.rs\<close>. Zfs_Objset: \<^verbatim>\<open>objset.rs\<close> and \<^verbatim>\<open>dsl.rs\<close>.
  \<^item> Zfs_Nvlist: \<^verbatim>\<open>nvlist.rs\<close>. Zfs_Label: \<^verbatim>\<open>uberblock.rs\<close> and \<^verbatim>\<open>label.rs\<close>.
  \<^item> Zfs_Read: \<^verbatim>\<open>read.rs\<close>, with the inductive relation \<open>block_tree\<close> between a pointer and the leaves
    under it, the abstract view the indirect walk refines.
  \<^item> Zfs_Zap: \<^verbatim>\<open>zap.rs\<close>. Zfs_Sa: \<^verbatim>\<open>sa.rs\<close>. Zfs_Zpl: \<^verbatim>\<open>zpl.rs\<close>. Zfs_Xattr: \<^verbatim>\<open>xattr.rs\<close>.
  \<^item> Zfs_Sa_Fields: the locale \<open>sa_field\<close>, what assigning one attribute does to one field of the decoded
    record, interpreted for the twelve fields, and the locator on attributes of any length.
    Zfs_Xattr_Fs: a formatted file system whose nodes carry extended attributes either way.
  \<^item> Zfs_Mkfs and Zfs_Pool: reference formatters for a file system and for a pool. They are
    specification, not models of code; the reader is proved to read what they describe.
  \<^item> Zfs_Forensic: \<^verbatim>\<open>forensic/src/lib.rs\<close>. Zfs_Vfs: \<^verbatim>\<open>vfs.rs\<close>; the locale \<open>byte_source\<close> is what
    the adapter relies on from its source of bytes.
  \<^item> Zfs_Recovery and Zfs_Mount compose the parts: recovery over a formatted pool and its snapshot
    chain, and opening, walking and reading a formatted pool through the adapter.
  \<^item> Zfs_Extents: the leaf pointers under a dnode (relation \<open>ptr_tree\<close>), which the level-wise
    expansion of \<^verbatim>\<open>extents\<close> and the per-block descent of the read path both enumerate.
    Zfs_Tree: a writer for trees of indirect blocks with holes, which both relations describe.
  \<^item> Zfs_Redundancy: a device whose four labels are each intact or torn, for the mount and the audit; the
    locale \<open>label_local\<close> says that both look at one label at a time. Zfs_Streams: the adapter's streams
    of files with extended attributes. Zfs_Api: the entry points of \<^verbatim>\<open>core/src/lib.rs\<close>.

  Definitions keep the names of the functions they translate; a loop or closure inside a function
  is a definition of its own, named after it. A struct is a record whose fields carry a prefix.

  \<^bold>\<open>Conventions.\<close> The image is a byte list \<open>img\<close>; \<^verbatim>\<open>u8\<close> to \<^verbatim>\<open>u64\<close> are words of that width, so
  arithmetic wraps as in the release build; \<^verbatim>\<open>usize\<close> is \<open>nat\<close> on a 64-bit target, with
  \<open>checked_add\<close> and \<open>sat_add\<close> at its bound where the code uses them. Plain \<^verbatim>\<open>usize\<close> sums are not
  wrapped: they are bounded by the length of a buffer in memory. Strings are UTF-8 byte lists,
  constant error labels HOL strings. A \<^verbatim>\<open>Result\<close> is a sum with the error on the left. A shift
  by 64 or more is computed as a release build does (\<open>shr64\<close>), and the lemma
  \<open>shift_overflows_iff\<close> names the dnodes on which a debug build panics instead.

  \<^bold>\<open>Third-party code.\<close> SHA-256, the LZ4 block decoder, inflate and the zstd decoder are the
  fields of the argument \<open>x\<close>. The one hypothesis on them, \<open>codecs_bounded\<close>, says that the LZ4
  decoder never returns more than the size it was given, as its crate documents. The conversion of
  an anomaly to a finding is an argument, a byte source of the adapter is a record of the two
  functions called on it, and the types of the interface crates hold the variants and fields used.

  \<^bold>\<open>Loops.\<close> A loop over a list or a counter is structural recursion, a loop with a moving offset a
  \<^verbatim>\<open>function\<close> with a measure, and a loop the code bounds by a budget (nesting depth 16, 4096 pairs,
  4096 snapshots, the number of chunks of a leaf) keeps that budget as its recursion argument. No
  fuel is added by the model, so every definition is total and every property speaks of the
  result the code returns.

  \<^bold>\<open>What the lemmas show.\<close> Every decoder inverts an encoder of the documented layout (block
  pointers, dnodes, uberblocks, labels, nvlists, micro and fat ZAPs, attribute tables, LZJB and
  ZLE streams, packed extended attributes), stays in bounds on arbitrary bytes, and reports exactly
  the errors of the code. The indirect walk refines indexing of a flat array; the ring scan is the
  maximum; the two attribute walks agree field by field and with the stored values, the two ZAP
  listings with each other. End to end, looking up and reading
  a path of a formatted file system returns what was written, from the labels of a pool (through
  the adapter) as well as from its object set, and listing the extended attributes of a node returns
  those stored with it, as the streams of the mounted file do. Any one intact label is enough to mount,
  while the audit names a torn label only between an intact first and last one. The recovery returns exactly the records the
  inductive relation \<open>snapshot_at\<close> and the live root determine, each once; the audit reports exactly
  the codes whose condition holds, and impossible geometry never. A file behind up to seven levels of
  indirect blocks reads back, and the device bytes at the extents of an uncompressed file without holes
  are its content. Every
  decoded dnode and configuration is within stated limits, a chain of ZAP chunks always ends, and
  reading a file fails only with the errors \<open>walk_error\<close> lists. Where the code departs from its
  intent, the property states the actual behaviour.

  \<^bold>\<open>Not modelled.\<close> The re-exports of the crate root, the tests and fuzz harnesses, the \<^verbatim>\<open>Debug\<close> rendering of
  a mounted file system, and the capacity hints of vectors, which have no effect on results.
\<close>

end
